(* ===== verification/Prelude.thy ===== *)
theory Prelude
  imports Main "HOL-Library.Word" "HOL-Library.Monad_Syntax" "HOL-Library.Signed_Division"
begin

text \<open>
  Shared vocabulary of the development: the machine integer types of the C++ sources, the
  signed 64-bit operations whose overflow is undefined behaviour (they return \<open>None\<close>),
  the counted loop in the option monad (\<open>None\<close> is a failed assertion or an exception)
  with its invariant rule, and the generic list, option and word lemmas the components use.
\<close>

unbundle bit_operations_syntax

section \<open>Integer types\<close>

type_synonym u8 = "8 word"
type_synonym u16 = "16 word"
type_synonym u32 = "32 word"
type_synonym u64 = "64 word"
type_synonym u128 = "128 word"

text \<open>
  \<open>i64\<close> values are \<^typ>\<open>int\<close>s in the range below. Addition, subtraction and
  multiplication of C++ signed integers outside that range is undefined behaviour, which
  the checked operations make the value \<open>None\<close>.
\<close>

abbreviation int64_max :: int where "int64_max \<equiv> 9223372036854775807"
abbreviation int64_min :: int where "int64_min \<equiv> - 9223372036854775808"
abbreviation int32_max :: int where "int32_max \<equiv> 2147483647"
abbreviation int32_min :: int where "int32_min \<equiv> - 2147483648"
abbreviation uint32_max :: int where "uint32_max \<equiv> 4294967295"

definition in_i64 :: "int \<Rightarrow> bool" where
  "in_i64 x \<longleftrightarrow> int64_min \<le> x \<and> x \<le> int64_max"

definition i64_chk :: "int \<Rightarrow> int option" where
  "i64_chk x = (if in_i64 x then Some x else None)"

definition in_i32 :: "int \<Rightarrow> bool" where
  "in_i32 x \<longleftrightarrow> int32_min \<le> x \<and> x \<le> int32_max"

definition i32_chk :: "int \<Rightarrow> int option" where
  "i32_chk x = (if in_i32 x then Some x else None)"

named_theorems fold_defs \<open>small definitions unfolded by every component\<close>

lemma in_i64_simp [fold_defs]: "in_i64 x = (int64_min \<le> x \<and> x \<le> int64_max)"
  by (simp add: in_i64_def)

lemma in_i32_simp [fold_defs]: "in_i32 x = (int32_min \<le> x \<and> x \<le> int32_max)"
  by (simp add: in_i32_def)

lemma i32_chk_Some [simp]: "in_i32 x \<Longrightarrow> i32_chk x = Some x"
  by (simp add: i32_chk_def)

lemma i64_chk_Some [simp]: "in_i64 x \<Longrightarrow> i64_chk x = Some x"
  by (simp add: i64_chk_def)

lemma i64_chk_eq_Some: "i64_chk x = Some y \<longleftrightarrow> in_i64 x \<and> y = x"
  by (auto simp: i64_chk_def)

section \<open>Truncating division\<close>

text \<open>C++ \<open>/\<close> and \<open>%\<close> on signed integers truncate towards zero: \<open>sdiv\<close> and
  \<open>smod\<close> of \<open>Signed_Division\<close>. On non-negative operands they are \<open>div\<close> and
  \<open>mod\<close>.\<close>

lemma sdiv_nonneg [simp]: "0 \<le> a \<Longrightarrow> 0 \<le> b \<Longrightarrow> (a::int) sdiv b = a div b"
  by (auto simp: signed_divide_int_def sgn_if)

lemma smod_nonneg [simp]: "0 \<le> a \<Longrightarrow> 0 \<le> b \<Longrightarrow> (a::int) smod b = a mod b"
  by (cases "a = 0"; cases "b = 0")
    (auto simp: signed_modulo_int_def minus_mult_div_eq_mod mult.commute sgn_if)

section \<open>Counted loops\<close>

text \<open>\<open>for_opt f i n s\<close> runs the body \<open>f\<close> on the counter values \<open>i, i+1, \<dots>\<close>
  (\<open>n\<close> of them), threading the state, and stops at the first \<open>None\<close>.\<close>

fun for_opt :: "(nat \<Rightarrow> 's \<Rightarrow> 's option) \<Rightarrow> nat \<Rightarrow> nat \<Rightarrow> 's \<Rightarrow> 's option" where
  "for_opt f i 0 s = Some s"
| "for_opt f i (Suc n) s = Option.bind (f i s) (for_opt f (Suc i) n)"

text \<open>The invariant rule: if the body never fails under the invariant and re-establishes
  it for the next counter value, the loop returns and the invariant holds at its end.\<close>

lemma for_opt_rule:
  assumes "I i s"
    and "\<And>j t. i \<le> j \<Longrightarrow> j < i + n \<Longrightarrow> I j t \<Longrightarrow> \<exists>u. f j t = Some u \<and> I (Suc j) u"
  shows "\<exists>t. for_opt f i n s = Some t \<and> I (i + n) t"
  using assms
proof (induction n arbitrary: i s)
  case 0
  then show ?case by simp
next
  case (Suc n)
  from Suc.prems(2)[of i s] Suc.prems(1) obtain u where u: "f i s = Some u" "I (Suc i) u"
    by auto
  have "\<exists>t. for_opt f (Suc i) n u = Some t \<and> I (Suc i + n) t"
    by (rule Suc.IH) (use u Suc.prems(2) in auto)
  with u show ?case by simp
qed

lemma for_opt_append:
  "for_opt f i (m + n) s = Option.bind (for_opt f i m s) (for_opt f (i + m) n)"
proof (induction m arbitrary: i s)
  case 0
  then show ?case by simp
next
  case (Suc m)
  show ?case by (cases "f i s") (simp_all add: Suc.IH)
qed

lemma for_opt_Suc_end:
  "for_opt f i (Suc n) s = Option.bind (for_opt f i n s) (f (i + n))"
proof -
  have one: "for_opt f j (Suc 0) t = f j t" for j t
    by (cases "f j t") simp_all
  have "for_opt f i (n + Suc 0) s = Option.bind (for_opt f i n s) (for_opt f (i + n) (Suc 0))"
    by (rule for_opt_append)
  moreover have "for_opt f (i + n) (Suc 0) = f (i + n)"
    by (rule ext) (rule one)
  ultimately show ?thesis by (simp only: add_Suc_right add_0_right)
qed

lemma for_opt_cong:
  assumes "\<And>j t. i \<le> j \<Longrightarrow> j < i + n \<Longrightarrow> f j t = g j t"
  shows "for_opt f i n s = for_opt g i n s"
  using assms
proof (induction n arbitrary: i s)
  case 0
  then show ?case by simp
next
  case (Suc n)
  have "for_opt f (Suc i) n u = for_opt g (Suc i) n u" for u
    by (rule Suc.IH) (use Suc.prems in auto)
  then have eq: "for_opt f (Suc i) n = for_opt g (Suc i) n" by (rule ext)
  from Suc.prems[of i s] show ?case by (simp add: eq)
qed

text \<open>A loop that assigns every position of an array once, and a loop that feeds every element of an
  array to an accumulator.\<close>

lemma for_fill:
  assumes "\<And>i. i < n \<Longrightarrow> f i = Some (h i)" and "length xs = n"
  shows "for_opt (\<lambda>i out. do { v \<leftarrow> f i; Some (out[i := v]) }) 0 n xs = Some (map h [0..<n])"
proof -
  let ?I = "\<lambda>k out. length out = n \<and> (\<forall>i < k. i < n \<longrightarrow> out ! i = h i)"
  have "\<exists>t. for_opt (\<lambda>i out. do { v \<leftarrow> f i; Some (out[i := v]) }) 0 n xs = Some t \<and> ?I (0 + n) t"
    by (rule for_opt_rule) (use assms in \<open>auto simp: nth_list_update less_Suc_eq\<close>)
  then show ?thesis by (auto intro!: nth_equalityI)
qed

lemma for_feed:
  assumes "n \<le> length xs" and "\<And>i s. i < n \<Longrightarrow> f i s = Some (g (xs ! i) s)"
  shows "for_opt f 0 n s = Some (fold g (take n xs) s)"
proof -
  have "\<exists>t. for_opt f 0 n s = Some t \<and> t = fold g (take (0 + n) xs) s"
    by (rule for_opt_rule) (use assms in \<open>auto simp: take_Suc_conv_app_nth\<close>)
  then show ?thesis by simp
qed

lemma sint_u32_small:
  assumes "uint (x::32 word) < 2 ^ 31"
  shows "sint x = uint x"
proof -
  have "- (2 ^ 31) \<le> uint x" by (rule order_trans[OF _ uint_ge_0]) simp
  with assms show ?thesis unfolding sint_uint by (simp add: signed_take_bit_int_eq_self)
qed

lemma unat_lt: "unat (w::'a::len word) < 2 ^ LENGTH('a)"
  by (rule unsigned_less)

lemma div_modE:
  assumes "0 < (k::nat)"
  obtains q r where "a = k * q + r" "r < k" "a div k = q" "a mod k = r"
  using assms by (metis mod_less_divisor mult_div_mod_eq)

lemma div_mod_append:
  "b + c < (k::nat) \<Longrightarrow> (k * q + b + c) div k = q \<and> (k * q + b + c) mod k = b + c"
  by (simp add: add.assoc)

lemma list_all_uptD: "list_all P [a..<b] \<Longrightarrow> a \<le> i \<Longrightarrow> i < b \<Longrightarrow> P i"
  by (simp add: list_all_iff)

text \<open>A checked array read.\<close>

definition nth_opt :: "'a list \<Rightarrow> nat \<Rightarrow> 'a option" where
  "nth_opt xs i = (if i < length xs then Some (xs ! i) else None)"

lemma nth_opt_Some [simp]: "i < length xs \<Longrightarrow> nth_opt xs i = Some (xs ! i)"
  by (simp add: nth_opt_def)

lemma nth_opt_eq_Some: "nth_opt xs i = Some x \<longleftrightarrow> i < length xs \<and> x = xs ! i"
  by (auto simp: nth_opt_def)

text \<open>Wrap-around of 32-bit and 64-bit unsigned arithmetic on naturals.\<close>

definition w32 :: "nat \<Rightarrow> nat" where
  "w32 x = x mod 2 ^ 32"

definition w64 :: "nat \<Rightarrow> nat" where
  "w64 x = x mod 2 ^ 64"

lemma w32_id [simp]: "x < 2 ^ 32 \<Longrightarrow> w32 x = x"
  by (simp add: w32_def)

lemma w64_id [simp]: "x < 2 ^ 64 \<Longrightarrow> w64 x = x"
  by (simp add: w64_def)

lemma w32_less: "w32 x < 2 ^ 32"
  by (simp add: w32_def)

text \<open>A loop with a constant step on a 32-bit counter; a counter that wraps around is \<open>None\<close>.\<close>

function for_step :: "(nat \<Rightarrow> 's \<Rightarrow> 's option) \<Rightarrow> nat \<Rightarrow> nat \<Rightarrow> nat \<Rightarrow> 's \<Rightarrow> 's option" where
  "for_step f i stop step s =
     (if i < stop then
        (if step = 0 \<or> i + step \<ge> 2 ^ 32 then None
         else Option.bind (f i s) (for_step f (i + step) stop step))
      else Some s)"
  by pat_completeness auto

termination
  by (relation "measure (\<lambda>(f, i, stop, step, s). stop - i)") auto

declare for_step.simps [simp del]

lemma for_step_rule:
  assumes "I i s" and "0 < step" and "stop + step \<le> 2 ^ 32"
    and "\<And>j t. i \<le> j \<Longrightarrow> j < stop \<Longrightarrow> step dvd j - i \<Longrightarrow> I j t \<Longrightarrow> \<exists>u. f j t = Some u \<and> I (j + step) u"
  shows "\<exists>t k. for_step f i stop step s = Some t \<and> I k t \<and> i \<le> k \<and> stop \<le> k \<and> step dvd k - i"
  using assms
proof (induction "stop - i" arbitrary: i s rule: less_induct)
  case less
  show ?case
  proof (cases "i < stop")
    case False
    then show ?thesis using less.prems(1) by (auto simp: for_step.simps)
  next
    case True
    with less.prems(1) less.prems(4)[of i s] obtain u where u: "f i s = Some u" "I (i + step) u" by auto
    have "\<exists>t k. for_step f (i + step) stop step u = Some t \<and> I k t \<and> i + step \<le> k \<and> stop \<le> k \<and>
        step dvd k - (i + step)"
    proof (rule less.hyps)
      fix j t assume j: "i + step \<le> j" "j < stop" "step dvd j - (i + step)" "I j t"
      have "j - i = (j - (i + step)) + step" using j(1) by simp
      then have "step dvd j - i" using j(3) by (metis dvd_add dvd_refl)
      with j show "\<exists>u. f j t = Some u \<and> I (j + step) u" using less.prems(4)[of j t] by simp
    qed (use True u less.prems in auto)
    then obtain t k where t: "for_step f (i + step) stop step u = Some t" "I k t" "i + step \<le> k"
      "stop \<le> k" "step dvd k - (i + step)" by auto
    have "k - i = (k - (i + step)) + step" using t(3) by simp
    then have "step dvd k - i" using t(5) by (metis dvd_add dvd_refl)
    moreover have "for_step f i stop step s = Some t"
      using True u(1) t(1) less.prems(2,3) by (simp add: for_step.simps[of f i])
    ultimately show ?thesis using t by (intro exI[of _ t] exI[of _ k]) auto
  qed
qed

end
