(* ===== verification/Money.thy ===== *)
theory Money
  imports Prelude
begin

text \<open>
  Amounts: \<open>CAmount\<close> and the money-range predicates of \<open>consensus/amount.h\<close>, and the
  overflow-checked addition of \<open>util/overflow.h\<close>.
\<close>

type_synonym CAmount = int

definition COIN :: CAmount where
  "COIN = 100000000"

definition MAX_MONEY :: CAmount where
  "MAX_MONEY = 21000000 * COIN"

definition MoneyRange :: "CAmount \<Rightarrow> bool" where
  "MoneyRange nValue \<longleftrightarrow> nValue \<ge> 0 \<and> nValue \<le> MAX_MONEY"

definition MoneyRangeSigned :: "CAmount \<Rightarrow> bool" where
  "MoneyRangeSigned nValue \<longleftrightarrow> nValue \<ge> - MAX_MONEY \<and> nValue \<le> MAX_MONEY"

text \<open>\<open>AdditionOverflow\<close> and \<open>CheckedAdd\<close> at the type \<open>int64_t\<close>.\<close>

definition AdditionOverflow :: "int \<Rightarrow> int \<Rightarrow> bool" where
  "AdditionOverflow i j \<longleftrightarrow>
     (i > 0 \<and> j > int64_max - i) \<or> (i < 0 \<and> j < int64_min - i)"

definition CheckedAdd :: "int \<Rightarrow> int \<Rightarrow> int option" where
  "CheckedAdd i j = (if AdditionOverflow i j then None else Some (i + j))"

named_theorems money_defs \<open>the amount constants and range predicates\<close>

declare COIN_def [money_defs] MAX_MONEY_def [money_defs] MoneyRange_def [money_defs]
  MoneyRangeSigned_def [money_defs]

lemma CheckedAdd_exact:
  "in_i64 i \<Longrightarrow> in_i64 j \<Longrightarrow> CheckedAdd i j = (if in_i64 (i + j) then Some (i + j) else None)"
  by (auto simp: CheckedAdd_def AdditionOverflow_def fold_defs)

lemma money_in_i64 [intro]: "MoneyRangeSigned x \<Longrightarrow> in_i64 x"
  by (simp add: money_defs fold_defs)

lemma money_signed [intro]: "MoneyRange x \<Longrightarrow> MoneyRangeSigned x"
  by (simp add: money_defs)

lemma money_signed_uminus [simp]: "MoneyRangeSigned (- x) = MoneyRangeSigned x"
  by (auto simp: money_defs)

lemma CheckedAdd_money [simp]:
  "MoneyRangeSigned i \<Longrightarrow> MoneyRangeSigned j \<Longrightarrow> CheckedAdd i j = Some (i + j)"
  by (auto simp: CheckedAdd_def AdditionOverflow_def money_defs)

end
