(* ===== verification/Std_Map.thy ===== *)
theory Std_Map
  imports Prelude
begin

text \<open>
  \<open>std::map\<close>: the ordered map of the C++ library as the sources use it, a key-ascending
  association list. The locale \<open>ordered_map\<close> is its contract (lookup after every
  mutator, iteration in key order); the components rely on the facts derived from it.
\<close>

lemma alist_eqI:
  "map fst xs = map fst ys \<Longrightarrow> distinct (map fst xs) \<Longrightarrow> map_of xs = map_of ys \<Longrightarrow> xs = ys"
proof (induction xs arbitrary: ys)
  case (Cons x xs)
  then obtain y ys' where ys: "ys = y # ys'" "fst x = fst y" "map fst xs = map fst ys'" by auto
  from Cons.prems(3) have "map_of (x # xs) (fst x) = map_of ys (fst x)" by (rule fun_cong)
  with ys have xy: "x = y" by (cases x; cases y) auto
  have none: "map_of xs (fst x) = None" "map_of ys' (fst x) = None"
    using Cons.prems(2) ys(3) by (auto simp: map_of_eq_None_iff simp flip: set_map)
  have "map_of xs k = map_of ys' k" for k
    using Cons.prems(3) none ys(1) xy by (cases "k = fst x") (auto dest: fun_cong[of _ _ k])
  with Cons.IH[OF ys(3)] Cons.prems(2) ys(1) xy show ?case by auto
qed simp

section \<open>The contract\<close>

locale ordered_map =
  fixes empty :: "'m"
    and upd :: "'k::linorder \<Rightarrow> 'v \<Rightarrow> 'm \<Rightarrow> 'm"
    and del :: "'k \<Rightarrow> 'm \<Rightarrow> 'm"
    and del_below :: "'k \<Rightarrow> 'm \<Rightarrow> 'm"
    and lookup :: "'m \<Rightarrow> 'k \<Rightarrow> 'v option"
    and entries :: "'m \<Rightarrow> ('k \<times> 'v) list"
    and invar :: "'m \<Rightarrow> bool"
  assumes invar_empty: "invar empty"
    and invar_upd: "invar m \<Longrightarrow> invar (upd k v m)"
    and invar_del: "invar m \<Longrightarrow> invar (del k m)"
    and invar_del_below: "invar m \<Longrightarrow> invar (del_below k m)"
    and lookup_empty: "lookup empty k = None"
    and lookup_upd: "invar m \<Longrightarrow> lookup (upd k v m) = (lookup m)(k \<mapsto> v)"
    and lookup_del: "invar m \<Longrightarrow> lookup (del k m) = (lookup m)(k := None)"
    and lookup_del_below:
      "invar m \<Longrightarrow> lookup (del_below k m) x = (if x < k then None else lookup m x)"
    and lookup_entries: "invar m \<Longrightarrow> lookup m = map_of (entries m)"
    and entries_sorted: "invar m \<Longrightarrow> sorted_wrt (<) (map fst (entries m))"
begin

lemma entries_distinct: "invar m \<Longrightarrow> distinct (map fst (entries m))"
  using entries_sorted strict_sorted_iff by blast

lemma set_entries: "invar m \<Longrightarrow> set (entries m) = {(k, v). lookup m k = Some v}"
  using entries_distinct by (auto simp: lookup_entries)

lemma set_entries_upd:
  "invar m \<Longrightarrow> set (entries (upd k v m)) = insert (k, v) {e \<in> set (entries m). fst e \<noteq> k}"
  by (auto simp: set_entries invar_upd lookup_upd split: if_splits)

lemma set_entries_del:
  "invar m \<Longrightarrow> set (entries (del k m)) = {e \<in> set (entries m). fst e \<noteq> k}"
  by (auto simp: set_entries invar_del lookup_del split: if_splits)

lemma set_entries_del_below:
  "invar m \<Longrightarrow> set (entries (del_below k m)) = {e \<in> set (entries m). k \<le> fst e}"
  by (auto simp: set_entries invar_del_below lookup_del_below split: if_splits)

text \<open>A map is determined by its lookups, so undoing an insertion of a fresh key gives the
  same iteration order and contents back.\<close>

lemma entries_eqI:
  assumes "invar m" "invar m'" "lookup m = lookup m'"
  shows "entries m = entries m'"
proof -
  have keys: "map fst (entries m) = map fst (entries m')"
  proof (rule sorted_distinct_set_unique)
    show "set (map fst (entries m)) = set (map fst (entries m'))"
      using assms by (simp add: set_entries)
  qed (use assms entries_sorted entries_distinct strict_sorted_iff in blast)+
  show ?thesis
    by (rule alist_eqI[OF keys entries_distinct[OF assms(1)]])
      (use assms in \<open>simp flip: lookup_entries\<close>)
qed

lemma entries_upd_del:
  "invar m \<Longrightarrow> lookup m k = None \<Longrightarrow> entries (del k (upd k v m)) = entries m"
  by (rule entries_eqI) (simp_all add: invar_upd invar_del lookup_del lookup_upd fun_upd_idem)

end

section \<open>The key-ascending association list\<close>

fun smap_upd :: "'k::linorder \<Rightarrow> 'v \<Rightarrow> ('k \<times> 'v) list \<Rightarrow> ('k \<times> 'v) list" where
  "smap_upd k v [] = [(k, v)]"
| "smap_upd k v ((k', v') # m) =
     (if k < k' then (k, v) # (k', v') # m
      else if k = k' then (k, v) # m
      else (k', v') # smap_upd k v m)"

definition smap_del :: "'k \<Rightarrow> ('k \<times> 'v) list \<Rightarrow> ('k \<times> 'v) list" where
  "smap_del k m = filter (\<lambda>e. fst e \<noteq> k) m"

definition smap_del_below :: "'k::linorder \<Rightarrow> ('k \<times> 'v) list \<Rightarrow> ('k \<times> 'v) list" where
  "smap_del_below k m = dropWhile (\<lambda>e. fst e < k) m"

definition smap_invar :: "('k::linorder \<times> 'v) list \<Rightarrow> bool" where
  "smap_invar m \<longleftrightarrow> sorted_wrt (<) (map fst m)"

lemma map_of_smap_upd: "map_of (smap_upd k v m) = (map_of m)(k \<mapsto> v)"
  by (induction k v m rule: smap_upd.induct) auto

lemma fst_smap_upd: "fst ` set (smap_upd k v m) = insert k (fst ` set m)"
  by (induction k v m rule: smap_upd.induct) auto

lemma smap_invar_upd: "smap_invar m \<Longrightarrow> smap_invar (smap_upd k v m)"
proof (induction k v m rule: smap_upd.induct)
  case (1 k v)
  then show ?case by (simp add: smap_invar_def)
next
  case (2 k v k' v' m)
  have "fst ` set (smap_upd k v m) = insert k (fst ` set m)" by (rule fst_smap_upd)
  with 2 show ?case by (force simp: smap_invar_def)
qed

lemma smap_invar_filter: "smap_invar m \<Longrightarrow> smap_invar (filter P m)"
  by (induction m) (auto simp: smap_invar_def)

lemma smap_del_below_filter: "smap_invar m \<Longrightarrow> smap_del_below k m = filter (\<lambda>e. k \<le> fst e) m"
proof (induction m)
  case Nil
  then show ?case by (simp add: smap_del_below_def)
next
  case (Cons e m)
  show ?case
  proof (cases "fst e < k")
    case True
    with Cons show ?thesis by (simp add: smap_del_below_def smap_invar_def)
  next
    case False
    with Cons.prems have "\<forall>x \<in> set (e # m). k \<le> fst x"
      by (force simp: smap_invar_def)
    then have "filter (\<lambda>e. k \<le> fst e) (e # m) = e # m"
      by (simp only: filter_id_conv)
    with False show ?thesis by (simp add: smap_del_below_def)
  qed
qed

lemma map_of_filter_fst: "map_of (filter (\<lambda>e. P (fst e)) m) k = (if P k then map_of m k else None)"
  by (induction m) auto

interpretation smap: ordered_map "[]" smap_upd smap_del smap_del_below map_of "\<lambda>m. m" smap_invar
proof (unfold_locales, goal_cases)
  case 1
  show ?case by (simp add: smap_invar_def)
next
  case (2 m k v)
  then show ?case by (rule smap_invar_upd)
next
  case (3 m k)
  then show ?case by (simp add: smap_del_def smap_invar_filter)
next
  case (4 m k)
  then show ?case by (simp add: smap_del_below_filter smap_invar_filter)
next
  case (5 k)
  show ?case by simp
next
  case (6 m k v)
  show ?case by (rule map_of_smap_upd)
next
  case (7 m k)
  show ?case by (rule ext) (simp add: smap_del_def map_of_filter_fst[where P = "\<lambda>x. x \<noteq> k"])
next
  case (8 m k x)
  then show ?case
    by (simp add: smap_del_below_filter map_of_filter_fst[where P = "\<lambda>x. k \<le> x"] not_less)
next
  case (9 m)
  show ?case ..
next
  case (10 m)
  then show ?case by (simp add: smap_invar_def)
qed

end
