(* ===== verification/Shielded_Pool.thy ===== *)
theory Shielded_Pool
  imports Money Std_Map
begin

text \<open>
  The shielded value pool: the turnstile \<open>ShieldedPoolBalance\<close>
  (\<open>shielded/turnstile.cpp\<close>), the unshield velocity log
  \<open>ShieldedUnshieldVelocity\<close> (\<open>shielded/unshield_velocity.cpp\<close>), and the parts of
  \<open>ConnectBlock\<close> and \<open>DisconnectBlock\<close> (\<open>validation.cpp\<close>) that drive them: the
  per-transaction balance updates, the velocity check, and their rollback.
\<close>

section \<open>The turnstile\<close>

record ShieldedPoolBalance =
  m_balance :: CAmount

text \<open>A refused transition is \<open>None\<close> (the source returns \<open>false\<close> and leaves the
  balance unchanged).\<close>

definition ApplyValueBalance :: "ShieldedPoolBalance \<Rightarrow> CAmount \<Rightarrow> ShieldedPoolBalance option" where
  "ApplyValueBalance p value_balance =
     (if \<not> MoneyRangeSigned value_balance then None
      else case CheckedAdd (m_balance p) (- value_balance) of
        None \<Rightarrow> None
      | Some new_balance \<Rightarrow>
          if \<not> MoneyRange new_balance \<or> new_balance < 0 then None
          else Some (p\<lparr>m_balance := new_balance\<rparr>))"

definition UndoValueBalance :: "ShieldedPoolBalance \<Rightarrow> CAmount \<Rightarrow> ShieldedPoolBalance option" where
  "UndoValueBalance p value_balance =
     (if \<not> MoneyRangeSigned value_balance then None
      else case CheckedAdd (m_balance p) value_balance of
        None \<Rightarrow> None
      | Some new_balance \<Rightarrow>
          if \<not> MoneyRange new_balance \<or> new_balance < 0 then None
          else Some (p\<lparr>m_balance := new_balance\<rparr>))"

definition SetBalance :: "ShieldedPoolBalance \<Rightarrow> CAmount \<Rightarrow> ShieldedPoolBalance option" where
  "SetBalance p balance =
     (if \<not> MoneyRange balance \<or> balance < 0 then None
      else Some (p\<lparr>m_balance := balance\<rparr>))"

section \<open>The velocity log\<close>

record ShieldedUnshieldVelocity =
  m_egress :: "(int \<times> CAmount) list"

text \<open>\<open>WindowCap\<close>: the products are signed 64-bit multiplications, \<open>None\<close> where they
  overflow.\<close>

definition WindowCap :: "CAmount \<Rightarrow> u32 \<Rightarrow> CAmount \<Rightarrow> CAmount option" where
  "WindowCap pool_balance cap_bps min_cap =
     (let floor_cap = max 0 min_cap in
      if pool_balance \<le> 0 \<or> cap_bps = 0 then Some floor_cap
      else do {
        whole \<leftarrow> i64_chk ((pool_balance sdiv 10000) * uint cap_bps);
        part \<leftarrow> i64_chk ((pool_balance smod 10000) * uint cap_bps);
        cap \<leftarrow> i64_chk (whole + part sdiv 10000);
        Some (max (if cap < 0 \<or> cap > MAX_MONEY then MAX_MONEY else cap) floor_cap)
      })"

definition RecordBlock ::
    "ShieldedUnshieldVelocity \<Rightarrow> int \<Rightarrow> CAmount \<Rightarrow> ShieldedUnshieldVelocity" where
  "RecordBlock v height net_egress =
     v\<lparr>m_egress := smap_upd height (if net_egress > 0 then net_egress else 0) (m_egress v)\<rparr>"

definition UndoBlock :: "ShieldedUnshieldVelocity \<Rightarrow> int \<Rightarrow> ShieldedUnshieldVelocity" where
  "UndoBlock v height = v\<lparr>m_egress := smap_del height (m_egress v)\<rparr>"

text \<open>The backwards iteration of \<open>WindowTotal\<close> from \<open>upper_bound(tip_height)\<close>.\<close>

fun window_loop :: "int \<Rightarrow> CAmount \<Rightarrow> (int \<times> CAmount) list \<Rightarrow> CAmount option" where
  "window_loop lower_exclusive acc [] = Some acc"
| "window_loop lower_exclusive acc ((h, egress) # rest) =
     (if h \<le> lower_exclusive then Some acc
      else do {
        acc' \<leftarrow> i64_chk (acc + egress);
        if acc' \<ge> MAX_MONEY then Some MAX_MONEY
        else window_loop lower_exclusive acc' rest
      })"

definition WindowTotal :: "ShieldedUnshieldVelocity \<Rightarrow> int \<Rightarrow> u32 \<Rightarrow> CAmount option" where
  "WindowTotal v tip_height window_blocks =
     (let low64 = tip_height - uint window_blocks;
          lower_exclusive = (if low64 < int32_min then int32_min else low64)
      in window_loop lower_exclusive 0
           (rev (takeWhile (\<lambda>e. fst e \<le> tip_height) (m_egress v))))"

definition WithinCap ::
    "ShieldedUnshieldVelocity \<Rightarrow> int \<Rightarrow> CAmount \<Rightarrow> u32 \<Rightarrow> u32 \<Rightarrow> CAmount \<Rightarrow> bool option" where
  "WithinCap v tip_height pool_balance cap_bps window_blocks min_cap = do {
     egress \<leftarrow> WindowTotal v tip_height window_blocks;
     cap \<leftarrow> WindowCap pool_balance cap_bps min_cap;
     Some (egress \<le> cap)
   }"

definition Prune :: "ShieldedUnshieldVelocity \<Rightarrow> int \<Rightarrow> ShieldedUnshieldVelocity" where
  "Prune v keep_from_height = v\<lparr>m_egress := smap_del_below keep_from_height (m_egress v)\<rparr>"

section \<open>Connecting and disconnecting a block\<close>

text \<open>
  The value balances of a block's shielded bundles in transaction order, as
  \<open>TryGetShieldedStateValueBalance\<close> returns them (\<open>Inl\<close> with the reason where it rejects).
  \<open>ConnectBlock\<close> applies them one by one and \<open>DisconnectBlock\<close> undoes them one by one,
  both in the order of \<open>block.vtx\<close>.
\<close>

fun connect_pool :: "ShieldedPoolBalance \<Rightarrow> (string + CAmount) list \<Rightarrow> string + ShieldedPoolBalance" where
  "connect_pool p [] = Inr p"
| "connect_pool p (vb # vbs) =
     (case vb of
        Inl reject \<Rightarrow> Inl reject
      | Inr value_balance \<Rightarrow>
          (case ApplyValueBalance p value_balance of
             None \<Rightarrow> Inl ''shielded-pool-balance-negative''
           | Some p' \<Rightarrow> connect_pool p' vbs))"

fun disconnect_pool :: "ShieldedPoolBalance \<Rightarrow> (string + CAmount) list \<Rightarrow> ShieldedPoolBalance option" where
  "disconnect_pool p [] = Some p"
| "disconnect_pool p (vb # vbs) =
     (case vb of
        Inl reject \<Rightarrow> None
      | Inr value_balance \<Rightarrow>
          (case UndoValueBalance p value_balance of
             None \<Rightarrow> None
           | Some p' \<Rightarrow> disconnect_pool p' vbs))"

record velocity_params =
  nShieldedUnshieldVelocityActivationHeight :: int
  nShieldedUnshieldVelocityWindowBlocks :: u32
  nShieldedUnshieldVelocityCapBps :: u32
  nShieldedUnshieldVelocityEndHeight :: int
  nShieldedUnshieldVelocityMinCapHeight :: int
  nShieldedUnshieldVelocityMinCap :: CAmount

definition IsShieldedUnshieldVelocityCapActive :: "velocity_params \<Rightarrow> int \<Rightarrow> bool" where
  "IsShieldedUnshieldVelocityCapActive c height \<longleftrightarrow>
     nShieldedUnshieldVelocityActivationHeight c \<noteq> int32_max \<and>
     height \<ge> nShieldedUnshieldVelocityActivationHeight c \<and>
     height < nShieldedUnshieldVelocityEndHeight c"

definition ShieldedUnshieldVelocityMinCapForHeight :: "velocity_params \<Rightarrow> int \<Rightarrow> CAmount" where
  "ShieldedUnshieldVelocityMinCapForHeight c height =
     (if \<not> IsShieldedUnshieldVelocityCapActive c height then 0
      else if height < nShieldedUnshieldVelocityMinCapHeight c then 0
      else nShieldedUnshieldVelocityMinCap c)"

text \<open>The velocity step of \<open>ConnectBlock\<close>: \<open>pool_start\<close> is the balance before the
  block, \<open>next_pool\<close> the balance after its transactions. Database writes are left out.\<close>

definition connect_velocity ::
    "velocity_params \<Rightarrow> int \<Rightarrow> ShieldedPoolBalance \<Rightarrow> ShieldedPoolBalance \<Rightarrow>
     ShieldedUnshieldVelocity \<Rightarrow> (string + ShieldedUnshieldVelocity) option" where
  "connect_velocity c height pool next_pool velocity =
     (if \<not> IsShieldedUnshieldVelocityCapActive c height then Some (Inr velocity)
      else
        let pool_start = m_balance pool;
            pool_end = m_balance next_pool;
            block_net_egress = (if pool_start > pool_end then pool_start - pool_end else 0);
            next_velocity = RecordBlock velocity height block_net_egress;
            min_cap = ShieldedUnshieldVelocityMinCapForHeight c height
        in do {
          ok \<leftarrow> WithinCap next_velocity height pool_start (nShieldedUnshieldVelocityCapBps c)
                 (nShieldedUnshieldVelocityWindowBlocks c) min_cap;
          if \<not> ok then Some (Inl ''shielded-unshield-velocity-exceeded'')
          else do {
            buffer \<leftarrow> i32_chk (2 * sint (nShieldedUnshieldVelocityWindowBlocks c));
            keep_from \<leftarrow> i32_chk (height - buffer);
            Some (Inr (Prune next_velocity keep_from))
          }
        })"

definition disconnect_velocity ::
    "velocity_params \<Rightarrow> int \<Rightarrow> ShieldedUnshieldVelocity \<Rightarrow> ShieldedUnshieldVelocity" where
  "disconnect_velocity c height velocity =
     (if IsShieldedUnshieldVelocityCapActive c height then UndoBlock velocity height else velocity)"

section \<open>The turnstile invariant\<close>

lemma Apply_Some_iff:
  "MoneyRange (m_balance p) \<Longrightarrow>
   ApplyValueBalance p v = Some p' \<longleftrightarrow>
     MoneyRangeSigned v \<and> MoneyRange (m_balance p - v) \<and> p' = p\<lparr>m_balance := m_balance p - v\<rparr>"
  by (auto simp: ApplyValueBalance_def money_signed money_defs split: option.splits)

lemma Undo_Some_iff:
  "MoneyRange (m_balance p) \<Longrightarrow>
   UndoValueBalance p v = Some p' \<longleftrightarrow>
     MoneyRangeSigned v \<and> MoneyRange (m_balance p + v) \<and> p' = p\<lparr>m_balance := m_balance p + v\<rparr>"
  by (auto simp: UndoValueBalance_def money_signed money_defs split: option.splits)

lemma SetBalance_Some_iff:
  "SetBalance p b = Some p' \<longleftrightarrow> MoneyRange b \<and> p' = p\<lparr>m_balance := b\<rparr>"
  by (auto simp: SetBalance_def money_defs)

lemma Undo_Apply:
  "MoneyRange (m_balance p) \<Longrightarrow> ApplyValueBalance p v = Some p' \<Longrightarrow> UndoValueBalance p' v = Some p"
  by (auto simp: Apply_Some_iff Undo_Some_iff)

text \<open>The states the pool balance can reach: a fresh pool, and the three mutators, in any
  order and with any arguments.\<close>

inductive pool_reach :: "ShieldedPoolBalance \<Rightarrow> bool" where
  fresh: "pool_reach \<lparr>m_balance = 0\<rparr>"
| apply_vb: "pool_reach p \<Longrightarrow> ApplyValueBalance p v = Some p' \<Longrightarrow> pool_reach p'"
| undo_vb: "pool_reach p \<Longrightarrow> UndoValueBalance p v = Some p' \<Longrightarrow> pool_reach p'"
| set_bal: "pool_reach p \<Longrightarrow> SetBalance p b = Some p' \<Longrightarrow> pool_reach p'"

lemma pool_reach_MoneyRange: "pool_reach p \<Longrightarrow> MoneyRange (m_balance p)"
proof (induction rule: pool_reach.induct)
  case fresh
  show ?case by (simp add: money_defs)
next
  case (apply_vb p v p')
  then show ?case by (auto simp: Apply_Some_iff)
next
  case (undo_vb p v p')
  then show ?case by (auto simp: Undo_Some_iff)
next
  case (set_bal p b p')
  then show ?case by (auto simp: SetBalance_Some_iff)
qed

lemma connect_pool_Inr:
  "MoneyRange (m_balance p) \<Longrightarrow> connect_pool p (map Inr vs) = Inr p' \<Longrightarrow>
   MoneyRange (m_balance p') \<and> m_balance p' = m_balance p - sum_list vs"
proof (induction vs arbitrary: p)
  case Nil
  then show ?case by simp
next
  case (Cons v vs)
  then obtain q where q: "ApplyValueBalance p v = Some q" and c: "connect_pool q (map Inr vs) = Inr p'"
    by (auto split: option.splits)
  from q Cons.prems(1) have "MoneyRange (m_balance q)" "m_balance q = m_balance p - v"
    by (auto simp: Apply_Some_iff)
  with Cons.IH[of q] c show ?case by auto
qed

lemma disconnect_pool_append:
  "disconnect_pool p (xs @ ys) =
     (case disconnect_pool p xs of None \<Rightarrow> None | Some p' \<Rightarrow> disconnect_pool p' ys)"
  by (induction xs arbitrary: p) (auto split: option.splits sum.splits)

text \<open>Undoing in the reverse order retraces the balances of the connection.\<close>

lemma disconnect_pool_rev:
  "MoneyRange (m_balance p) \<Longrightarrow> connect_pool p (map Inr vs) = Inr p' \<Longrightarrow>
   disconnect_pool p' (rev (map Inr vs)) = Some p"
proof (induction vs arbitrary: p)
  case Nil
  then show ?case by simp
next
  case (Cons v vs)
  then obtain q where q: "ApplyValueBalance p v = Some q" and c: "connect_pool q (map Inr vs) = Inr p'"
    by (auto split: option.splits)
  from q Cons.prems(1) have mq: "MoneyRange (m_balance q)"
    by (auto simp: Apply_Some_iff)
  from Cons.IH[OF mq c] Undo_Apply[OF Cons.prems(1) q] show ?case
    by (simp add: disconnect_pool_append)
qed

text \<open>The forward order of the source walks through the balances
  \<open>end + v\<^sub>1 + \<dots> + v\<^sub>i\<close>. They stay in range when all value balances are unshields.\<close>

lemma disconnect_pool_forward_from:
  "MoneyRange b \<Longrightarrow> \<forall>v \<in> set vs. 0 \<le> v \<Longrightarrow> MoneyRange (b + sum_list vs) \<Longrightarrow>
   m_balance p' = b \<Longrightarrow>
   disconnect_pool p' (map Inr vs) = Some (p'\<lparr>m_balance := b + sum_list vs\<rparr>)"
proof (induction vs arbitrary: b p')
  case Nil
  then show ?case by simp
next
  case (Cons v vs)
  have s: "0 \<le> sum_list vs" using Cons.prems(2) by (simp add: sum_list_nonneg)
  from Cons.prems s have r: "MoneyRange (b + v)" "MoneyRangeSigned v"
    by (auto simp: money_defs)
  then have u: "UndoValueBalance p' v = Some (p'\<lparr>m_balance := b + v\<rparr>)"
    using Cons.prems by (simp add: Undo_Some_iff)
  have "disconnect_pool (p'\<lparr>m_balance := b + v\<rparr>) (map Inr vs) =
      Some (p'\<lparr>m_balance := b + v\<rparr>\<lparr>m_balance := (b + v) + sum_list vs\<rparr>)"
    by (rule Cons.IH) (use Cons.prems r in \<open>auto simp: add.assoc\<close>)
  with u show ?case by (simp add: add.assoc)
qed

lemma disconnect_pool_forward:
  assumes m: "MoneyRange (m_balance p)" and c: "connect_pool p (map Inr vs) = Inr p'"
    and nn: "\<forall>v \<in> set vs. 0 \<le> v"
  shows "disconnect_pool p' (map Inr vs) = Some p"
proof -
  from connect_pool_Inr[OF m c] have e: "MoneyRange (m_balance p')"
    "m_balance p' + sum_list vs = m_balance p" by auto
  have "disconnect_pool p' (map Inr vs) = Some (p'\<lparr>m_balance := m_balance p' + sum_list vs\<rparr>)"
    by (rule disconnect_pool_forward_from) (use e nn m in auto)
  with e show ?thesis by simp
qed

text \<open>In general the intermediate balances are the starting balance less the value balances
  still to be undone.\<close>

lemma disconnect_pool_mixed:
  assumes "MoneyRange (m_balance p')" and "MoneyRange b" and "m_balance p' + sum_list vs = b"
    and "sum_list (map (max 0) vs) \<le> b"
    and "b + sum_list (map (\<lambda>v. max 0 (- v)) vs) \<le> MAX_MONEY"
  shows "disconnect_pool p' (map Inr vs) = Some (p'\<lparr>m_balance := b\<rparr>)"
  using assms
proof (induction vs arbitrary: p')
  case Nil
  then show ?case by simp
next
  case (Cons v vs)
  have s: "0 \<le> sum_list (map (max (0::int)) vs)"
    by (rule sum_list_nonneg) auto
  have s': "0 \<le> sum_list (map (\<lambda>v. max 0 (- v)) vs)"
    by (rule sum_list_nonneg) auto
  have d: "sum_list vs = sum_list (map (max 0) vs) - sum_list (map (\<lambda>v. max 0 (- v)) vs)"
    by (induction vs) (auto simp: max_def)
  have r: "MoneyRange (m_balance p' + v)" "MoneyRangeSigned v"
    using Cons.prems s s' d by (auto simp: money_defs)
  then have u: "UndoValueBalance p' v = Some (p'\<lparr>m_balance := m_balance p' + v\<rparr>)"
    using Cons.prems by (simp add: Undo_Some_iff)
  have "disconnect_pool (p'\<lparr>m_balance := m_balance p' + v\<rparr>) (map Inr vs) =
      Some (p'\<lparr>m_balance := m_balance p' + v\<rparr>\<lparr>m_balance := b\<rparr>)"
    by (rule Cons.IH) (use Cons.prems r in \<open>auto simp: add.assoc\<close>)
  with u show ?case by simp
qed

section \<open>The velocity window\<close>

text \<open>The log as \<open>ConnectBlock\<close> keeps it: key-ascending, block heights, amounts in the
  money range.\<close>

definition velocity_inv :: "ShieldedUnshieldVelocity \<Rightarrow> bool" where
  "velocity_inv v \<longleftrightarrow> smap_invar (m_egress v) \<and>
     (\<forall>e \<in> set (m_egress v). 0 \<le> fst e \<and> MoneyRange (snd e))"

text \<open>The egress of the heights in \<open>(lo, hi]\<close>: the specification of the window total.\<close>

definition egress_between :: "int \<Rightarrow> int \<Rightarrow> (int \<times> CAmount) list \<Rightarrow> CAmount" where
  "egress_between lo hi m = sum_list (map snd (filter (\<lambda>e. lo < fst e \<and> fst e \<le> hi) m))"

lemma sum_egress_nonneg:
  "\<forall>e \<in> set es. MoneyRange (snd e) \<Longrightarrow> 0 \<le> sum_list (map snd (filter P es))"
  by (rule sum_list_nonneg) (auto simp: money_defs)

lemma window_loop_exact:
  "sorted_wrt (>) (map fst es) \<Longrightarrow> \<forall>e \<in> set es. MoneyRange (snd e) \<Longrightarrow>
   0 \<le> acc \<Longrightarrow> acc < MAX_MONEY \<Longrightarrow>
   window_loop lower acc es =
     Some (min MAX_MONEY (acc + sum_list (map snd (filter (\<lambda>e. lower < fst e) es))))"
proof (induction es arbitrary: acc)
  case Nil
  then show ?case by simp
next
  case (Cons e es)
  obtain h x where e: "e = (h, x)" by (cases e)
  let ?S = "sum_list (map snd (filter (\<lambda>e. lower < fst e) es))"
  have S: "0 \<le> ?S" using Cons.prems(2) by (intro sum_egress_nonneg) simp
  have x: "MoneyRange x" using Cons.prems(2) e by simp
  show ?case
  proof (cases "h \<le> lower")
    case True
    with Cons.prems(1) e have "filter (\<lambda>e. lower < fst e) (e # es) = []"
      by (auto simp: filter_empty_conv)
    with True e Cons.prems(4) show ?thesis by simp
  next
    case False
    have chk: "i64_chk (acc + x) = Some (acc + x)"
      using x Cons.prems(3,4) by (simp add: fold_defs money_defs)
    show ?thesis
    proof (cases "acc + x \<ge> MAX_MONEY")
      case True
      with False e chk S show ?thesis by (simp add: min_def)
    next
      case small: False
      have "window_loop lower (acc + x) es = Some (min MAX_MONEY (acc + x + ?S))"
        by (rule Cons.IH) (use Cons.prems small x in \<open>auto simp: money_defs\<close>)
      with False e chk small show ?thesis by (simp add: add.assoc)
    qed
  qed
qed

lemma takeWhile_le_filter:
  "smap_invar m \<Longrightarrow> takeWhile (\<lambda>e. fst e \<le> t) m = filter (\<lambda>e. fst e \<le> t) m"
proof (induction m)
  case Nil
  then show ?case by simp
next
  case (Cons e m)
  show ?case
  proof (cases "fst e \<le> t")
    case True
    with Cons show ?thesis by (simp add: smap_invar_def)
  next
    case False
    with Cons.prems have "filter (\<lambda>e. fst e \<le> t) m = []"
      by (force simp: smap_invar_def filter_empty_conv)
    with False show ?thesis by simp
  qed
qed

lemma WindowTotal_exact:
  assumes inv: "velocity_inv v"
  shows "WindowTotal v tip w =
    Some (min MAX_MONEY (egress_between (tip - uint w) tip (m_egress v)))"
proof -
  let ?m = "m_egress v"
  let ?lo = "tip - uint w"
  let ?lower = "if ?lo < int32_min then int32_min else ?lo"
  let ?es = "rev (filter (\<lambda>e. fst e \<le> tip) ?m)"
  from inv have m: "smap_invar ?m" and r: "\<forall>e \<in> set ?m. 0 \<le> fst e \<and> MoneyRange (snd e)"
    by (auto simp: velocity_inv_def)
  have "sorted_wrt (<) (map fst (filter (\<lambda>e. fst e \<le> tip) ?m))"
    using smap_invar_filter[OF m] by (simp add: smap_invar_def)
  then have srt: "sorted_wrt (>) (map fst ?es)"
    by (simp add: sorted_wrt_rev flip: rev_map)
  have low: "filter (\<lambda>e. ?lower < fst e) ?es = filter (\<lambda>e. ?lo < fst e) ?es"
    using r by (intro filter_cong) auto
  have "window_loop ?lower 0 ?es =
      Some (min MAX_MONEY (0 + sum_list (map snd (filter (\<lambda>e. ?lower < fst e) ?es))))"
    by (rule window_loop_exact[OF srt]) (use r in \<open>auto simp: money_defs\<close>)
  also have "sum_list (map snd (filter (\<lambda>e. ?lower < fst e) ?es)) = egress_between ?lo tip ?m"
    unfolding low
    by (simp add: egress_between_def conj_commute flip: rev_filter rev_map)
  finally show ?thesis
    by (simp add: WindowTotal_def Let_def takeWhile_le_filter[OF m])
qed

lemma int_split_mult: "q * n + r = p \<Longrightarrow> p * b = q * b * n + r * b" for p :: int
  by (auto simp: algebra_simps)

lemma WindowCap_exact:
  assumes "MoneyRange pool" and "uint bps \<le> 10000"
  shows "WindowCap pool bps min_cap = Some (max (pool * uint bps div 10000) (max 0 min_cap))"
proof (cases "pool \<le> 0 \<or> bps = 0")
  case True
  with assms(1) have "pool * uint bps div 10000 = 0" by (auto simp: money_defs)
  with True show ?thesis by (simp add: WindowCap_def)
next
  case False
  let ?b = "uint bps"
  have b0: "0 \<le> ?b" by simp
  have p: "0 < pool" "pool \<le> MAX_MONEY" using False assms(1) by (auto simp: money_defs)
  let ?q = "pool div 10000" and ?r = "pool mod 10000"
  have q: "0 \<le> ?q" "?q \<le> 210000000000" using p by (auto simp: money_defs)
  have r: "0 \<le> ?r" "?r < 10000" by auto
  have qb: "0 \<le> ?q * ?b" "?q * ?b \<le> 210000000000 * 10000"
    using q b0 assms(2) by (simp, intro mult_mono) auto
  have rb: "0 \<le> ?r * ?b" "?r * ?b \<le> 10000 * 10000"
    using r b0 assms(2) by (simp, intro mult_mono) auto
  have split: "pool * ?b = ?q * ?b * 10000 + ?r * ?b"
    by (rule int_split_mult) (rule div_mult_mod_eq)
  then have cap: "?q * ?b + ?r * ?b div 10000 = pool * ?b div 10000" by simp
  have le: "pool * ?b div 10000 \<le> MAX_MONEY"
  proof -
    have "pool * ?b \<le> MAX_MONEY * 10000" using p b0 assms(2) by (intro mult_mono) auto
    then have "pool * ?b div 10000 \<le> MAX_MONEY * 10000 div 10000" by (rule zdiv_mono1) simp
    then show ?thesis by simp
  qed
  have nn: "0 \<le> pool * ?b div 10000" using p b0 by (simp add: pos_imp_zdiv_nonneg_iff)
  have w: "i64_chk (?q * ?b) = Some (?q * ?b)" using qb by (intro i64_chk_Some) (unfold fold_defs, linarith)
  have f: "i64_chk (?r * ?b) = Some (?r * ?b)" using rb by (intro i64_chk_Some) (unfold fold_defs, linarith)
  have c: "i64_chk (pool * ?b div 10000) = Some (pool * ?b div 10000)"
    using le nn by (simp add: fold_defs money_defs)
  have s: "pool sdiv 10000 = ?q" "pool smod 10000 = ?r" "?r * ?b sdiv 10000 = ?r * ?b div 10000"
    using p(1) rb(1) by (simp_all only: sdiv_nonneg smod_nonneg)
  have "\<not> (pool * ?b div 10000 < 0 \<or> MAX_MONEY < pool * ?b div 10000)" using le nn by linarith
  then show ?thesis
    using False
    by (simp only: WindowCap_def Let_def s w f c cap bind.bind_lunit if_False simp_thms)
qed

text \<open>The log after connecting a block keeps the invariant.\<close>

lemma velocity_inv_Record:
  "velocity_inv v \<Longrightarrow> 0 \<le> h \<Longrightarrow> x \<le> MAX_MONEY \<Longrightarrow> velocity_inv (RecordBlock v h x)"
  by (auto simp: velocity_inv_def RecordBlock_def smap.invar_upd smap.set_entries_upd money_defs)

lemma velocity_inv_Undo: "velocity_inv v \<Longrightarrow> velocity_inv (UndoBlock v h)"
  by (auto simp: velocity_inv_def UndoBlock_def smap.invar_del smap.set_entries_del)

lemma velocity_inv_Prune: "velocity_inv v \<Longrightarrow> velocity_inv (Prune v h)"
  by (auto simp: velocity_inv_def Prune_def smap.invar_del_below smap.set_entries_del_below)

text \<open>Recording, pruning and undoing a fresh height gives the pruned log.\<close>

lemma Undo_Prune_Record:
  assumes inv: "velocity_inv v" and fresh: "map_of (m_egress v) h = None" and k: "k \<le> h"
  shows "UndoBlock (Prune (RecordBlock v h x) k) h = Prune v k"
proof -
  let ?m = "m_egress v" and ?x = "if x > 0 then x else 0"
  from inv have m: "smap_invar ?m" by (simp add: velocity_inv_def)
  note i = m smap.invar_upd smap.invar_del smap.invar_del_below
  have "smap_del h (smap_del_below k (smap_upd h ?x ?m)) = smap_del_below k ?m"
  proof (rule smap.entries_eqI)
    show "map_of (smap_del h (smap_del_below k (smap_upd h ?x ?m))) =
        map_of (smap_del_below k ?m)"
      using fresh k
      by (intro ext) (simp add: i smap.lookup_del smap.lookup_del_below smap.lookup_upd)
  qed (simp_all add: i)
  then show ?thesis by (simp add: UndoBlock_def Prune_def RecordBlock_def)
qed

lemma egress_between_Prune:
  assumes "velocity_inv v" and "k \<le> lo + 1"
  shows "egress_between lo hi (m_egress (Prune v k)) = egress_between lo hi (m_egress v)"
proof -
  from assms(1) have "smap_invar (m_egress v)" by (simp add: velocity_inv_def)
  then have "m_egress (Prune v k) = filter (\<lambda>e. k \<le> fst e) (m_egress v)"
    by (simp add: Prune_def smap_del_below_filter)
  moreover have "filter (\<lambda>e. lo < fst e \<and> fst e \<le> hi) (filter (\<lambda>e. k \<le> fst e) (m_egress v)) =
      filter (\<lambda>e. lo < fst e \<and> fst e \<le> hi) (m_egress v)"
    using assms(2) by (auto simp: filter_filter intro!: filter_cong)
  ultimately show ?thesis by (simp add: egress_between_def)
qed

lemma sum_filter_smap_upd:
  "map_of m h = None \<Longrightarrow>
   sum_list (map snd (filter P (smap_upd h (x::int) m))) =
     (if P (h, x) then x else 0) + sum_list (map snd (filter P m))"
  by (induction h x m rule: smap_upd.induct) (auto split: if_splits)

lemma egress_between_Record:
  assumes "map_of (m_egress v) h = None" and "lo < h" and "h \<le> hi" and "0 \<le> x"
  shows "egress_between lo hi (m_egress (RecordBlock v h x)) =
    x + egress_between lo hi (m_egress v)"
  using assms by (cases "x = 0") (simp_all add: egress_between_def RecordBlock_def sum_filter_smap_upd)

section \<open>Properties\<close>

text \<open>C1: the turnstile invariant. Whatever sequence of \<open>ApplyValueBalance\<close>,
  \<open>UndoValueBalance\<close> and \<open>SetBalance\<close> calls a fresh pool went through, its balance is in
  \<open>[0, MAX_MONEY]\<close>; in such a state a value balance is applied exactly when it is a signed
  money amount and the resulting balance is in range, and undoing an applied value balance
  gives the state back.\<close>

theorem turnstile_invariant:
  assumes "pool_reach p"
  shows "0 \<le> m_balance p \<and> m_balance p \<le> MAX_MONEY \<and>
    (ApplyValueBalance p v \<noteq> None \<longleftrightarrow>
       MoneyRangeSigned v \<and> 0 \<le> m_balance p - v \<and> m_balance p - v \<le> MAX_MONEY) \<and>
    Option.bind (ApplyValueBalance p v) (\<lambda>q. UndoValueBalance q v) =
      (if ApplyValueBalance p v = None then None else Some p)"
proof -
  from assms have m: "MoneyRange (m_balance p)" by (rule pool_reach_MoneyRange)
  show ?thesis
  proof (cases "ApplyValueBalance p v")
    case None
    with m Apply_Some_iff[OF m, of v "p\<lparr>m_balance := m_balance p - v\<rparr>"] show ?thesis
      by (auto simp: MoneyRange_def)
  next
    case (Some q)
    with m Apply_Some_iff[OF m, of v q] Undo_Apply[OF m Some] show ?thesis
      by (auto simp: MoneyRange_def)
  qed
qed

theorem turnstile_invariant_witness:
  "pool_reach \<lparr>m_balance = 700\<rparr> \<and> 0 \<le> m_balance \<lparr>m_balance = 700\<rparr> \<and>
   ApplyValueBalance \<lparr>m_balance = 700\<rparr> 300 = Some \<lparr>m_balance = 400\<rparr>"
proof -
  have a: "ApplyValueBalance \<lparr>m_balance = 0\<rparr> (- 700) = Some \<lparr>m_balance = 700\<rparr>"
    by (simp add: ApplyValueBalance_def CheckedAdd_def AdditionOverflow_def money_defs)
  have r: "pool_reach \<lparr>m_balance = 700\<rparr>"
    by (rule pool_reach.apply_vb[OF pool_reach.fresh a])
  show ?thesis
    using r turnstile_invariant[OF r, of 300]
    by (simp add: ApplyValueBalance_def CheckedAdd_def AdditionOverflow_def money_defs)
qed

text \<open>C2: supply conservation and rollback of a block. When \<open>ConnectBlock\<close> accepts the value
  balances of a block, the pool falls by exactly their sum; undoing them in reverse order
  always restores the pool, and the order \<open>DisconnectBlock\<close> uses (that of \<open>block.vtx\<close>)
  restores it when every value balance of the block is an unshield, as it is on the
  exit-only chain.\<close>

theorem connect_then_disconnect_pool:
  assumes "pool_reach p" and "connect_pool p (map Inr vs) = Inr p'"
  shows "m_balance p' = m_balance p - sum_list vs \<and>
    disconnect_pool p' (rev (map Inr vs)) = Some p \<and>
    ((\<forall>v \<in> set vs. 0 \<le> v) \<longrightarrow> disconnect_pool p' (map Inr vs) = Some p)"
proof -
  from assms(1) have m: "MoneyRange (m_balance p)" by (rule pool_reach_MoneyRange)
  show ?thesis
    using connect_pool_Inr[OF m assms(2)] disconnect_pool_rev[OF m assms(2)]
      disconnect_pool_forward[OF m assms(2)] by blast
qed

theorem connect_then_disconnect_pool_witness:
  "disconnect_pool \<lparr>m_balance = 100\<rparr> (map Inr [200, 400]) = Some \<lparr>m_balance = 700\<rparr>"
proof -
  have a: "SetBalance \<lparr>m_balance = 0\<rparr> 700 = Some \<lparr>m_balance = 700\<rparr>"
    by (simp add: SetBalance_def money_defs)
  have r: "pool_reach \<lparr>m_balance = 700\<rparr>"
    by (rule pool_reach.set_bal[OF pool_reach.fresh a])
  have c: "connect_pool \<lparr>m_balance = 700\<rparr> (map Inr [200, 400]) = Inr \<lparr>m_balance = 100\<rparr>"
    by (simp add: ApplyValueBalance_def CheckedAdd_def AdditionOverflow_def money_defs)
  show ?thesis using connect_then_disconnect_pool[OF r c] by simp
qed

text \<open>C3: rollback in the order \<open>DisconnectBlock\<close> uses. \<open>DisconnectBlock\<close> undoes the value
  balances in the order of \<open>block.vtx\<close>, not in reverse, and so goes through other balances
  than \<open>ConnectBlock\<close> did; it nevertheless restores the pool of a connected block, whatever
  mix of shields and unshields the block has, provided its unshields together do not exceed
  the balance before the block (spends are checked against the note tree before the
  block) and that balance plus all shields of the block is a money amount.\<close>

theorem disconnect_in_block_order_restores:
  assumes "pool_reach p" and "connect_pool p (map Inr vs) = Inr p'"
    and "sum_list (map (max 0) vs) \<le> m_balance p"
    and "m_balance p + sum_list (map (\<lambda>v. max 0 (- v)) vs) \<le> MAX_MONEY"
  shows "disconnect_pool p' (map Inr vs) = Some p"
proof -
  from assms(1) have m: "MoneyRange (m_balance p)" by (rule pool_reach_MoneyRange)
  have e: "MoneyRange (m_balance p')" "m_balance p' + sum_list vs = m_balance p"
    using connect_pool_Inr[OF m assms(2)] by auto
  have "disconnect_pool p' (map Inr vs) = Some (p'\<lparr>m_balance := m_balance p\<rparr>)"
    by (rule disconnect_pool_mixed[OF e(1) m e(2) assms(3,4)])
  with e show ?thesis using connect_pool_Inr[OF m assms(2)] by simp
qed

theorem disconnect_in_block_order_restores_witness:
  "disconnect_pool \<lparr>m_balance = 650\<rparr> (map Inr [- 50, 300, - 200]) = Some \<lparr>m_balance = 700\<rparr>"
proof -
  have a: "SetBalance \<lparr>m_balance = 0\<rparr> 700 = Some \<lparr>m_balance = 700\<rparr>"
    by (simp add: SetBalance_def money_defs)
  have r: "pool_reach \<lparr>m_balance = 700\<rparr>"
    by (rule pool_reach.set_bal[OF pool_reach.fresh a])
  have c: "connect_pool \<lparr>m_balance = 700\<rparr> (map Inr [- 50, 300, - 200]) = Inr \<lparr>m_balance = 650\<rparr>"
    by (simp add: ApplyValueBalance_def CheckedAdd_def AdditionOverflow_def money_defs)
  show ?thesis using disconnect_in_block_order_restores[OF r c] by (simp add: money_defs)
qed

text \<open>C4: the window check. Once block \<open>h\<close> has been recorded with net egress \<open>net\<close>,
  \<open>WithinCap\<close> at \<open>h\<close> never leaves the 64-bit range for a cap of at most 100%, and it
  accepts exactly when the positive part of \<open>net\<close> plus the egress logged for the heights in
  \<open>(h - window, h]\<close>, saturated at \<open>MAX_MONEY\<close>, is at most \<open>cap_bps/10000\<close> of the pool
  balance it is given (rounded down) or the minimum cap, whichever is larger. Recording
  keeps the log's invariant.\<close>

theorem within_cap_exact:
  assumes inv: "velocity_inv v" and fresh: "map_of (m_egress v) h = None"
    and h: "0 \<le> h" and net: "net \<le> MAX_MONEY" and pool: "MoneyRange pool_balance"
    and bps: "uint cap_bps \<le> 10000" and w: "0 < uint window"
  shows "velocity_inv (RecordBlock v h net) \<and>
    WithinCap (RecordBlock v h net) h pool_balance cap_bps window min_cap =
      Some (min MAX_MONEY (max 0 net + egress_between (h - uint window) h (m_egress v))
        \<le> max (pool_balance * uint cap_bps div 10000) (max 0 min_cap))"
proof -
  have inv': "velocity_inv (RecordBlock v h net)" by (rule velocity_inv_Record[OF inv h net])
  have clamp: "RecordBlock v h net = RecordBlock v h (max 0 net)"
    by (auto simp: RecordBlock_def max_def)
  have "egress_between (h - uint window) h (m_egress (RecordBlock v h net)) =
      max 0 net + egress_between (h - uint window) h (m_egress v)"
    unfolding clamp by (rule egress_between_Record[OF fresh]) (use w in auto)
  with inv' show ?thesis
    by (simp add: WithinCap_def WindowTotal_exact[OF inv'] WindowCap_exact[OF pool bps])
qed

theorem within_cap_exact_witness:
  "WithinCap (RecordBlock \<lparr>m_egress = [(80, 900000), (95, 100000)]\<rparr> 100 400000) 100 1000000
     5000 10 0 = Some True \<and>
   WithinCap (RecordBlock \<lparr>m_egress = [(80, 900000), (95, 100000)]\<rparr> 100 400001) 100 1000000
     5000 10 0 = Some False"
  using within_cap_exact[of "\<lparr>m_egress = [(80, 900000), (95, 100000)]\<rparr>" 100 400000
      1000000 5000 10 0]
    within_cap_exact[of "\<lparr>m_egress = [(80, 900000), (95, 100000)]\<rparr>" 100 400001
      1000000 5000 10 0]
  by (simp add: velocity_inv_def smap_invar_def money_defs egress_between_def)

text \<open>C5: the velocity log survives a reorganisation. Disconnecting a block whose velocity
  step had been accepted gives a log with the same window total at every tip from
  \<open>h - window - 1\<close> on, so pruning at connection time is invisible to the check on any
  branch that forks within one window.\<close>

theorem disconnect_velocity_restores_window:
  assumes inv: "velocity_inv v" and fresh: "map_of (m_egress v) h = None"
    and act: "IsShieldedUnshieldVelocityCapActive c h" and h: "0 \<le> h"
    and pools: "MoneyRange (m_balance pool)" "MoneyRange (m_balance pool')"
    and w: "uint (nShieldedUnshieldVelocityWindowBlocks c) < 2 ^ 29"
    and acc: "connect_velocity c h pool pool' v = Some (Inr v')"
    and tip: "h - uint (nShieldedUnshieldVelocityWindowBlocks c) - 1 \<le> tip"
  shows "WindowTotal (disconnect_velocity c h v') tip (nShieldedUnshieldVelocityWindowBlocks c) =
    WindowTotal v tip (nShieldedUnshieldVelocityWindowBlocks c)"
proof -
  let ?w = "nShieldedUnshieldVelocityWindowBlocks c"
  let ?net = "if m_balance pool > m_balance pool' then m_balance pool - m_balance pool' else 0"
  let ?k = "h - 2 * uint ?w"
  have sw: "sint ?w = uint ?w"
    using w by (simp add: sint_u32_small)
  from acc act have v': "v' = Prune (RecordBlock v h ?net) ?k"
    by (auto simp: connect_velocity_def Let_def i32_chk_def sw bind_eq_Some_conv split: if_splits)
  have "disconnect_velocity c h v' = Prune v ?k"
    unfolding v' disconnect_velocity_def using act Undo_Prune_Record[OF inv fresh] by simp
  moreover have "egress_between (tip - uint ?w) tip (m_egress (Prune v ?k)) =
      egress_between (tip - uint ?w) tip (m_egress v)"
    by (rule egress_between_Prune[OF inv]) (use tip in simp)
  ultimately show ?thesis
    by (simp add: WindowTotal_exact inv velocity_inv_Prune)
qed

theorem disconnect_velocity_restores_window_witness:
  "WindowTotal (disconnect_velocity
       \<lparr>nShieldedUnshieldVelocityActivationHeight = 50,
       nShieldedUnshieldVelocityWindowBlocks = 10, nShieldedUnshieldVelocityCapBps = 5000,
       nShieldedUnshieldVelocityEndHeight = 1000, nShieldedUnshieldVelocityMinCapHeight = 900,
       nShieldedUnshieldVelocityMinCap = 0\<rparr>
       100 \<lparr>m_egress = [(80, 900000), (95, 100000), (100, 400000)]\<rparr>) 102 10 =
     WindowTotal \<lparr>m_egress = [(80, 900000), (95, 100000)]\<rparr> 102 10"
  using disconnect_velocity_restores_window[of "\<lparr>m_egress = [(80, 900000), (95, 100000)]\<rparr>" 100
      "\<lparr>nShieldedUnshieldVelocityActivationHeight = 50,
        nShieldedUnshieldVelocityWindowBlocks = 10, nShieldedUnshieldVelocityCapBps = 5000,
        nShieldedUnshieldVelocityEndHeight = 1000, nShieldedUnshieldVelocityMinCapHeight = 900,
        nShieldedUnshieldVelocityMinCap = 0\<rparr>"
      "\<lparr>m_balance = 1000000\<rparr>" "\<lparr>m_balance = 600000\<rparr>"
      "\<lparr>m_egress = [(80, 900000), (95, 100000), (100, 400000)]\<rparr>" 102]
  by (simp add: velocity_inv_def smap_invar_def money_defs connect_velocity_def WithinCap_def
      WindowTotal_def WindowCap_def RecordBlock_def Prune_def smap_del_below_def
      IsShieldedUnshieldVelocityCapActive_def ShieldedUnshieldVelocityMinCapForHeight_def
      fold_defs i64_chk_def i32_chk_def sint_u32_small)

end
