(* ===== verification/Bytes.thy ===== *)
theory Bytes
  imports Prelude
begin

text \<open>
  Byte buffers and the endian readers and writers of \<open>crypto/common.h\<close>. A buffer is a list of
  bytes; a reader takes the buffer from the pointer on. The host is little endian (the MatMul
  code asserts it statically), so the little-endian conversions are plain copies and the
  big-endian ones reverse the bytes.
\<close>

type_synonym bytes = "u8 list"

section \<open>Readers and writers\<close>

text \<open>The value of the first bytes of a buffer, least significant byte first, and the bytes of
  a value in that order.\<close>

fun le_value :: "bytes \<Rightarrow> nat" where
  "le_value [] = 0"
| "le_value (b # bs) = unat b + 256 * le_value bs"

fun le_bytes :: "nat \<Rightarrow> nat \<Rightarrow> bytes" where
  "le_bytes 0 x = []"
| "le_bytes (Suc n) x = of_nat x # le_bytes n (x div 256)"

definition ReadLE16 :: "bytes \<Rightarrow> u16" where
  "ReadLE16 ptr = of_nat (le_value (take 2 ptr))"

definition ReadLE32 :: "bytes \<Rightarrow> u32" where
  "ReadLE32 ptr = of_nat (le_value (take 4 ptr))"

definition ReadLE64 :: "bytes \<Rightarrow> u64" where
  "ReadLE64 ptr = of_nat (le_value (take 8 ptr))"

definition ReadBE32 :: "bytes \<Rightarrow> u32" where
  "ReadBE32 ptr = of_nat (le_value (rev (take 4 ptr)))"

definition ReadBE64 :: "bytes \<Rightarrow> u64" where
  "ReadBE64 ptr = of_nat (le_value (rev (take 8 ptr)))"

definition WriteLE16 :: "u16 \<Rightarrow> bytes" where
  "WriteLE16 x = le_bytes 2 (unat x)"

definition WriteLE32 :: "u32 \<Rightarrow> bytes" where
  "WriteLE32 x = le_bytes 4 (unat x)"

definition WriteLE64 :: "u64 \<Rightarrow> bytes" where
  "WriteLE64 x = le_bytes 8 (unat x)"

definition WriteBE32 :: "u32 \<Rightarrow> bytes" where
  "WriteBE32 x = rev (le_bytes 4 (unat x))"

definition WriteBE64 :: "u64 \<Rightarrow> bytes" where
  "WriteBE64 x = rev (le_bytes 8 (unat x))"

lemmas byte_io_defs =
  ReadLE16_def ReadLE32_def ReadLE64_def ReadBE32_def ReadBE64_def
  WriteLE16_def WriteLE32_def WriteLE64_def WriteBE32_def WriteBE64_def

section \<open>Round trips\<close>

lemma length_le_bytes [simp]: "length (le_bytes n x) = n"
  by (induction n arbitrary: x) auto

lemma le_value_append: "le_value (xs @ ys) = le_value xs + 256 ^ length xs * le_value ys"
  by (induction xs) (auto simp: algebra_simps)

lemma le_value_bound: "le_value bs < 256 ^ length bs"
proof (induction bs)
  case (Cons b bs)
  have b: "unat b < 256" using unat_lt[of b] by simp
  from Cons have "256 * Suc (le_value bs) \<le> 256 * 256 ^ length bs" by (intro mult_le_mono) auto
  with b show ?case by simp
qed simp

lemma le_value_le_bytes: "le_value (le_bytes n x) = x mod 256 ^ n"
proof (induction n arbitrary: x)
  case (Suc n)
  have "unat (of_nat x :: u8) = x mod 256" by (simp add: unat_of_nat)
  with Suc show ?case by (simp add: mod_mult2_eq)
qed simp

lemma le_bytes_le_value: "n = length bs \<Longrightarrow> le_bytes n (le_value bs) = bs"
proof (induction bs arbitrary: n)
  case (Cons b bs)
  have b: "unat b < 256" using unat_lt[of b] by simp
  then have "(unat b + 256 * le_value bs) div 256 = le_value bs" by simp
  moreover have "(of_nat (unat b + 256 * le_value bs) :: u8) = b"
    by (rule word_unat_eq_iff[THEN iffD2]) (use b in \<open>simp add: unat_of_nat del: of_nat_add\<close>)
  ultimately show ?case using Cons by simp
qed simp

lemma length_Write [simp]:
  "length (WriteLE16 x) = 2" "length (WriteLE32 y) = 4" "length (WriteLE64 z) = 8"
  "length (WriteBE32 y) = 4" "length (WriteBE64 z) = 8"
  by (simp_all add: byte_io_defs)

lemma Read_Write:
  "ReadLE16 (WriteLE16 x @ r) = x" "ReadLE32 (WriteLE32 y @ r) = y"
  "ReadLE64 (WriteLE64 z @ r) = z" "ReadBE32 (WriteBE32 y @ r) = y"
  "ReadBE64 (WriteBE64 z @ r) = z"
  using unat_lt[of x] unat_lt[of y] unat_lt[of z]
  by (simp_all add: byte_io_defs le_value_le_bytes)

lemma Write_Read:
  "length p = 4 \<Longrightarrow> WriteLE32 (ReadLE32 p) = p"
  "length p = 8 \<Longrightarrow> WriteLE64 (ReadLE64 p) = p"
  "length p = 4 \<Longrightarrow> WriteBE32 (ReadBE32 p) = p"
  "length p = 8 \<Longrightarrow> WriteBE64 (ReadBE64 p) = p"
  using le_value_bound[of p] le_value_bound[of "rev p"]
  by (simp_all add: byte_io_defs unat_of_nat le_bytes_le_value)

section \<open>Streaming hashers\<close>

text \<open>
  The contract of the hasher classes: an object represents the bytes written so far, and the
  digest it finally returns is a function of them alone, however they were split into
  \<open>Write\<close> calls.
\<close>

locale stream_hash =
  fixes init :: 's and wr :: "'s \<Rightarrow> bytes \<Rightarrow> 's" and fin :: "'s \<Rightarrow> bytes"
    and rep :: "'s \<Rightarrow> bytes \<Rightarrow> bool" and digest :: "bytes \<Rightarrow> bytes"
  assumes rep_init: "rep init []"
    and rep_write: "rep st m \<Longrightarrow> rep (wr st d) (m @ d)"
    and rep_final: "rep st m \<Longrightarrow> fin st = digest m"
begin

lemma rep_writes: "rep st m \<Longrightarrow> rep (fold (\<lambda>d st. wr st d) ds st) (m @ concat ds)"
proof (induction ds arbitrary: st m)
  case (Cons d ds)
  from Cons.IH[OF rep_write[OF Cons.prems]] show ?case by simp
qed simp

lemma final_writes: "fin (fold (\<lambda>d st. wr st d) ds init) = digest (concat ds)"
  using rep_final[OF rep_writes[OF rep_init]] by simp

lemma final_write1: "fin (wr init a) = digest a"
  using final_writes[of "[a]"] by simp

lemma final_write2: "fin (wr (wr init a) b) = digest (a @ b)"
  using final_writes[of "[a, b]"] by simp

lemma final_write3: "fin (wr (wr (wr init a) b) c) = digest (a @ b @ c)"
  using final_writes[of "[a, b, c]"] by simp

end

end
