(* ===== verification/Sha256.thy ===== *)
theory Sha256
  imports Bytes
begin

text \<open>
  SHA-256 as \<open>crypto/sha256.cpp\<close> computes it: the portable block transform, and the
  streaming class \<open>CSHA256\<close> with its 64-byte buffer. The specification is the FIPS 180-4
  function on a whole message; the main lemma is that any sequence of \<open>Write\<close> calls followed
  by \<open>Finalize\<close> returns the FIPS digest of the concatenation. The vectorised transforms that
  \<open>SHA256AutoDetect\<close> may select replace \<open>Transform\<close> by hand-written intrinsics and are not
  modelled.
\<close>

section \<open>The block transform\<close>

definition Ch :: "u32 \<Rightarrow> u32 \<Rightarrow> u32 \<Rightarrow> u32" where
  "Ch x y z = z XOR (x AND (y XOR z))"

definition Maj :: "u32 \<Rightarrow> u32 \<Rightarrow> u32 \<Rightarrow> u32" where
  "Maj x y z = (x AND y) OR (z AND (x OR y))"

definition Sigma0 :: "u32 \<Rightarrow> u32" where
  "Sigma0 x = (drop_bit 2 x OR push_bit 30 x) XOR (drop_bit 13 x OR push_bit 19 x) XOR
     (drop_bit 22 x OR push_bit 10 x)"

definition Sigma1 :: "u32 \<Rightarrow> u32" where
  "Sigma1 x = (drop_bit 6 x OR push_bit 26 x) XOR (drop_bit 11 x OR push_bit 21 x) XOR
     (drop_bit 25 x OR push_bit 7 x)"

definition sigma0 :: "u32 \<Rightarrow> u32" where
  "sigma0 x = (drop_bit 7 x OR push_bit 25 x) XOR (drop_bit 18 x OR push_bit 14 x) XOR drop_bit 3 x"

definition sigma1 :: "u32 \<Rightarrow> u32" where
  "sigma1 x = (drop_bit 17 x OR push_bit 15 x) XOR (drop_bit 19 x OR push_bit 13 x) XOR drop_bit 10 x"

text \<open>\<open>Round\<close> returns the new values of its two reference parameters \<open>d\<close> and \<open>h\<close>.\<close>

definition Round ::
    "u32 \<Rightarrow> u32 \<Rightarrow> u32 \<Rightarrow> u32 \<Rightarrow> u32 \<Rightarrow> u32 \<Rightarrow> u32 \<Rightarrow> u32 \<Rightarrow> u32 \<Rightarrow> u32 \<times> u32" where
  "Round a b c d e f g h k =
     (let t1 = h + Sigma1 e + Ch e f g + k;
          t2 = Sigma0 a + Maj a b c
      in (d + t1, t1 + t2))"

definition Initialize :: "u32 list" where
  "Initialize = [0x6a09e667, 0xbb67ae85, 0x3c6ef372, 0xa54ff53a,
                 0x510e527f, 0x9b05688c, 0x1f83d9ab, 0x5be0cd19]"

text \<open>The round constants, one row per full rotation of the eight registers.\<close>

definition K256 :: "u32 list" where
  "K256 = concat
    [[0x428a2f98, 0x71374491, 0xb5c0fbcf, 0xe9b5dba5, 0x3956c25b, 0x59f111f1, 0x923f82a4, 0xab1c5ed5],
     [0xd807aa98, 0x12835b01, 0x243185be, 0x550c7dc3, 0x72be5d74, 0x80deb1fe, 0x9bdc06a7, 0xc19bf174],
     [0xe49b69c1, 0xefbe4786, 0x0fc19dc6, 0x240ca1cc, 0x2de92c6f, 0x4a7484aa, 0x5cb0a9dc, 0x76f988da],
     [0x983e5152, 0xa831c66d, 0xb00327c8, 0xbf597fc7, 0xc6e00bf3, 0xd5a79147, 0x06ca6351, 0x14292967],
     [0x27b70a85, 0x2e1b2138, 0x4d2c6dfc, 0x53380d13, 0x650a7354, 0x766a0abb, 0x81c2c92e, 0x92722c85],
     [0xa2bfe8a1, 0xa81a664b, 0xc24b8b70, 0xc76c51a3, 0xd192e819, 0xd6990624, 0xf40e3585, 0x106aa070],
     [0x19a4c116, 0x1e376c08, 0x2748774c, 0x34b0bcb5, 0x391c0cb3, 0x4ed8aa4a, 0x5b9cca4f, 0x682e6ff3],
     [0x748f82ee, 0x78a5636f, 0x84c87814, 0x8cc70208, 0x90befffa, 0xa4506ceb, 0xbef9a3f7, 0xc67178f2]]"

text \<open>
  The unrolled body of \<open>Transform\<close>: round \<open>i\<close> is the \<open>i\<close>-th \<open>Round\<close> call. The eight
  variables \<open>a\<close> to \<open>h\<close> are \<open>v\<close>; their roles rotate by one in each call, so that role \<open>j\<close>
  of round \<open>i\<close> is variable \<open>(j - i) mod 8\<close>. The sixteen message words \<open>w0\<close> to \<open>w15\<close> are
  read from the chunk in the first sixteen rounds and updated in place in the others.
\<close>

definition schedule_step :: "bytes \<Rightarrow> nat \<Rightarrow> u32 list \<Rightarrow> u32 list" where
  "schedule_step chunk i w =
     (if i < 16 then w[i := ReadBE32 (drop (4 * i) chunk)]
      else w[i mod 16 := w ! (i mod 16) +
               (sigma1 (w ! ((i + 14) mod 16)) + w ! ((i + 9) mod 16) + sigma0 (w ! ((i + 1) mod 16)))])"

definition round_regs :: "nat \<Rightarrow> u32 \<Rightarrow> u32 list \<Rightarrow> u32 list" where
  "round_regs i k v =
     (let r = (\<lambda>j. (j + 64 - i) mod 8);
          (d', h') = Round (v ! r 0) (v ! r 1) (v ! r 2) (v ! r 3) (v ! r 4) (v ! r 5) (v ! r 6)
                       (v ! r 7) k
      in v[r 3 := d', r 7 := h'])"

definition round_step :: "bytes \<Rightarrow> nat \<Rightarrow> u32 list \<times> u32 list \<Rightarrow> u32 list \<times> u32 list" where
  "round_step chunk i = (\<lambda>(v, w).
     let w' = schedule_step chunk i w in (round_regs i (K256 ! i + w' ! (i mod 16)) v, w'))"

definition transform_block :: "u32 list \<Rightarrow> bytes \<Rightarrow> u32 list" where
  "transform_block s chunk =
     (let (v, w) = fold (round_step chunk) [0..<64] (s, replicate 16 0) in map2 (+) s v)"

fun Transform :: "u32 list \<Rightarrow> bytes \<Rightarrow> nat \<Rightarrow> u32 list" where
  "Transform s chunk 0 = s"
| "Transform s chunk (Suc blocks) = Transform (transform_block s chunk) (drop 64 chunk) blocks"

section \<open>The streaming class\<close>

record CSHA256 =
  s256 :: "u32 list"
  buf256 :: bytes
  bytes256 :: u64

text \<open>The buffer of a fresh object is not initialised; it starts with any 64 bytes, here zeros.\<close>

definition CSHA256_init :: CSHA256 where
  "CSHA256_init = \<lparr>s256 = Initialize, buf256 = replicate 64 0, bytes256 = 0\<rparr>"

definition sha_fill :: "CSHA256 \<Rightarrow> nat \<Rightarrow> bytes \<Rightarrow> CSHA256" where
  "sha_fill st bufsize data =
     (let buf' = take bufsize (buf256 st) @ take (64 - bufsize) data
      in st\<lparr>buf256 := buf', bytes256 := bytes256 st + of_nat (64 - bufsize),
            s256 := Transform (s256 st) buf' 1\<rparr>)"

definition sha_blocks :: "CSHA256 \<Rightarrow> bytes \<Rightarrow> nat \<Rightarrow> CSHA256" where
  "sha_blocks st data blocks =
     st\<lparr>s256 := Transform (s256 st) data blocks, bytes256 := bytes256 st + of_nat (64 * blocks)\<rparr>"

definition sha_tail :: "CSHA256 \<Rightarrow> nat \<Rightarrow> bytes \<Rightarrow> CSHA256" where
  "sha_tail st bufsize data =
     st\<lparr>buf256 := take bufsize (buf256 st) @ data @ drop (bufsize + length data) (buf256 st),
        bytes256 := bytes256 st + of_nat (length data)\<rparr>"

definition Write256 :: "CSHA256 \<Rightarrow> bytes \<Rightarrow> CSHA256" where
  "Write256 st0 data0 =
     (let bufsize0 = unat (bytes256 st0 mod 64);
          (st1, data1, bufsize1) =
            (if bufsize0 \<noteq> 0 \<and> bufsize0 + length data0 \<ge> 64
             then (sha_fill st0 bufsize0 data0, drop (64 - bufsize0) data0, 0)
             else (st0, data0, bufsize0));
          blocks = length data1 div 64;
          (st2, data2) =
            (if length data1 \<ge> 64 then (sha_blocks st1 data1 blocks, drop (64 * blocks) data1)
             else (st1, data1))
      in if length data2 > 0 then sha_tail st2 bufsize1 data2 else st2)"

text \<open>\<open>Finalize\<close> writes the padding into the object itself: the digest and the final object.\<close>

definition Finalize256 :: "CSHA256 \<Rightarrow> bytes \<times> CSHA256" where
  "Finalize256 st =
     (let pad = 0x80 # replicate 63 0;
          sizedesc = WriteBE64 (push_bit 3 (bytes256 st));
          st1 = Write256 st (take (1 + unat ((119 - bytes256 st mod 64) mod 64)) pad);
          st2 = Write256 st1 sizedesc
      in (concat (map WriteBE32 (s256 st2)), st2))"

definition Reset256 :: "CSHA256 \<Rightarrow> CSHA256" where
  "Reset256 st = st\<lparr>bytes256 := 0, s256 := Initialize\<rparr>"

section \<open>FIPS 180-4\<close>

text \<open>The standard's functions, with rotations and the message schedule as a recursion over
  the round number.\<close>

definition fips_Ch :: "u32 \<Rightarrow> u32 \<Rightarrow> u32 \<Rightarrow> u32" where
  "fips_Ch x y z = (x AND y) XOR (NOT x AND z)"

definition fips_Maj :: "u32 \<Rightarrow> u32 \<Rightarrow> u32 \<Rightarrow> u32" where
  "fips_Maj x y z = (x AND y) XOR (x AND z) XOR (y AND z)"

definition fips_S0 :: "u32 \<Rightarrow> u32" where
  "fips_S0 x = word_rotr 2 x XOR word_rotr 13 x XOR word_rotr 22 x"

definition fips_S1 :: "u32 \<Rightarrow> u32" where
  "fips_S1 x = word_rotr 6 x XOR word_rotr 11 x XOR word_rotr 25 x"

definition fips_s0 :: "u32 \<Rightarrow> u32" where
  "fips_s0 x = word_rotr 7 x XOR word_rotr 18 x XOR drop_bit 3 x"

definition fips_s1 :: "u32 \<Rightarrow> u32" where
  "fips_s1 x = word_rotr 17 x XOR word_rotr 19 x XOR drop_bit 10 x"

fun fips_W :: "(nat \<Rightarrow> u32) \<Rightarrow> nat \<Rightarrow> u32" where
  "fips_W M t =
     (if t < 16 then M t
      else fips_s1 (fips_W M (t - 2)) + fips_W M (t - 7) + fips_s0 (fips_W M (t - 15)) +
           fips_W M (t - 16))"

declare fips_W.simps [simp del]

definition fips_round :: "(nat \<Rightarrow> u32) \<Rightarrow> nat \<Rightarrow> u32 list \<Rightarrow> u32 list" where
  "fips_round W t r =
     (let t1 = r ! 7 + fips_S1 (r ! 4) + fips_Ch (r ! 4) (r ! 5) (r ! 6) + K256 ! t + W t;
          t2 = fips_S0 (r ! 0) + fips_Maj (r ! 0) (r ! 1) (r ! 2)
      in [t1 + t2, r ! 0, r ! 1, r ! 2, r ! 3 + t1, r ! 4, r ! 5, r ! 6])"

definition fips_block :: "u32 list \<Rightarrow> bytes \<Rightarrow> u32 list" where
  "fips_block s chunk =
     map2 (+) s (fold (fips_round (fips_W (\<lambda>t. ReadBE32 (drop (4 * t) chunk)))) [0..<64] s)"

lemma word_rotr_u32:
  assumes "0 < n" "n < 32"
  shows "word_rotr n (x::u32) = (drop_bit n x OR push_bit (32 - n) x)"
proof (rule bit_word_eqI)
  fix k assume "k < LENGTH(32)"
  then have k: "k < 32" by simp
  show "bit (word_rotr n x) k = bit (drop_bit n x OR push_bit (32 - n) x) k"
  proof (cases "k + n < 32")
    case True
    with k assms show ?thesis
      by (auto simp: bit_word_rotr_iff bit_simps add.commute)
  next
    case False
    then have "(k + n) mod 32 = k + n - 32" using k assms by (simp add: mod_if)
    moreover have "\<not> bit x (n + k)" using False bit_imp_le_length[of x "n + k"] by auto
    ultimately show ?thesis using k assms False
      by (auto simp: bit_word_rotr_iff bit_simps add.commute)
  qed
qed

lemma fips_functions:
  "fips_Ch x y z = Ch x y z" "fips_Maj x y z = Maj x y z"
  "fips_S0 x = Sigma0 x" "fips_S1 x = Sigma1 x" "fips_s0 x = sigma0 x" "fips_s1 x = sigma1 x"
proof -
  show "fips_Ch x y z = Ch x y z" "fips_Maj x y z = Maj x y z"
    unfolding fips_Ch_def Ch_def fips_Maj_def Maj_def
    by (rule bit_word_eqI; auto simp: bit_simps)+
  show "fips_S0 x = Sigma0 x" "fips_S1 x = Sigma1 x" "fips_s0 x = sigma0 x" "fips_s1 x = sigma1 x"
    by (simp_all add: fips_S0_def Sigma0_def fips_S1_def Sigma1_def fips_s0_def sigma0_def
        fips_s1_def sigma1_def word_rotr_u32)
qed

text \<open>The circular buffer holds the last sixteen words of the schedule.\<close>

definition schedule_inv :: "(nat \<Rightarrow> u32) \<Rightarrow> nat \<Rightarrow> u32 list \<Rightarrow> bool" where
  "schedule_inv M i w \<longleftrightarrow> length w = 16 \<and>
     (\<forall>t < i. i \<le> t + 16 \<longrightarrow> w ! (t mod 16) = fips_W M t)"

lemma schedule_inv_nth:
  "schedule_inv M i w \<Longrightarrow> t < i \<Longrightarrow> i \<le> t + 16 \<Longrightarrow> k = t mod 16 \<Longrightarrow> w ! k = fips_W M t"
  by (simp add: schedule_inv_def)

lemma mod16_shift: "16 \<le> i \<Longrightarrow> d \<le> 16 \<Longrightarrow> (i + (16 - d)) mod 16 = (i - d) mod (16::nat)"
proof -
  assume "16 \<le> i" "d \<le> 16"
  then have "i + (16 - d) = i - d + 16" by simp
  then show ?thesis by simp
qed

lemma mod16_inj: "t mod 16 = i mod 16 \<Longrightarrow> t < i \<Longrightarrow> i < t + 16 \<Longrightarrow> False" for t i :: nat
  by (metis add_diff_inverse_nat add_less_cancel_left mod_eq_dvd_iff_nat dvd_imp_le less_imp_le
      linorder_not_less zero_less_diff)

lemma schedule_step_new:
  assumes inv: "schedule_inv (\<lambda>t. ReadBE32 (drop (4 * t) chunk)) i w"
  shows "schedule_step chunk i w ! (i mod 16) = fips_W (\<lambda>t. ReadBE32 (drop (4 * t) chunk)) i"
proof (cases "i < 16")
  case True
  with inv show ?thesis by (simp add: schedule_step_def schedule_inv_def fips_W.simps)
next
  case False
  then have i: "16 \<le> i" by simp
  let ?M = "\<lambda>t. ReadBE32 (drop (4 * t) chunk)"
  have "w ! (i mod 16) = fips_W ?M (i - 16)"
    by (rule schedule_inv_nth[OF inv]) (use i in \<open>auto simp: le_mod_geq\<close>)
  moreover have "w ! ((i + 14) mod 16) = fips_W ?M (i - 2)"
    by (rule schedule_inv_nth[OF inv]) (use i mod16_shift[of i 2] in auto)
  moreover have "w ! ((i + 9) mod 16) = fips_W ?M (i - 7)"
    by (rule schedule_inv_nth[OF inv]) (use i mod16_shift[of i 7] in auto)
  moreover have "w ! ((i + 1) mod 16) = fips_W ?M (i - 15)"
    by (rule schedule_inv_nth[OF inv]) (use i mod16_shift[of i 15] in auto)
  moreover have "length w = 16" using inv by (simp add: schedule_inv_def)
  ultimately show ?thesis
    using False by (subst fips_W.simps) (simp add: schedule_step_def fips_functions algebra_simps)
qed

lemma schedule_step_inv:
  assumes inv: "schedule_inv (\<lambda>t. ReadBE32 (drop (4 * t) chunk)) i w"
  shows "schedule_inv (\<lambda>t. ReadBE32 (drop (4 * t) chunk)) (Suc i) (schedule_step chunk i w)"
  unfolding schedule_inv_def
proof (intro conjI allI impI)
  show "length (schedule_step chunk i w) = 16"
    using inv by (simp add: schedule_step_def schedule_inv_def)
  fix t assume t: "t < Suc i" "Suc i \<le> t + 16"
  show "schedule_step chunk i w ! (t mod 16) = fips_W (\<lambda>t. ReadBE32 (drop (4 * t) chunk)) t"
  proof (cases "t = i")
    case True
    then show ?thesis using schedule_step_new[OF inv] by simp
  next
    case False
    then have "t < i" using t by simp
    moreover have "t mod 16 \<noteq> i mod 16" using mod16_inj[of t i] \<open>t < i\<close> t(2) by auto
    ultimately show ?thesis
      using schedule_inv_nth[OF inv \<open>t < i\<close>, of "t mod 16"] t(2)
      by (auto simp: schedule_step_def)
  qed
qed

text \<open>The rotating roles: the registers of the standard are the eight variables read from
  position \<open>- i\<close> on.\<close>

definition roles :: "nat \<Rightarrow> u32 list \<Rightarrow> u32 list" where
  "roles i v = map (\<lambda>j. v ! ((j + 64 - i) mod 8)) [0..<8]"

lemma length8E:
  assumes "length v = 8"
  obtains a b c d e f g h where "v = [a, b, c, d, e, f, g, h]"
  using assms by (auto simp: length_Suc_conv numeral_eq_Suc)

lemma upt8: "[0..<8] = [0, 1, 2, 3, 4, 5, 6, 7]"
  by (simp add: upt_rec)

lemma mod8_sub: "i \<le> 64 \<Longrightarrow> (j + 64 - i) mod 8 = (j + 8 - i mod 8) mod (8::nat)"
proof (cases "i = 64")
  case False
  assume "i \<le> 64"
  with False have "j + 64 - i = (j + 8 - i mod 8) + (7 - i div 8) * 8"
    using div_mult_mod_eq[of i 8] by linarith
  then show ?thesis by (simp only: mod_mult_self1)
qed simp

lemma round_regs_fips:
  assumes v: "length v = 8" and i: "i < 64"
  shows "roles (Suc i) (round_regs i (K256 ! i + W i) v) = fips_round W i (roles i v)"
proof -
  obtain a b c d e f g h where vs: "v = [a, b, c, d, e, f, g, h]"
    using v by (rule length8E)
  have m: "(j + 64 - i) mod 8 = (j + 8 - i mod 8) mod 8"
       "(j + 64 - Suc i) mod 8 = (j + 8 - Suc i mod 8) mod 8" for j
    using i mod8_sub[of i j] mod8_sub[of "Suc i" j] by simp_all
  have "i mod 8 \<in> {0, 1, 2, 3, 4, 5, 6, 7}" by auto
  then consider "i mod 8 = 0" | "i mod 8 = 1" | "i mod 8 = 2" | "i mod 8 = 3" | "i mod 8 = 4" |
    "i mod 8 = 5" | "i mod 8 = 6" | "i mod 8 = 7" by auto
  then show ?thesis
    unfolding round_regs_def roles_def upt8 m vs Round_def fips_round_def fips_functions
    by cases (simp_all add: mod_Suc Let_def add.assoc)
qed

lemma length_round_regs [simp]: "length (round_regs i k v) = length v"
  by (simp add: round_regs_def Let_def split: prod.split)

lemma roles_0: "length v = 8 \<Longrightarrow> roles 0 v = v" and roles_64: "length v = 8 \<Longrightarrow> roles 64 v = v"
  by (auto elim!: length8E simp: roles_def upt8)

text \<open>Any code that feeds the keys \<open>K256 ! i + W i\<close> to the rotating rounds computes the rounds of
  the standard.\<close>

lemma rounds_regs_fips:
  assumes "length v = 8" and "n \<le> 64"
  shows "roles n (fold (\<lambda>i. round_regs i (K256 ! i + W i)) [0..<n] v) =
    fold (fips_round W) [0..<n] v"
  using assms(2)
proof (induction n)
  case 0
  then show ?case using assms(1) by (simp add: roles_0)
next
  case (Suc n)
  have "length (fold (\<lambda>i. round_regs i (K256 ! i + W i)) is v) = 8" for "is"
    using assms(1) by (induction "is" arbitrary: v) auto
  with Suc show ?case by (simp add: round_regs_fips)
qed

lemma rounds64_fips:
  assumes "length v = 8"
  shows "fold (\<lambda>i. round_regs i (K256 ! i + W i)) [0..<64] v = fold (fips_round W) [0..<64] v"
proof -
  have "length (fold (\<lambda>i. round_regs i (K256 ! i + W i)) is v) = 8" for "is"
    using assms by (induction "is" arbitrary: v) auto
  with rounds_regs_fips[OF assms, of 64 W] show ?thesis by (simp only: roles_64 order_refl)
qed

lemma rounds_keys:
  "fold (round_step chunk) [0..<n] (s, replicate 16 0) = (v, w) \<Longrightarrow>
   schedule_inv (\<lambda>t. ReadBE32 (drop (4 * t) chunk)) n w \<and>
   v = fold (\<lambda>i. round_regs i (K256 ! i + fips_W (\<lambda>t. ReadBE32 (drop (4 * t) chunk)) i)) [0..<n] s"
proof (induction n arbitrary: v w)
  case 0
  then show ?case by (auto simp: schedule_inv_def)
next
  case (Suc n)
  obtain v1 w1 where 1: "fold (round_step chunk) [0..<n] (s, replicate 16 0) = (v1, w1)" by fastforce
  from Suc.prems 1 have "round_step chunk n (v1, w1) = (v, w)" by simp
  then have vw: "w = schedule_step chunk n w1"
    "v = round_regs n (K256 ! n + schedule_step chunk n w1 ! (n mod 16)) v1"
    by (auto simp: round_step_def Let_def)
  from Suc.IH[OF 1] show ?case
    by (auto simp: vw schedule_step_inv schedule_step_new)
qed

lemma transform_block_fips:
  assumes "length s = 8"
  shows "transform_block s chunk = fips_block s chunk"
proof -
  obtain v w where vw: "fold (round_step chunk) [0..<64] (s, replicate 16 0) = (v, w)" by fastforce
  from rounds_keys[OF vw] show ?thesis
    by (simp add: transform_block_def fips_block_def vw rounds64_fips[OF assms])
qed

lemma length_fips_round [simp]: "length (fips_round W t r) = 8"
  by (simp add: fips_round_def Let_def)

lemma length_fold_fips_round [simp]:
  "length s = 8 \<Longrightarrow> length (fold (fips_round W) is s) = 8"
  by (induction "is" arbitrary: s) auto

lemma length_fips_block [simp]: "length s = 8 \<Longrightarrow> length (fips_block s chunk) = 8"
  by (simp add: fips_block_def)

lemma length_transform_block [simp]:
  "length s = 8 \<Longrightarrow> length (transform_block s chunk) = 8"
  by (simp add: transform_block_fips)

lemma length_Transform [simp]: "length s = 8 \<Longrightarrow> length (Transform s chunk n) = 8"
  by (induction n arbitrary: s chunk) auto

section \<open>Streaming computes the digest of the whole message\<close>

definition sha256_pad :: "bytes \<Rightarrow> bytes" where
  "sha256_pad m =
     m @ 0x80 # replicate (nat ((55 - int (length m)) mod 64)) 0 @
     WriteBE64 (of_nat (8 * length m))"

text \<open>The FIPS digest of a message: the standard's block function over the padded message.\<close>

fun fips_blocks :: "u32 list \<Rightarrow> bytes \<Rightarrow> nat \<Rightarrow> u32 list" where
  "fips_blocks s m 0 = s"
| "fips_blocks s m (Suc n) = fips_blocks (fips_block s m) (drop 64 m) n"

definition SHA256 :: "bytes \<Rightarrow> bytes" where
  "SHA256 m = concat (map WriteBE32
     (fips_blocks Initialize (sha256_pad m) (length (sha256_pad m) div 64)))"

lemma length_Initialize [simp]: "length Initialize = 8"
  by (simp add: Initialize_def)

lemma Transform_fips: "length s = 8 \<Longrightarrow> Transform s m n = fips_blocks s m n"
proof (induction n arbitrary: s m)
  case (Suc n)
  then show ?case by (simp add: transform_block_fips)
qed simp

text \<open>A block transform reads its 64 bytes only.\<close>

lemma ReadBE32_take: "k + 4 \<le> n \<Longrightarrow> ReadBE32 (drop k (take n c)) = ReadBE32 (drop k c)"
  by (simp add: ReadBE32_def drop_take min_def)

lemma transform_block_take: "transform_block s (take 64 c) = transform_block s c"
proof -
  have "round_step (take 64 c) i = round_step c i" for i
    by (rule ext) (simp add: round_step_def schedule_step_def ReadBE32_take split: prod.split)
  then have "round_step (take 64 c) = round_step c" by (rule ext)
  then show ?thesis by (simp add: transform_block_def)
qed

lemma Transform_append:
  assumes "64 * n \<le> length x"
  shows "Transform s (x @ y) n = Transform s x n"
  using assms
proof (induction n arbitrary: s x)
  case (Suc n)
  have "transform_block s (x @ y) = transform_block s x"
    using Suc.prems transform_block_take[of s "x @ y"] transform_block_take[of s x] by simp
  with Suc show ?case by simp
qed simp

lemma Transform_add: "Transform s c (n + k) = Transform (Transform s c n) (drop (64 * n) c) k"
proof (induction n arbitrary: s c)
  case (Suc n)
  have "drop (64 * n) (drop 64 c) = drop (64 * Suc n) c" by (simp add: add.commute)
  with Suc show ?case by simp
qed simp

definition sha_rep :: "CSHA256 \<Rightarrow> bytes \<Rightarrow> bool" where
  "sha_rep st m \<longleftrightarrow>
     length (buf256 st) = 64 \<and> bytes256 st = of_nat (length m) \<and>
     s256 st = Transform Initialize m (length m div 64) \<and>
     take (length m mod 64) (buf256 st) = drop (64 * (length m div 64)) m"

lemma sha_rep_init: "sha_rep CSHA256_init []"
  by (simp add: sha_rep_def CSHA256_init_def)

lemma sha_rep_bufsize: "sha_rep st m \<Longrightarrow> unat (bytes256 st mod 64) = length m mod 64"
proof -
  assume "sha_rep st m"
  then have "unat (bytes256 st) = length m mod 2 ^ 64"
    by (simp add: sha_rep_def unat_of_nat)
  moreover have "length m mod 2 ^ 64 mod 64 = length m mod (64::nat)"
    using mod_mod_cancel[of 64 "2 ^ 64" "length m"] by simp
  ultimately show ?thesis by (simp add: unat_mod)
qed

lemma sha_rep_blocks:
  assumes r: "sha_rep st m" and al: "length m mod 64 = 0" and n: "64 * n \<le> length d"
  shows "sha_rep (sha_blocks st d n) (m @ take (64 * n) d)"
proof -
  let ?b = "length m div 64"
  have lm: "length m = 64 * ?b" using al by auto
  have len: "length (m @ take (64 * n) d) = 64 * (?b + n)" using lm n by simp
  have "Transform Initialize (m @ take (64 * n) d) (?b + n) =
      Transform (Transform Initialize m ?b) (take (64 * n) d) n"
    using lm by (simp add: Transform_add Transform_append)
  also have "\<dots> = Transform (Transform Initialize m ?b) d n"
    using Transform_append[of n "take (64 * n) d" _ "drop (64 * n) d"] n by simp
  finally have tr: "Transform Initialize (m @ take (64 * n) d) (?b + n) =
      Transform (Transform Initialize m ?b) d n" .
  show ?thesis
    unfolding sha_rep_def len using r n lm
    by (simp add: sha_rep_def sha_blocks_def tr[symmetric] add.commute)
qed

lemma sha_rep_tail:
  assumes r: "sha_rep st m" and b: "length m mod 64 + length d < 64"
  shows "sha_rep (sha_tail st (length m mod 64) d) (m @ d)"
proof -
  obtain q b where lm: "length m = 64 * q + b" "b < 64" "length m div 64 = q" "length m mod 64 = b"
    by (rule div_modE[of 64 "length m"]) auto
  have q: "length (m @ d) div 64 = q" "length (m @ d) mod 64 = b + length d"
    using div_mod_append[of b "length d" 64 q] b lm by auto
  have "Transform Initialize (m @ d) q = Transform Initialize m q"
    by (rule Transform_append) (simp add: lm(1))
  then show ?thesis
    using r b unfolding sha_rep_def q lm(3,4) by (simp add: sha_tail_def lm(1))
qed

lemma sha_rep_fill:
  assumes r: "sha_rep st m" and b: "length m mod 64 \<noteq> 0" and d: "64 \<le> length m mod 64 + length d"
  shows "sha_rep (sha_fill st (length m mod 64) d) (m @ take (64 - length m mod 64) d)"
proof -
  obtain q b where lm: "length m = 64 * q + b" "b < 64" "length m div 64 = q" "length m mod 64 = b"
    by (rule div_modE[of 64 "length m"]) auto
  let ?t = "take (64 - b) d"
  have lt: "length ?t = 64 - b" using d lm by simp
  then have ld: "length (m @ ?t) = 64 * (q + 1)" using lm(1,2) by simp
  have "Transform Initialize (m @ ?t) (q + 1) =
      Transform (Transform Initialize m q) (drop (64 * q) m @ ?t) 1"
    unfolding Transform_add using lm(1) by (simp add: Transform_append)
  then show ?thesis
    using r lt lm(2) unfolding sha_rep_def ld lm(3,4)
    by (simp add: sha_fill_def Let_def lm(1))
qed

lemma mod64_append:
  "length m mod 64 = 0 \<Longrightarrow> 64 * k \<le> length e \<Longrightarrow> length (m @ take (64 * k) e) mod 64 = 0"
  by (auto simp: mod_simps)

text \<open>The part of \<open>Write\<close> after the buffer has been filled up and processed, or left alone.\<close>

lemma sha_rep_rest:
  assumes r: "sha_rep st m" and b: "bs = length m mod 64" and c: "bs = 0 \<or> bs + length e < 64"
  shows "sha_rep (let blocks = length e div 64;
      (st2, e2) = (if 64 \<le> length e then (sha_blocks st e blocks, drop (64 * blocks) e)
        else (st, e)) in if 0 < length e2 then sha_tail st2 bs e2 else st2) (m @ e)"
proof (cases "64 \<le> length e")
  case True
  obtain k l where e: "length e = 64 * k + l" "l < 64" "length e div 64 = k"
    by (rule div_modE[of 64 "length e"]) auto
  have z: "bs = 0" "length m mod 64 = 0" using c b True by auto
  let ?m = "m @ take (64 * k) e"
  have r': "sha_rep (sha_blocks st e k) ?m"
    by (rule sha_rep_blocks[OF r z(2)]) (use e in simp)
  have "length ?m mod 64 = 0" by (rule mod64_append[OF z(2)]) (use e in simp)
  with sha_rep_tail[OF r', of "drop (64 * k) e"] e
  have "sha_rep (sha_tail (sha_blocks st e k) 0 (drop (64 * k) e)) (m @ e)" by simp
  moreover have "sha_rep (sha_blocks st e k) (m @ e)" if "length e \<le> 64 * k"
    using r' that by simp
  ultimately show ?thesis using True z(1) by (simp add: e(3))
next
  case False
  then show ?thesis using sha_rep_tail[OF r, of e] r b c by auto
qed

lemma Write256_rep:
  assumes r: "sha_rep st m"
  shows "sha_rep (Write256 st d) (m @ d)"
proof -
  obtain q b where lm: "length m = 64 * q + b" "b < 64" "length m div 64 = q" "length m mod 64 = b"
    by (rule div_modE[of 64 "length m"]) auto
  show ?thesis
  proof (cases "b \<noteq> 0 \<and> b + length d \<ge> 64")
    case True
    let ?t = "take (64 - b) d"
    have "length (m @ ?t) = 64 * (q + 1)" using True lm(1,2) by (auto simp: min_def)
    then have z: "0 = length (m @ ?t) mod 64" by (simp only: mod_mult_self1_is_0)
    have "sha_rep (sha_fill st b d) (m @ ?t)" using sha_rep_fill[OF r] True lm by auto
    from sha_rep_rest[OF this z, of "drop (64 - b) d"] True show ?thesis
      by (simp add: Write256_def sha_rep_bufsize[OF r] lm(4))
  next
    case False
    with sha_rep_rest[OF r, of b d] lm(4) show ?thesis
      by (auto simp: Write256_def sha_rep_bufsize[OF r] not_le)
  qed
qed

text \<open>\<open>Finalize\<close> writes the padding of the standard.\<close>

lemma Finalize256_rep:
  assumes r: "sha_rep st m"
  shows "fst (Finalize256 st) = SHA256 m \<and> length (buf256 (snd (Finalize256 st))) = 64"
proof -
  obtain q b where lm: "length m = 64 * q + b" "b < 64" "length m div 64 = q" "length m mod 64 = b"
    by (rule div_modE[of 64 "length m"]) auto
  have bs: "unat (bytes256 st mod 64) = b" using sha_rep_bufsize[OF r] lm by simp
  have "unat (119 - bytes256 st mod 64) = 119 - b"
    using bs lm(2) by (subst unat_sub) (simp_all add: word_le_nat_alt)
  then have z: "unat ((119 - bytes256 st mod 64) mod 64) = (119 - b) mod 64"
    by (simp add: unat_mod)
  have "55 - int (length m) = int (119 - b) + (- int q - 1) * 64"
    using lm(1,2) by (simp add: of_nat_diff)
  then have "(55 - int (length m)) mod 64 = int ((119 - b) mod 64)"
    by (simp only: mod_mult_self1 zmod_int of_nat_numeral)
  then have "nat ((55 - int (length m)) mod 64) = (119 - b) mod 64" by simp
  then have pad: "sha256_pad m =
      (m @ take (1 + (119 - b) mod 64) (0x80 # replicate 63 0)) @ WriteBE64 (of_nat (8 * length m))"
    by (simp add: sha256_pad_def min_absorb1 less_Suc_eq_le[symmetric])
  have size: "push_bit 3 (bytes256 st) = of_nat (8 * length m)"
    using r by (simp add: sha_rep_def push_bit_eq_mult mult.commute)
  have "sha_rep (Write256 (Write256 st (take (1 + (119 - b) mod 64) (0x80 # replicate 63 0)))
      (WriteBE64 (of_nat (8 * length m)))) (sha256_pad m)"
    unfolding pad by (intro Write256_rep r)
  then show ?thesis
    by (simp add: Finalize256_def z size sha_rep_def Transform_fips SHA256_def Let_def
        del: of_nat_mult)
qed

lemma Reset256_rep: "length (buf256 st) = 64 \<Longrightarrow> sha_rep (Reset256 st) []"
  by (simp add: sha_rep_def Reset256_def)

interpretation csha: stream_hash CSHA256_init Write256 "fst \<circ> Finalize256" sha_rep SHA256
  by unfold_locales (simp_all add: sha_rep_init Write256_rep Finalize256_rep)

lemma length_concat_WriteBE32: "length (concat (map WriteBE32 xs)) = 4 * length xs"
  by (induction xs) auto

lemma length_SHA256 [simp]: "length (SHA256 m) = 32"
  using length_Transform[of Initialize] by (simp add: SHA256_def Transform_fips[symmetric]
      length_concat_WriteBE32)

end
