(* ===== verification/Hash.thy ===== *)
theory Hash
  imports Sha256
begin

text \<open>
  The hash functions built on \<open>CSHA256\<close>: the specialised double hash of 64-byte blobs
  (\<open>TransformD64\<close>, \<open>SHA256D64\<close> of \<open>crypto/sha256.cpp\<close>), and the hasher classes and helpers of
  \<open>hash.h\<close> and \<open>hash.cpp\<close>. A \<open>uint256\<close> is the list of its 32 bytes in memory order.
\<close>

type_synonym uint256 = bytes

section \<open>The double hash of a 64-byte blob\<close>

text \<open>\<open>TransformD64\<close> is three unrolled transforms. The first is the transform of the input from the
  initial state. The second has the message words of the padding folded into its round
  constants \<open>D64_K2\<close>.\<close>

definition D64_K2 :: "u32 list" where
  "D64_K2 =
    [0xc28a2f98, 0x71374491, 0xb5c0fbcf, 0xe9b5dba5, 0x3956c25b, 0x59f111f1, 0x923f82a4, 0xab1c5ed5,
     0xd807aa98, 0x12835b01, 0x243185be, 0x550c7dc3, 0x72be5d74, 0x80deb1fe, 0x9bdc06a7, 0xc19bf374,
     0x649b69c1, 0xf0fe4786, 0x0fe1edc6, 0x240cf254, 0x4fe9346f, 0x6cc984be, 0x61b9411e, 0x16f988fa,
     0xf2c65152, 0xa88e5a6d, 0xb019fc65, 0xb9d99ec7, 0x9a1231c3, 0xe70eeaa0, 0xfdb1232b, 0xc7353eb0,
     0x3069bad5, 0xcb976d5f, 0x5a0f118f, 0xdc1eeefd, 0x0a35b689, 0xde0b7a04, 0x58f4ca9d, 0xe15d5b16,
     0x007f3e86, 0x37088980, 0xa507ea32, 0x6fab9537, 0x17406110, 0x0d8cd6f1, 0xcdaa3b6d, 0xc0bbbe37,
     0x83613bda, 0xdb48a363, 0x0b02e931, 0x6fd15ca7, 0x521afaca, 0x31338431, 0x6ed41a95, 0x6d437890,
     0xc39c91f2, 0x9eccabbd, 0xb5c9a0e6, 0x532fb63c, 0xd2c741c6, 0x07237ea3, 0xa4954b68, 0x4c191d76]"

text \<open>The third transform starts with the eight words of the first digest; the words of its
  padding are folded into the constants \<open>D64_K3\<close> of rounds 8 to 15 and into the
  message schedule of rounds 16 to 31.\<close>

definition D64_K3 :: "u32 list" where
  "D64_K3 =
    [0x428a2f98, 0x71374491, 0xb5c0fbcf, 0xe9b5dba5, 0x3956c25b, 0x59f111f1, 0x923f82a4, 0xab1c5ed5,
     0x5807aa98, 0x12835b01, 0x243185be, 0x550c7dc3, 0x72be5d74, 0x80deb1fe, 0x9bdc06a7, 0xc19bf274]"

definition d64_schedule_step :: "nat \<Rightarrow> u32 list \<Rightarrow> u32 list" where
  "d64_schedule_step i w =
     (if i < 16 then w
      else if i = 16 then w[0 := w ! 0 + sigma0 (w ! 1)]
      else if i = 17 then w[1 := w ! 1 + (0xa00000 + sigma0 (w ! 2))]
      else if i = 18 then w[2 := w ! 2 + (sigma1 (w ! 0) + sigma0 (w ! 3))]
      else if i = 19 then w[3 := w ! 3 + (sigma1 (w ! 1) + sigma0 (w ! 4))]
      else if i = 20 then w[4 := w ! 4 + (sigma1 (w ! 2) + sigma0 (w ! 5))]
      else if i = 21 then w[5 := w ! 5 + (sigma1 (w ! 3) + sigma0 (w ! 6))]
      else if i = 22 then w[6 := w ! 6 + (sigma1 (w ! 4) + 0x100 + sigma0 (w ! 7))]
      else if i = 23 then w[7 := w ! 7 + (sigma1 (w ! 5) + w ! 0 + 0x11002000)]
      else if i = 24 then w[8 := 0x80000000 + sigma1 (w ! 6) + w ! 1]
      else if i = 25 then w[9 := sigma1 (w ! 7) + w ! 2]
      else if i = 26 then w[10 := sigma1 (w ! 8) + w ! 3]
      else if i = 27 then w[11 := sigma1 (w ! 9) + w ! 4]
      else if i = 28 then w[12 := sigma1 (w ! 10) + w ! 5]
      else if i = 29 then w[13 := sigma1 (w ! 11) + w ! 6]
      else if i = 30 then w[14 := sigma1 (w ! 12) + w ! 7 + 0x400022]
      else if i = 31 then w[15 := 0x100 + sigma1 (w ! 13) + w ! 8 + sigma0 (w ! 0)]
      else w[i mod 16 := w ! (i mod 16) +
               (sigma1 (w ! ((i + 14) mod 16)) + w ! ((i + 9) mod 16) + sigma0 (w ! ((i + 1) mod 16)))])"

definition d64_round :: "nat \<Rightarrow> u32 list \<times> u32 list \<Rightarrow> u32 list \<times> u32 list" where
  "d64_round i = (\<lambda>(v, w).
     let w' = d64_schedule_step i w;
         k = (if i < 8 then D64_K3 ! i + w' ! i
              else if i < 16 then D64_K3 ! i
              else K256 ! i + w' ! (i mod 16))
     in (round_regs i k v, w'))"

definition TransformD64 :: "bytes \<Rightarrow> bytes" where
  "TransformD64 inp =
     (let t = transform_block Initialize inp;
          v2 = fold (\<lambda>i. round_regs i (D64_K2 ! i)) [0..<64] t;
          w = map2 (+) t v2 @ replicate 8 0;
          (v3, w3) = fold d64_round [0..<64] (Initialize, w)
      in concat (map WriteBE32 (map2 (+) v3 Initialize)))"

text \<open>\<open>SHA256D64\<close> hands groups of blobs to the multi-way transforms the platform offers and the
  rest to \<open>TransformD64\<close>.\<close>

fun d64_ways :: "nat \<Rightarrow> (bytes \<Rightarrow> bytes) option \<Rightarrow> nat \<Rightarrow> bytes \<Rightarrow> bytes \<times> bytes \<times> nat" where
  "d64_ways n None blocks inp = ([], inp, blocks)"
| "d64_ways n (Some tr) blocks inp =
     (if n = 0 \<or> blocks < n then ([], inp, blocks)
      else let (out, rest, b) = d64_ways n (Some tr) (blocks - n) (drop (64 * n) inp)
           in (tr (take (64 * n) inp) @ out, rest, b))"

fun d64_single :: "nat \<Rightarrow> bytes \<Rightarrow> bytes" where
  "d64_single 0 inp = []"
| "d64_single (Suc blocks) inp = TransformD64 (take 64 inp) @ d64_single blocks (drop 64 inp)"

definition SHA256D64 ::
    "(bytes \<Rightarrow> bytes) option \<Rightarrow> (bytes \<Rightarrow> bytes) option \<Rightarrow> (bytes \<Rightarrow> bytes) option \<Rightarrow>
     bytes \<Rightarrow> nat \<Rightarrow> bytes" where
  "SHA256D64 way8 way4 way2 inp blocks =
     (let (out8, inp, blocks) = d64_ways 8 way8 blocks inp;
          (out4, inp, blocks) = d64_ways 4 way4 blocks inp;
          (out2, inp, blocks) = d64_ways 2 way2 blocks inp
      in out8 @ out4 @ out2 @ d64_single blocks inp)"

section \<open>Hasher classes and helpers\<close>

text \<open>\<open>CHash256\<close> and \<open>HashWriter\<close> wrap one \<open>CSHA256\<close>.\<close>

definition CHash256_Finalize :: "CSHA256 \<Rightarrow> bytes" where
  "CHash256_Finalize sha =
     (let (buf, sha') = Finalize256 sha in fst (Finalize256 (Write256 (Reset256 sha') buf)))"

definition Hash1 :: "bytes \<Rightarrow> uint256" where
  "Hash1 in1 = CHash256_Finalize (Write256 CSHA256_init in1)"

definition Hash2 :: "bytes \<Rightarrow> bytes \<Rightarrow> uint256" where
  "Hash2 in1 in2 = CHash256_Finalize (Write256 (Write256 CSHA256_init in1) in2)"

definition HashWriter_GetHash :: "CSHA256 \<Rightarrow> uint256" where
  "HashWriter_GetHash ctx =
     (let (res, ctx') = Finalize256 ctx in fst (Finalize256 (Write256 (Reset256 ctx') res)))"

definition HashWriter_GetSHA256 :: "CSHA256 \<Rightarrow> uint256" where
  "HashWriter_GetSHA256 ctx = fst (Finalize256 ctx)"

definition HashWriter_GetCheapHash :: "CSHA256 \<Rightarrow> u64" where
  "HashWriter_GetCheapHash ctx = ReadLE64 (HashWriter_GetHash ctx)"

definition SHA256Uint256 :: "uint256 \<Rightarrow> uint256" where
  "SHA256Uint256 inp = fst (Finalize256 (Write256 CSHA256_init (take 32 inp)))"

definition TaggedHash :: "bytes \<Rightarrow> CSHA256" where
  "TaggedHash tag =
     (let taghash = fst (Finalize256 (Write256 CSHA256_init tag))
      in Write256 (Write256 CSHA256_init taghash) taghash)"

definition murmur_k :: "u32 \<Rightarrow> u32" where
  "murmur_k k1 = word_rotl 15 (k1 * 0xcc9e2d51) * 0x1b873593"

fun murmur_body :: "u32 \<Rightarrow> nat \<Rightarrow> bytes \<Rightarrow> u32" where
  "murmur_body h1 0 blocks = h1"
| "murmur_body h1 (Suc n) blocks =
     murmur_body (word_rotl 13 (h1 XOR murmur_k (ReadLE32 blocks)) * 5 + 0xe6546b64) n (drop 4 blocks)"

definition murmur_tail :: "u32 \<Rightarrow> bytes \<Rightarrow> u32" where
  "murmur_tail h1 tail =
     (case tail of
        [] \<Rightarrow> h1
      | t0 # t \<Rightarrow>
          let k1 = (if length tail = 3 then push_bit 16 (ucast (t ! 1)) else 0) XOR
                   (if length tail \<ge> 2 then push_bit 8 (ucast (t ! 0)) else 0) XOR ucast t0
          in h1 XOR murmur_k k1)"

definition MurmurHash3 :: "u32 \<Rightarrow> bytes \<Rightarrow> u32" where
  "MurmurHash3 nHashSeed vDataToHash =
     (let nblocks = length vDataToHash div 4;
          h1 = murmur_body nHashSeed nblocks vDataToHash;
          h1 = murmur_tail h1 (drop (4 * nblocks) vDataToHash);
          h1 = h1 XOR of_nat (length vDataToHash);
          h1 = (h1 XOR drop_bit 16 h1) * 0x85ebca6b;
          h1 = (h1 XOR drop_bit 13 h1) * 0xc2b2ae35
      in h1 XOR drop_bit 16 h1)"

section \<open>The double hash computed by \<open>TransformD64\<close>\<close>

text \<open>Second transform: the folded constants are the round constants plus the schedule of the
  padding block of a 64-byte message.\<close>

definition padding1 :: bytes where
  "padding1 =
    [0x80, 0, 0, 0, 0, 0, 0, 0, 0, 0, 0, 0, 0, 0, 0, 0,
     0, 0, 0, 0, 0, 0, 0, 0, 0, 0, 0, 0, 0, 0, 0, 0,
     0, 0, 0, 0, 0, 0, 0, 0, 0, 0, 0, 0, 0, 0, 0, 0,
     0, 0, 0, 0, 0, 0, 0, 0, 0, 0, 0, 0, 0, 0, 2, 0]"

definition D2 :: "nat \<Rightarrow> u32" where
  "D2 i = D64_K2 ! i - K256 ! i"

lemma D2_words: "list_all (\<lambda>i. D2 i = ReadBE32 (drop (4 * i) padding1)) [0..<16]"
  by (simp add: D2_def D64_K2_def K256_def ReadBE32_def padding1_def upt_rec)

lemma D2_schedule:
  "list_all (\<lambda>i. D2 i = sigma1 (D2 (i - 2)) + D2 (i - 7) + sigma0 (D2 (i - 15)) + D2 (i - 16))
     [16..<64]"
  by code_simp

lemma D2_fips: "i < 64 \<Longrightarrow> fips_W (\<lambda>t. ReadBE32 (drop (4 * t) padding1)) i = D2 i"
proof (induction i rule: less_induct)
  case (less i)
  show ?case
  proof (cases "i < 16")
    case True
    with list_all_uptD[OF D2_words, of i] show ?thesis by (simp add: fips_W.simps)
  next
    case False
    then have "D2 i = sigma1 (D2 (i - 2)) + D2 (i - 7) + sigma0 (D2 (i - 15)) + D2 (i - 16)"
      using less.prems by (intro list_all_uptD[OF D2_schedule]) auto
    with False less show ?thesis by (subst fips_W.simps) (simp add: fips_functions)
  qed
qed

lemma d64_second:
  assumes "length t = 8"
  shows "map2 (+) t (fold (\<lambda>i. round_regs i (D64_K2 ! i)) [0..<64] t) = fips_block t padding1"
proof -
  let ?W = "fips_W (\<lambda>t. ReadBE32 (drop (4 * t) padding1))"
  have "fold (\<lambda>i. round_regs i (D64_K2 ! i)) [0..<64] t =
      fold (\<lambda>i. round_regs i (K256 ! i + ?W i)) [0..<64] t"
    by (rule fold_cong) (simp_all only: set_upt atLeastLessThan_iff D2_fips D2_def
        add_diff_cancel_left' add_diff_eq)
  then show ?thesis by (simp only: fips_block_def rounds64_fips[OF assms])
qed

text \<open>Third transform: message words \<open>w\<close> of the first digest, followed by the padding of a
  32-byte message.\<close>

definition msg3 :: "u32 list \<Rightarrow> nat \<Rightarrow> u32" where
  "msg3 w t = (if t < 8 then w ! t else if t = 8 then 0x80000000 else if t = 15 then 0x100 else 0)"

lemma sigma_consts:
  "sigma0 0 = 0" "sigma1 0 = 0" "sigma1 0x100 = 0xa00000" "sigma0 0x80000000 = 0x11002000"
  "sigma0 0x100 = 0x400022"
  by (simp_all add: sigma0_def sigma1_def)

lemma msg3_W:
  "t < 8 \<Longrightarrow> fips_W (msg3 w) t = w ! t" "fips_W (msg3 w) 8 = 0x80000000"
  "fips_W (msg3 w) 9 = 0" "fips_W (msg3 w) 10 = 0" "fips_W (msg3 w) 11 = 0"
  "fips_W (msg3 w) 12 = 0" "fips_W (msg3 w) 13 = 0" "fips_W (msg3 w) 14 = 0"
  "fips_W (msg3 w) 15 = 0x100"
  by (subst fips_W.simps, simp add: msg3_def)+

text \<open>The words that are meaningful before round \<open>i\<close>: those of the first digest that are still
  needed, and those computed from round 16 on.\<close>

definition d64_inv :: "u32 list \<Rightarrow> nat \<Rightarrow> u32 list \<Rightarrow> bool" where
  "d64_inv w0 i w \<longleftrightarrow> length w = 16 \<and>
     (\<forall>t < 8. i \<le> t + 16 \<longrightarrow> w ! t = fips_W (msg3 w0) t) \<and>
     (\<forall>t < i. 16 \<le> t \<longrightarrow> i \<le> t + 16 \<longrightarrow> w ! (t mod 16) = fips_W (msg3 w0) t)"

lemma d64_inv_early: "d64_inv w0 i w \<Longrightarrow> t < 8 \<Longrightarrow> i \<le> t + 16 \<Longrightarrow> w ! t = fips_W (msg3 w0) t"
  and d64_inv_late: "d64_inv w0 i w \<Longrightarrow> t < i \<Longrightarrow> 16 \<le> t \<Longrightarrow> i \<le> t + 16 \<Longrightarrow> k = t mod 16 \<Longrightarrow>
      w ! k = fips_W (msg3 w0) t"
  by (auto simp: d64_inv_def)

lemma d64_step_new:
  assumes inv: "d64_inv w0 i w" and i: "16 \<le> i"
  shows "d64_schedule_step i w ! (i mod 16) = fips_W (msg3 w0) i"
proof (cases "i < 32")
  case True
  have len: "length w = 16" using inv by (simp add: d64_inv_def)
  have e: "w ! t = fips_W (msg3 w0) t" if "t < 8" "i \<le> t + 16" for t
    by (rule d64_inv_early[OF inv that])
  have l: "w ! t = fips_W (msg3 w0) (t + 16)" if "t < 16" "t + 16 < i" for t
    by (rule d64_inv_late[OF inv]) (use that True in auto)
  have "i = 16 \<or> i = 17 \<or> i = 18 \<or> i = 19 \<or> i = 20 \<or> i = 21 \<or> i = 22 \<or> i = 23 \<or>
      i = 24 \<or> i = 25 \<or> i = 26 \<or> i = 27 \<or> i = 28 \<or> i = 29 \<or> i = 30 \<or> i = 31"
    using i True by presburger
  then show ?thesis
    by (elim disjE; subst fips_W.simps)
      (simp_all add: d64_schedule_step_def len e l msg3_W fips_functions sigma_consts ac_simps
        nth_list_update)
next
  case False
  have l: "w ! (t mod 16) = fips_W (msg3 w0) t" if "t < i" "i \<le> t + 16" for t
    by (rule d64_inv_late[OF inv]) (use that False in auto)
  have "w ! (i mod 16) = fips_W (msg3 w0) (i - 16)"
    using l[of "i - 16"] False by (simp add: le_mod_geq)
  moreover have "w ! ((i + 14) mod 16) = fips_W (msg3 w0) (i - 2)"
    using l[of "i - 2"] mod16_shift[of i 2] False by auto
  moreover have "w ! ((i + 9) mod 16) = fips_W (msg3 w0) (i - 7)"
    using l[of "i - 7"] mod16_shift[of i 7] False by auto
  moreover have "w ! ((i + 1) mod 16) = fips_W (msg3 w0) (i - 15)"
    using l[of "i - 15"] mod16_shift[of i 15] False by auto
  moreover have "length w = 16" using inv by (simp add: d64_inv_def)
  ultimately show ?thesis
    using False by (subst fips_W.simps) (simp add: d64_schedule_step_def fips_functions algebra_simps)
qed

lemma d64_step_other: "k \<noteq> i mod 16 \<Longrightarrow> d64_schedule_step i w ! k = w ! k"
  by (auto simp: d64_schedule_step_def)

lemma length_d64_step [simp]: "length (d64_schedule_step i w) = length w"
  by (simp add: d64_schedule_step_def)

lemma d64_step_inv:
  assumes inv: "d64_inv w0 i w"
  shows "d64_inv w0 (Suc i) (d64_schedule_step i w)"
  unfolding d64_inv_def
proof (intro conjI allI impI)
  show "length (d64_schedule_step i w) = 16" using inv by (simp add: d64_inv_def)
next
  fix t :: nat assume t: "t < 8" "Suc i \<le> t + 16"
  have "i < 16 \<or> t \<noteq> i mod 16"
    using mod16_inj[of t i] t by (cases "t < i") auto
  then have "d64_schedule_step i w ! t = w ! t"
    by (auto simp: d64_step_other) (simp add: d64_schedule_step_def)
  with d64_inv_early[OF inv, of t] t show "d64_schedule_step i w ! t = fips_W (msg3 w0) t" by simp
next
  fix t assume t: "t < Suc i" "16 \<le> t" "Suc i \<le> t + 16"
  show "d64_schedule_step i w ! (t mod 16) = fips_W (msg3 w0) t"
  proof (cases "t = i")
    case True
    then show ?thesis using d64_step_new[OF inv] t by simp
  next
    case False
    then have "t mod 16 \<noteq> i mod 16" using mod16_inj[of t i] t by auto
    then show ?thesis using d64_step_other[of "t mod 16" i w] d64_inv_late[OF inv, of t] t False
      by simp
  qed
qed

lemma d64_key:
  assumes inv: "d64_inv w0 i w" and i: "i < 64"
  shows "d64_round i (v, w) =
    (round_regs i (K256 ! i + fips_W (msg3 w0) i) v, d64_schedule_step i w)"
proof -
  have K3: "list_all (\<lambda>j. D64_K3 ! j = K256 ! j + fips_W (msg3 w0) j) [8..<16]"
    by (simp add: upt_rec D64_K3_def K256_def msg3_W)
  have K3': "list_all (\<lambda>j. D64_K3 ! j = K256 ! j) [0..<8]"
    by (simp add: upt_rec D64_K3_def K256_def)
  consider "i < 8" | "8 \<le> i" "i < 16" | "16 \<le> i" by linarith
  then show ?thesis
  proof cases
    case 1
    then have "d64_schedule_step i w = w" by (simp add: d64_schedule_step_def)
    with 1 list_all_uptD[OF K3', of i] d64_inv_early[OF inv, of i] show ?thesis
      by (simp add: d64_round_def)
  next
    case 2
    with list_all_uptD[OF K3, of i] show ?thesis by (simp add: d64_round_def Let_def)
  next
    case 3
    with d64_step_new[OF inv] show ?thesis by (simp add: d64_round_def Let_def)
  qed
qed

lemma d64_rounds:
  assumes "length w0 = 8" and "n \<le> 64"
  shows "\<exists>w. fold d64_round [0..<n] (v, w0 @ replicate 8 0) =
      (fold (\<lambda>i. round_regs i (K256 ! i + fips_W (msg3 w0) i)) [0..<n] v, w) \<and> d64_inv w0 n w"
  using assms(2)
proof (induction n)
  case 0
  have "d64_inv w0 0 (w0 @ replicate 8 0)"
    using assms(1) by (simp add: d64_inv_def nth_append msg3_W(1))
  then show ?case by simp
next
  case (Suc n)
  then obtain w where w: "fold d64_round [0..<n] (v, w0 @ replicate 8 0) =
      (fold (\<lambda>i. round_regs i (K256 ! i + fips_W (msg3 w0) i)) [0..<n] v, w)" "d64_inv w0 n w"
    by auto
  with Suc.prems show ?case by (auto simp: d64_key d64_step_inv)
qed

lemma d64_third:
  assumes "length w0 = 8"
  shows "fst (fold d64_round [0..<64] (Initialize, w0 @ replicate 8 0)) =
    fold (fips_round (fips_W (msg3 w0))) [0..<64] Initialize"
proof -
  obtain w where "fold d64_round [0..<64] (Initialize, w0 @ replicate 8 0) =
      (fold (\<lambda>i. round_regs i (K256 ! i + fips_W (msg3 w0) i)) [0..<64] Initialize, w)"
    using d64_rounds[OF assms order_refl] by blast
  then show ?thesis by (simp only: fst_conv rounds64_fips[OF length_Initialize])
qed

text \<open>The padded messages of the two hashes.\<close>

lemma fips_W_cong: "(\<And>t. t < 16 \<Longrightarrow> M t = M' t) \<Longrightarrow> fips_W M t = fips_W M' t"
proof (induction t rule: less_induct)
  case (less t)
  then show ?case
    by (subst (1 2) fips_W.simps) simp
qed

lemma ReadBE32_words:
  "t < length ws \<Longrightarrow> ReadBE32 (drop (4 * t) (concat (map WriteBE32 ws) @ r)) = ws ! t"
proof (induction ws arbitrary: t)
  case (Cons w ws)
  show ?case
  proof (cases t)
    case 0
    then show ?thesis using Read_Write(4)[of w "concat (map WriteBE32 ws) @ r"] by simp
  next
    case (Suc u)
    then show ?thesis using Cons by simp
  qed
qed simp

lemma pad64: "length m = 64 \<Longrightarrow> sha256_pad m = m @ padding1"
proof -
  assume "length m = 64"
  moreover have "0x80 # replicate 55 0 @ WriteBE64 512 = padding1" by code_simp
  ultimately show ?thesis by (simp add: sha256_pad_def)
qed

definition padding2 :: bytes where
  "padding2 = 0x80 # replicate 23 0 @ WriteBE64 256"

lemma pad32: "length m = 32 \<Longrightarrow> sha256_pad m = m @ padding2"
  by (simp add: sha256_pad_def padding2_def)

lemma padding2_words:
  "list_all (\<lambda>t. ReadBE32 (drop (4 * t) padding2) = msg3 w (t + 8)) [0..<8]"
proof -
  have e: "padding2 = [0x80, 0, 0, 0, 0, 0, 0, 0, 0, 0, 0, 0, 0, 0, 0, 0,
      0, 0, 0, 0, 0, 0, 0, 0, 0, 0, 0, 0, 0, 0, 1, 0]"
    by code_simp
  show ?thesis unfolding e by (simp add: upt_rec ReadBE32_def msg3_def)
qed

lemma msg3_words:
  assumes "length ws = 8" and "t < 16"
  shows "ReadBE32 (drop (4 * t) (concat (map WriteBE32 ws) @ padding2)) = msg3 ws t"
proof (cases "t < 8")
  case True
  then show ?thesis using assms ReadBE32_words[of t ws padding2] by (simp add: msg3_def)
next
  case False
  have "drop (4 * t) (concat (map WriteBE32 ws) @ padding2) = drop (4 * (t - 8)) padding2"
    using False assms by (simp add: length_concat_WriteBE32 right_diff_distrib')
  with list_all_uptD[OF padding2_words, of "t - 8" ws] False assms show ?thesis by simp
qed

lemma fips_block_append:
  assumes "length s = 8" and "64 \<le> length x"
  shows "fips_block s (x @ y) = fips_block s x"
  using Transform_append[of 1 x s y] assms by (simp add: transform_block_fips)

lemma length_padding1: "length padding1 = 64"
  by (simp add: padding1_def)

lemma SHA256_64:
  assumes "length m = 64"
  shows "SHA256 m = concat (map WriteBE32 (fips_block (fips_block Initialize m) padding1))"
  using assms by (simp add: SHA256_def pad64 length_padding1 numeral_2_eq_2 fips_block_append)

lemma SHA256_words:
  assumes "length ws = 8"
  shows "SHA256 (concat (map WriteBE32 ws)) = concat (map WriteBE32
    (map2 (+) Initialize (fold (fips_round (fips_W (msg3 ws))) [0..<64] Initialize)))"
proof -
  have l: "length (concat (map WriteBE32 ws)) = 32" using assms by (simp add: length_concat_WriteBE32)
  have l2: "length padding2 = 32" by (simp add: padding2_def)
  have "fips_W (\<lambda>t. ReadBE32 (drop (4 * t) (concat (map WriteBE32 ws) @ padding2))) = fips_W (msg3 ws)"
    by (rule ext, rule fips_W_cong) (rule msg3_words[OF assms])
  then have "fips_block Initialize (concat (map WriteBE32 ws) @ padding2) =
      map2 (+) Initialize (fold (fips_round (fips_W (msg3 ws))) [0..<64] Initialize)"
    by (simp only: fips_block_def)
  then show ?thesis by (simp only: SHA256_def pad32[OF l] length_append l l2) simp
qed

lemma map2_plus_comm: "map2 (+) xs ys = map2 (+) ys (xs :: u32 list)"
  by (simp add: zip_commute[of xs ys] o_def split_def add.commute)

lemma TransformD64_correct:
  assumes "length inp = 64"
  shows "TransformD64 inp = SHA256 (SHA256 inp)"
proof -
  let ?t = "fips_block Initialize inp"
  let ?ws = "fips_block ?t padding1"
  have l: "length ?t = 8" "length ?ws = 8" by simp_all
  have "TransformD64 inp = concat (map WriteBE32
      (map2 (+) (fst (fold d64_round [0..<64] (Initialize, ?ws @ replicate 8 0))) Initialize))"
    unfolding TransformD64_def Let_def transform_block_fips[OF length_Initialize]
      d64_second[OF l(1)] by (simp only: split_def)
  also have "\<dots> = concat (map WriteBE32 (map2 (+) Initialize
      (fold (fips_round (fips_W (msg3 ?ws))) [0..<64] Initialize)))"
    by (simp only: d64_third[OF l(2)] map2_plus_comm)
  also have "\<dots> = SHA256 (SHA256 inp)"
    by (simp only: SHA256_words[OF l(2)] SHA256_64[OF assms])
  finally show ?thesis .
qed

text \<open>The contract of a multi-way transform: it hashes its \<open>n\<close> blobs as \<open>TransformD64\<close> does.\<close>

definition way_ok :: "nat \<Rightarrow> (bytes \<Rightarrow> bytes) option \<Rightarrow> bool" where
  "way_ok n tr \<longleftrightarrow> (\<forall>f x. tr = Some f \<longrightarrow> length x = 64 * n \<longrightarrow> f x = d64_single n x)"

lemma d64_single_take: "d64_single n (take (64 * n) x) = d64_single n x"
  by (induction n arbitrary: x) (simp_all add: drop_take min_def)

lemma d64_single_add: "d64_single (n + k) x = d64_single n x @ d64_single k (drop (64 * n) x)"
  by (induction n arbitrary: x) (simp_all add: add.commute)

lemma d64_ways_single:
  "way_ok n tr \<Longrightarrow> 64 * blocks \<le> length inp \<Longrightarrow> d64_ways n tr blocks inp = (out, rest, b) \<Longrightarrow>
   out @ d64_single b rest = d64_single blocks inp \<and> 64 * b \<le> length rest"
proof (induction n tr blocks inp arbitrary: out rest b rule: d64_ways.induct)
  case (1 n blocks inp)
  then show ?case by simp
next
  case (2 n tr blocks inp)
  show ?case
  proof (cases "n = 0 \<or> blocks < n")
    case True
    with 2 show ?thesis by auto
  next
    case False
    obtain out' rest' b' where d: "d64_ways n (Some tr) (blocks - n) (drop (64 * n) inp) =
        (out', rest', b')" by (cases "d64_ways n (Some tr) (blocks - n) (drop (64 * n) inp)")
    from False have m: "64 * n \<le> 64 * blocks" by simp
    from 2(1)[OF False 2(2) _ d] 2(3) m
    have IH: "out' @ d64_single b' rest' = d64_single (blocks - n) (drop (64 * n) inp)"
      "64 * b' \<le> length rest'" by (auto simp: right_diff_distrib')
    have "tr (take (64 * n) inp) = d64_single n inp"
      using 2(2,3) m d64_single_take[of n inp] by (simp add: way_ok_def)
    with IH d 2(4) False d64_single_add[of n "blocks - n" inp] show ?thesis by auto
  qed
qed

lemma d64_single_spec:
  "length inp = 64 * blocks \<Longrightarrow>
   d64_single blocks inp = concat (map (\<lambda>i. SHA256 (SHA256 (take 64 (drop (64 * i) inp)))) [0..<blocks])"
proof (induction blocks arbitrary: inp)
  case (Suc n)
  have u: "[0..<Suc n] = 0 # map Suc [0..<n]" by (simp add: map_Suc_upt upt_conv_Cons del: upt_Suc)
  have "d64_single n (drop 64 inp) =
      concat (map (\<lambda>i. SHA256 (SHA256 (take 64 (drop (64 * i) (drop 64 inp))))) [0..<n])"
    by (rule Suc.IH) (use Suc.prems in simp)
  with Suc.prems show ?case
    unfolding u by (simp add: TransformD64_correct o_def add.commute)
qed simp

lemma SHA256D64_ways:
  assumes "way_ok 8 way8" and "way_ok 4 way4" and "way_ok 2 way2" and "length inp = 64 * blocks"
  shows "SHA256D64 way8 way4 way2 inp blocks = d64_single blocks inp"
proof -
  obtain o8 i8 b8 where 8: "d64_ways 8 way8 blocks inp = (o8, i8, b8)"
    by (cases "d64_ways 8 way8 blocks inp")
  obtain o4 i4 b4 where 4: "d64_ways 4 way4 b8 i8 = (o4, i4, b4)" by (cases "d64_ways 4 way4 b8 i8")
  obtain o2 i2 b2 where 2: "d64_ways 2 way2 b4 i4 = (o2, i2, b2)" by (cases "d64_ways 2 way2 b4 i4")
  from d64_ways_single[OF assms(1) _ 8] d64_ways_single[OF assms(2) _ 4]
    d64_ways_single[OF assms(3) _ 2] assms(4)
  show ?thesis by (simp add: SHA256D64_def 8 4 2)
qed

section \<open>The hasher classes\<close>

lemma double_sha_rep:
  assumes "sha_rep st m"
  shows "(let (res, st') = Finalize256 st in fst (Finalize256 (Write256 (Reset256 st') res))) =
    SHA256 (SHA256 m)"
proof -
  obtain res st' where f: "Finalize256 st = (res, st')" by fastforce
  with Finalize256_rep[OF assms] have "res = SHA256 m" "length (buf256 st') = 64" by auto
  with Finalize256_rep[OF Write256_rep[OF Reset256_rep], of st' res] f show ?thesis by simp
qed

interpretation chash: stream_hash CSHA256_init Write256 CHash256_Finalize sha_rep "SHA256 \<circ> SHA256"
  by unfold_locales (simp_all add: sha_rep_init Write256_rep CHash256_Finalize_def double_sha_rep)

interpretation hwriter: stream_hash CSHA256_init Write256 HashWriter_GetHash sha_rep "SHA256 \<circ> SHA256"
  by unfold_locales (simp_all add: sha_rep_init Write256_rep HashWriter_GetHash_def double_sha_rep)

lemma Hash1_eq: "Hash1 m = SHA256 (SHA256 m)"
  using chash.final_write1 by (simp add: Hash1_def)

lemma Hash2_eq: "Hash2 a b = SHA256 (SHA256 (a @ b))"
  using chash.final_write2 by (simp add: Hash2_def)

lemma SHA256Uint256_eq: "length x = 32 \<Longrightarrow> SHA256Uint256 x = SHA256 x"
  using csha.final_write1 by (simp add: SHA256Uint256_def)

lemma TaggedHash_rep: "sha_rep (TaggedHash tag) (SHA256 tag @ SHA256 tag)"
  using Write256_rep[OF Write256_rep[OF sha_rep_init], of "SHA256 tag" "SHA256 tag"] csha.final_write1
  by (simp add: TaggedHash_def Let_def)

section \<open>Properties\<close>

text \<open>C6: any sequence of \<open>Write\<close> calls on a \<open>CSHA256\<close> (and on the double-hashing
  \<open>CHash256\<close> and \<open>HashWriter\<close> built on it) gives the FIPS 180-4 digest (its double) of the
  concatenated data: the unrolled transform with rotating variables and an in-place message
  schedule computes the standard's block function, and the buffering does not depend on how
  the data is split.\<close>

theorem hashers_compute_sha256:
  "fst (Finalize256 (fold (\<lambda>d st. Write256 st d) ds CSHA256_init)) = SHA256 (concat ds) \<and>
   CHash256_Finalize (fold (\<lambda>d st. Write256 st d) ds CSHA256_init) = SHA256 (SHA256 (concat ds)) \<and>
   HashWriter_GetHash (fold (\<lambda>d st. Write256 st d) ds CSHA256_init) = SHA256 (SHA256 (concat ds))"
  using csha.final_writes[of ds] chash.final_writes[of ds] hwriter.final_writes[of ds] by simp

text \<open>C7: \<open>SHA256D64\<close> on the portable build, where none of the multi-way kernels is installed:
  its routine specialised to 64-byte inputs (three transforms, the second on a constant padding
  block and the third on a digest with constant padding) returns the double SHA-256 of every
  64-byte blob, in order.\<close>

theorem SHA256D64_correct:
  assumes "length inp = 64 * blocks"
  shows "SHA256D64 None None None inp blocks =
    concat (map (\<lambda>i. SHA256 (SHA256 (take 64 (drop (64 * i) inp)))) [0..<blocks])"
  using SHA256D64_ways[of None None None inp blocks] d64_single_spec[OF assms] assms
  by (simp add: way_ok_def)

theorem SHA256D64_correct_witness:
  "SHA256D64 None None None (replicate 192 7) 3 =
    concat (map (\<lambda>i. SHA256 (SHA256 (take 64 (drop (64 * i) (replicate 192 7))))) [0..<3])"
  by (rule SHA256D64_correct) simp

end
