(* ===== verification/Prime31.thy ===== *)
theory Prime31
  imports Prelude
begin

text \<open>
  The modulus \<open>2^31 - 1\<close> of the MatMul field is prime, and Fermat's little theorem for it:
  what the inverse of \<open>matmul/field.cpp\<close> and the soundness of the Freivalds check rest on.
\<close>

definition is_prime :: "nat \<Rightarrow> bool" where
  "is_prime p \<longleftrightarrow> 1 < p \<and> (\<forall>d. d dvd p \<longrightarrow> d = 1 \<or> d = p)"

section \<open>Fermat's little theorem\<close>

lemma prime_coprime:
  assumes "is_prime p" "\<not> p dvd a"
  shows "coprime a p"
proof -
  have "gcd a p dvd p" by simp
  then have "gcd a p = 1 \<or> gcd a p = p" using assms(1) by (auto simp: is_prime_def)
  moreover have "gcd a p \<noteq> p"
  proof
    assume "gcd a p = p"
    then have "p dvd a" using gcd_dvd1[of a p] by (simp only:)
    with assms(2) show False by contradiction
  qed
  ultimately show ?thesis by (simp add: coprime_iff_gcd_eq_1)
qed

lemma mult_mod_inj:
  assumes "is_prime p" "\<not> p dvd a"
  shows "inj_on (\<lambda>x. a * x mod p) {1..<p}"
proof (rule inj_onI)
  fix x y assume xy: "x \<in> {1..<p}" "y \<in> {1..<p}" "a * x mod p = a * y mod p"
  have cop: "coprime p a" using prime_coprime[OF assms] by (simp add: coprime_commute)
  have le: "x = y" if "x \<le> y" "y < p" "a * x mod p = a * y mod p" for x y
  proof -
    have "p dvd a * y - a * x" using that by (intro mod_eq_dvd_iff_nat[THEN iffD1]) auto
    then have "p dvd a * (y - x)" by (simp add: right_diff_distrib')
    then have "p dvd y - x" using cop by (simp add: coprime_dvd_mult_right_iff)
    with that show ?thesis by (auto dest: dvd_imp_le)
  qed
  show "x = y"
  proof (cases "x \<le> y")
    case True
    then show ?thesis using le[of x y] xy by auto
  next
    case False
    then show ?thesis using le[of y x] xy by auto
  qed
qed

lemma prime_not_dvd_mult:
  assumes "is_prime p" "\<not> p dvd a" "\<not> p dvd b"
  shows "\<not> p dvd a * b"
  using prime_coprime[OF assms(1,2)] assms(3)
  by (simp add: coprime_commute coprime_dvd_mult_right_iff)

lemma mult_mod_perm:
  assumes "is_prime p" "\<not> p dvd a"
  shows "(\<lambda>x. a * x mod p) ` {1..<p} = {1..<p}"
proof (rule endo_inj_surj)
  show "(\<lambda>x. a * x mod p) ` {1..<p} \<subseteq> {1..<p}"
  proof (rule image_subsetI)
    fix x assume x: "x \<in> {1..<p}"
    then have "\<not> p dvd x" by (auto dest: dvd_imp_le)
    then have "\<not> p dvd a * x" by (rule prime_not_dvd_mult[OF assms])
    then have "a * x mod p \<noteq> 0" by (simp add: dvd_eq_mod_eq_0)
    moreover have "a * x mod p < p" using x by simp
    ultimately show "a * x mod p \<in> {1..<p}" by simp
  qed
qed (rule finite_atLeastLessThan mult_mod_inj[OF assms])+

lemma prime_not_dvd_fact:
  assumes "is_prime p" "finite A" "\<And>x. x \<in> A \<Longrightarrow> \<not> p dvd x"
  shows "\<not> p dvd \<Prod>A"
  using assms(2,3)
proof (induction A rule: finite_induct)
  case empty
  then show ?case using assms(1) by (auto simp: is_prime_def)
next
  case (insert x A)
  then show ?case using prime_not_dvd_mult[OF assms(1)] by simp
qed

theorem fermat_little:
  assumes "is_prime p" "\<not> p dvd a"
  shows "a ^ (p - 1) mod p = 1"
proof -
  let ?S = "{1..<p}"
  have p1: "1 < p" using assms(1) by (simp add: is_prime_def)
  have "\<Prod>?S = (\<Prod>x\<in>?S. a * x mod p)"
    using prod.reindex[OF mult_mod_inj[OF assms], of "\<lambda>x. x"] mult_mod_perm[OF assms]
    by (simp add: o_def)
  then have "\<Prod>?S mod p = (\<Prod>x\<in>?S. a * x) mod p" by (simp add: mod_prod_eq)
  also have "(\<Prod>x\<in>?S. a * x) = a ^ (p - 1) * \<Prod>?S"
    by (simp add: prod.distrib)
  finally have eq: "\<Prod>?S mod p = a ^ (p - 1) * \<Prod>?S mod p" .
  have pos: "a ^ (p - 1) \<ge> 1" using assms(2) by (cases "a = 0") auto
  have "p dvd a ^ (p - 1) * \<Prod>?S - \<Prod>?S"
    using eq pos by (intro mod_eq_dvd_iff_nat[THEN iffD1]) auto
  then have "p dvd (a ^ (p - 1) - 1) * \<Prod>?S" by (simp add: left_diff_distrib')
  moreover have "\<not> p dvd \<Prod>?S"
    by (rule prime_not_dvd_fact[OF assms(1)]) (auto dest: dvd_imp_le)
  ultimately have "p dvd a ^ (p - 1) - 1"
    using prime_not_dvd_mult[OF assms(1)] by blast
  then have "a ^ (p - 1) mod p = 1 mod p" using pos by (intro mod_eq_dvd_iff_nat[THEN iffD2]) auto
  then show ?thesis using p1 by simp
qed

section \<open>The Mersenne number\<close>

lemma pow_one_gcd:
  "a ^ m mod e = 1 \<Longrightarrow> a ^ n mod e = 1 \<Longrightarrow> a ^ gcd m n mod e = (1::nat)"
proof (induction m n rule: gcd_nat_induct)
  case (step m n)
  have "a ^ m = (a ^ n) ^ (m div n) * a ^ (m mod n)"
    by (simp flip: power_mult power_add)
  then have "a ^ m mod e = ((a ^ n) ^ (m div n) mod e) * a ^ (m mod n) mod e"
    by (simp only: mod_mult_left_eq)
  also have "(a ^ n) ^ (m div n) mod e = (a ^ n mod e) ^ (m div n) mod e"
    by (rule power_mod[symmetric])
  finally have "a ^ (m mod n) mod e = 1" using step.prems
    by (cases "e = 1") (auto simp: mod_mult_left_eq)
  with step have "a ^ gcd n (m mod n) mod e = 1" by blast
  then show ?case using gcd_red_nat[of m n] by (rule back_subst[of "\<lambda>g. a ^ g mod e = 1", OF _ sym])
qed simp

lemma least_divisor_prime:
  assumes "1 < (n::nat)"
  obtains e where "is_prime e" "e dvd n" "is_prime n \<or> e * e \<le> n"
proof -
  define e where "e = (LEAST d. d dvd n \<and> 1 < d)"
  have ex: "n dvd n \<and> 1 < n" using assms by simp
  have "e dvd n \<and> 1 < e" unfolding e_def by (rule LeastI[of "\<lambda>d. d dvd n \<and> 1 < d", OF ex])
  then have e: "e dvd n" "1 < e" by simp_all
  have least: "e \<le> d" if "d dvd n" "1 < d" for d
    unfolding e_def by (rule Least_le) (use that in simp)
  have prime: "is_prime e"
    unfolding is_prime_def
  proof (intro conjI allI impI)
    fix d assume d: "d dvd e"
    then have "d dvd n" using e(1) by (rule dvd_trans)
    show "d = 1 \<or> d = e"
    proof (cases "1 < d")
      case True
      with \<open>d dvd n\<close> have "e \<le> d" by (rule least)
      with dvd_imp_le[OF d] e show ?thesis by simp
    next
      case False
      then show ?thesis using d e by (cases d) auto
    qed
  qed (use e in simp)
  obtain k where k: "n = e * k" using e(1) by (auto elim: dvdE)
  have "is_prime n \<or> e * e \<le> n"
  proof (cases "1 < k")
    case True
    then have "e \<le> k" using k by (intro least) auto
    then show ?thesis using k by simp
  next
    case False
    then have "k = 1" using k assms by (cases k) auto
    then show ?thesis using k prime by simp
  qed
  with prime e(1) show ?thesis by (rule that)
qed

lemma mersenne31_trial:
  "list_all (\<lambda>j. (2147483647::int) mod (62 * j + 1) \<noteq> 0) [1..747]"
  by code_simp

lemma dvd31: "d dvd 31 \<Longrightarrow> d = 1 \<or> d = (31::nat)"
proof -
  assume "d dvd 31"
  then have "d \<le> 31" "31 mod d = 0" by (auto dest: dvd_imp_le)
  moreover have "list_all (\<lambda>d. 31 mod d = 0 \<longrightarrow> d = 1 \<or> d = (31::nat)) [0..<32]"
    by code_simp
  ultimately show ?thesis using list_all_uptD[of _ 0 32 d] by fastforce
qed

text \<open>A prime factor of \<open>2^31 - 1\<close> is congruent to 1 modulo 62.\<close>

lemma mersenne31_factor:
  assumes "is_prime e" "e dvd 2147483647"
  obtains j where "e = 62 * j + 1" "0 < j"
proof -
  have e1: "1 < e" using assms(1) by (simp add: is_prime_def)
  have odd: "odd e"
  proof
    assume "even e"
    then have "even (2147483647::nat)" using assms(2) by (rule dvd_trans)
    then show False by simp
  qed
  have "\<not> e dvd 2"
  proof
    assume "e dvd 2"
    then have "e = 2" using dvd_imp_le[of e 2] e1 by simp
    with odd show False by simp
  qed
  then have 1: "2 ^ (e - 1) mod e = 1" by (rule fermat_little[OF assms(1)])
  have "(2::nat) ^ 31 mod e = 1 mod e"
    using assms(2) by (intro mod_eq_dvd_iff_nat[THEN iffD2]) auto
  then have 2: "(2::nat) ^ 31 mod e = 1" using e1 by simp
  have g: "2 ^ gcd (e - 1) 31 mod e = 1" by (rule pow_one_gcd[OF 1 2])
  have "gcd (e - 1) 31 \<noteq> 1"
  proof
    assume "gcd (e - 1) 31 = 1"
    then have "2 mod e = 1" using g by simp
    moreover have "2 < e" using e1 odd by (cases "e = 2") auto
    ultimately show False by simp
  qed
  then have "gcd (e - 1) 31 = 31" using dvd31 gcd_dvd2 by blast
  then have "31 dvd e - 1" by (metis gcd_dvd1)
  moreover have "2 dvd e - 1" using odd e1 by simp
  moreover have "coprime (31::nat) 2" by simp
  ultimately have "31 * 2 dvd e - 1" by (metis divides_mult)
  then obtain j where "e - 1 = 62 * j" by (auto elim: dvdE)
  with e1 show ?thesis by (intro that[of j]) auto
qed

lemma mersenne31_prime: "is_prime 2147483647"
proof (rule ccontr)
  assume np: "\<not> is_prime 2147483647"
  obtain e where e: "is_prime e" "e dvd 2147483647" "e * e \<le> 2147483647"
    using least_divisor_prime[of 2147483647] np by auto
  obtain j where j: "e = 62 * j + 1" "0 < j" by (rule mersenne31_factor[OF e(1,2)])
  have "j < 748"
  proof (rule ccontr)
    assume "\<not> j < 748"
    then have "46377 * 46377 \<le> e * e" using j by (intro mult_le_mono) auto
    with e(3) show False by simp
  qed
  then have "int j \<in> set [1..747]" using j(2) by simp
  then have "(2147483647::int) mod (62 * int j + 1) \<noteq> 0"
    by (rule bspec[OF mersenne31_trial[unfolded list_all_iff]])
  moreover have "int e dvd int 2147483647" using e(2) by (simp only: int_dvd_int_iff)
  ultimately show False using j(1) by (simp add: dvd_eq_mod_eq_0 add.commute)
qed

end
