(* ===== verification/Field31.thy ===== *)
theory Field31
  imports Hash Prime31 "HOL-Library.Numeral_Type"
begin

text \<open>
  The field of the MatMul proof of work, \<open>matmul/field.cpp\<close>: arithmetic modulo the Mersenne prime
  \<open>2^31 - 1\<close> on 32-bit elements, the dot products and the seeded element oracle. An
  \<open>assert\<close> that fails is \<open>None\<close>; so is a read beyond the end of an array.
\<close>

type_synonym Element = u32

abbreviation MODULUS :: Element where "MODULUS \<equiv> 0x7FFFFFFF"

abbreviation q31 :: nat where "q31 \<equiv> 2147483647"

section \<open>Operations\<close>

definition reduce64 :: "u64 \<Rightarrow> Element" where
  "reduce64 x =
     (let fold1 = (x AND 0x7FFFFFFF) + drop_bit 31 x;
          lo = (ucast (fold1 AND 0x7FFFFFFF) :: u32);
          hi = (ucast (drop_bit 31 fold1) :: u32);
          result = lo + hi;
          ge_mask = (if result \<ge> MODULUS then - 1 else 0)
      in result - (MODULUS AND ge_mask))"

definition field_add :: "Element \<Rightarrow> Element \<Rightarrow> Element option" where
  "field_add a b =
     (if \<not> (a < MODULUS \<and> b < MODULUS) then None
      else let s = a + b in Some (if s \<ge> MODULUS then s - MODULUS else s))"

definition field_sub :: "Element \<Rightarrow> Element \<Rightarrow> Element option" where
  "field_sub a b =
     (if \<not> (a < MODULUS \<and> b < MODULUS) then None
      else Some (if a \<ge> b then a - b else a + MODULUS - b))"

definition field_mul :: "Element \<Rightarrow> Element \<Rightarrow> Element option" where
  "field_mul a b =
     (if \<not> (a < MODULUS \<and> b < MODULUS) then None
      else Some (reduce64 (ucast a * ucast b)))"

definition field_neg :: "Element \<Rightarrow> Element" where
  "field_neg a = (if a = 0 then 0 else MODULUS - a)"

definition from_uint32 :: "u32 \<Rightarrow> Element" where
  "from_uint32 x = reduce64 (ucast x)"

text \<open>Square and multiply: the loop of \<open>inv\<close>.\<close>

function inv_loop :: "u32 \<Rightarrow> Element \<Rightarrow> Element \<Rightarrow> Element option" where
  "inv_loop ex res base =
     (if ex = 0 then Some res
      else do {
        res' \<leftarrow> (if ex AND 1 \<noteq> 0 then field_mul res base else Some res);
        let ex' = drop_bit 1 ex in do {
          base' \<leftarrow> (if ex' > 0 then field_mul base base else Some base);
          inv_loop ex' res' base'
        }
      })"
  by pat_completeness auto

termination
proof (relation "measure (\<lambda>(ex, _, _). unat ex)", goal_cases)
  case (2 ex res base res' ex' base')
  then have "0 < unat ex" by (simp add: unat_gt_0)
  with 2 show ?case by (simp add: unat_drop_bit_eq drop_bit_eq_div[of _ "unat ex"])
qed simp

declare inv_loop.simps [simp del]

definition field_inv :: "Element \<Rightarrow> Element option" where
  "field_inv a = (if a = 0 then None else inv_loop (MODULUS - 2) 1 a)"

text \<open>\<open>ScalarDot\<close>: the state of its loop is the accumulator and the number of pending products.\<close>

definition scalar_dot_step :: "Element list \<Rightarrow> Element list \<Rightarrow> nat \<Rightarrow> u64 \<times> u32 \<Rightarrow> (u64 \<times> u32) option" where
  "scalar_dot_step a b i = (\<lambda>(acc, pending). do {
     x \<leftarrow> nth_opt a i;
     y \<leftarrow> nth_opt b i;
     let acc = acc + ucast x * ucast y; pending = pending + 1 in
     if pending = 4 then Some (ucast (reduce64 acc), 0) else Some (acc, pending)
   })"

definition ScalarDot :: "Element list \<Rightarrow> Element list \<Rightarrow> nat \<Rightarrow> Element option" where
  "ScalarDot a b len = do {
     (acc, pending) \<leftarrow> for_opt (scalar_dot_step a b) 0 len (0, 0);
     Some (reduce64 acc)
   }"

text \<open>\<open>NeonDot\<close>: groups of four lanes, each reduced, then the scalar kernel on what remains. The
  counter \<open>i\<close> is a \<open>uint32_t\<close>: \<open>i + 4\<close> wraps around in the loop condition and in the increment,
  so the loop need not end.\<close>

definition neon_step :: "Element list \<Rightarrow> Element list \<Rightarrow> nat \<Rightarrow> u64 \<Rightarrow> u64 option" where
  "neon_step a b i acc = do {
     x0 \<leftarrow> nth_opt a i; x1 \<leftarrow> nth_opt a (i + 1); x2 \<leftarrow> nth_opt a (i + 2); x3 \<leftarrow> nth_opt a (i + 3);
     y0 \<leftarrow> nth_opt b i; y1 \<leftarrow> nth_opt b (i + 1); y2 \<leftarrow> nth_opt b (i + 2); y3 \<leftarrow> nth_opt b (i + 3);
     Some (ucast (reduce64 (acc + ucast x0 * ucast y0 + ucast x1 * ucast y1 +
                                  ucast x2 * ucast y2 + ucast x3 * ucast y3)))
   }"

partial_function (option) neon_loop ::
    "Element list \<Rightarrow> Element list \<Rightarrow> nat \<Rightarrow> nat \<Rightarrow> u64 \<Rightarrow> (nat \<times> u64) option" where
  "neon_loop a b len i acc =
     (if w32 (i + 4) \<le> len then do {
        acc \<leftarrow> neon_step a b i acc;
        neon_loop a b len (w32 (i + 4)) acc
      } else Some (i, acc))"

definition NeonDot :: "Element list \<Rightarrow> Element list \<Rightarrow> nat \<Rightarrow> Element option" where
  "NeonDot a b len = do {
     (i, acc) \<leftarrow> neon_loop a b len 0 0;
     tail \<leftarrow> ScalarDot (drop i a) (drop i b) (w32 (len + (2 ^ 32 - i)));
     field_add (reduce64 acc) tail
   }"

definition NeonDotSelfTest :: "bool option" where
  "NeonDotSelfTest = do {
     let a = map (\<lambda>i. ucast ((of_nat i * 2654435761 :: u64) mod 0x7FFFFFFF) :: Element) [0..<37];
         b = map (\<lambda>i. ucast ((0x7FFFFFFE - (of_nat i * 40503 :: u64) mod 0x7FFFFFFF) mod 0x7FFFFFFF) :: Element)
               [0..<37] in do {
     neon \<leftarrow> NeonDot a b 37;
     scalar \<leftarrow> ScalarDot a b 37;
     Some (neon = scalar)
   }}"

text \<open>\<open>dot\<close> on a platform with (\<open>True\<close>) or without NEON.\<close>

definition field_dot :: "bool \<Rightarrow> Element list \<Rightarrow> Element list \<Rightarrow> nat \<Rightarrow> Element option" where
  "field_dot neon a b len =
     (if neon then do {
        neon_trusted \<leftarrow> NeonDotSelfTest;
        if neon_trusted then NeonDot a b len else ScalarDot a b len
      } else ScalarDot a b len)"

text \<open>\<open>from_oracle\<close>: up to 256 tries, then the fallback hash.\<close>

definition oracle_hash :: "bytes \<Rightarrow> u32 \<Rightarrow> nat \<Rightarrow> bytes" where
  "oracle_hash seed_bytes index retry =
     (let hasher = Write256 (Write256 CSHA256_init seed_bytes) (WriteLE32 index);
          hasher = (if retry > 0 then Write256 hasher (WriteLE32 (of_nat retry)) else hasher)
      in fst (Finalize256 hasher))"

definition oracle_fallback :: "bytes \<Rightarrow> u32 \<Rightarrow> Element" where
  "oracle_fallback seed_bytes index =
     (let tag = [0x6f, 0x72, 0x61, 0x63, 0x6c, 0x65, 0x2d, 0x66, 0x61, 0x6c, 0x6c, 0x62, 0x61, 0x63, 0x6b];
          hasher = Write256 (Write256 (Write256 CSHA256_init seed_bytes) (WriteLE32 index)) tag
      in ReadLE32 (fst (Finalize256 hasher)) mod MODULUS)"

fun oracle_loop :: "bytes \<Rightarrow> u32 \<Rightarrow> nat \<Rightarrow> nat \<Rightarrow> Element" where
  "oracle_loop seed_bytes index retry 0 = oracle_fallback seed_bytes index"
| "oracle_loop seed_bytes index retry (Suc n) =
     (let candidate = ReadLE32 (oracle_hash seed_bytes index retry) AND MODULUS
      in if candidate < MODULUS then candidate else oracle_loop seed_bytes index (Suc retry) n)"

definition from_oracle :: "uint256 \<Rightarrow> u32 \<Rightarrow> Element" where
  "from_oracle seed index = oracle_loop (rev seed) index 0 256"

section \<open>Reduction\<close>

lemma nat_mersenne_fold: "(x mod 2 ^ 31 + x div 2 ^ 31) mod q31 = x mod q31"
proof -
  have "x mod 2 ^ 31 + x div 2 ^ 31 + x div 2 ^ 31 * q31 = x"
    using mod_div_mult_eq[of x "2 ^ 31"] by simp
  moreover have "(x mod 2 ^ 31 + x div 2 ^ 31 + x div 2 ^ 31 * q31) mod q31 =
      (x mod 2 ^ 31 + x div 2 ^ 31) mod q31"
    by (rule mod_mult_self1)
  ultimately show ?thesis by (simp only:)
qed

lemma unat_and_mask31: "unat (x AND 0x7FFFFFFF :: u64) = unat x mod 2 ^ 31"
proof -
  have e: "(0x7FFFFFFF :: u64) = mask 31" by (simp add: mask_eq_exp_minus_1)
  show ?thesis unfolding e take_bit_eq_mask[symmetric] unsigned_take_bit_eq by (rule take_bit_eq_mod)
qed

lemma unat_drop31: "unat (drop_bit 31 (x :: u64)) = unat x div 2 ^ 31"
  unfolding unat_drop_bit_eq by (rule drop_bit_eq_div)

lemma unat_ucast_small: "unat x < 2 ^ 32 \<Longrightarrow> unat (ucast (x :: u64) :: u32) = unat x"
  by (simp add: unsigned_ucast_eq take_bit_nat_eq_self)

lemma unat_add_lt: "unat a + unat b < 2 ^ LENGTH('a) \<Longrightarrow> unat (a + b) = unat a + unat (b :: 'a::len word)"
  by (simp add: unat_word_ariths)

lemma unat_mult_lt: "unat a * unat b < 2 ^ LENGTH('a) \<Longrightarrow> unat (a * b) = unat a * unat (b :: 'a::len word)"
  by (simp add: unat_word_ariths)

lemma reduce64_correct: "unat (reduce64 x) = unat x mod q31"
proof -
  define f where "f = (x AND 0x7FFFFFFF) + drop_bit 31 x"
  have x: "unat x < 2 ^ 64" using unat_lt[of x] by simp
  have m: "unat x mod 2 ^ 31 < 2 ^ 31" and d: "unat x div 2 ^ 31 < 2 ^ 33"
    using x by (simp_all add: less_mult_imp_div_less)
  have f: "unat f = unat x mod 2 ^ 31 + unat x div 2 ^ 31"
    unfolding f_def using m d
    by (subst unat_add_lt) (simp_all add: unat_and_mask31 unat_drop31)
  define lo hi where "lo = (ucast (f AND 0x7FFFFFFF) :: u32)" and "hi = (ucast (drop_bit 31 f) :: u32)"
  have fd: "unat f div 2 ^ 31 \<le> 4" using f m d by simp
  have lo: "unat lo = unat f mod 2 ^ 31" and hi: "unat hi = unat f div 2 ^ 31"
    unfolding lo_def hi_def using fd
    by (subst unat_ucast_small; simp add: unat_and_mask31 unat_drop31)+
  have "unat f mod 2 ^ 31 < 2 ^ 31" by simp
  then have r: "unat (lo + hi) = unat f mod 2 ^ 31 + unat f div 2 ^ 31"
    using fd by (subst unat_add_lt) (simp_all add: lo hi)
  have mod: "unat (lo + hi) mod q31 = unat x mod q31"
    unfolding r nat_mersenne_fold f by (rule refl)
  have bound: "unat (lo + hi) < 2 * q31" unfolding r using fd \<open>unat f mod 2 ^ 31 < 2 ^ 31\<close> by simp
  show ?thesis
  proof (cases "lo + hi \<ge> MODULUS")
    case True
    then have ge: "q31 \<le> unat (lo + hi)" by (simp add: word_le_nat_alt)
    have "unat (reduce64 x) = unat (lo + hi) - q31"
      using True by (simp add: reduce64_def Let_def f_def[symmetric] lo_def[symmetric]
          hi_def[symmetric] unat_sub)
    also have "\<dots> = unat (lo + hi) mod q31" using ge bound by (simp add: le_mod_geq)
    finally show ?thesis using mod by simp
  next
    case False
    then have "unat (lo + hi) < q31" by (simp add: word_le_nat_alt)
    with False mod show ?thesis
      by (simp add: reduce64_def Let_def f_def[symmetric] lo_def[symmetric] hi_def[symmetric])
  qed
qed

lemma reduce64_less: "unat (reduce64 x) < q31"
  by (simp add: reduce64_correct)

section \<open>The field operations\<close>

text \<open>A field element is a reduced residue.\<close>

abbreviation felem :: "Element \<Rightarrow> bool" where "felem a \<equiv> unat a < q31"

lemma felem_less: "a < MODULUS \<longleftrightarrow> felem a"
  by (simp add: word_less_nat_alt)

lemma field_add_correct:
  assumes "felem a" "felem b"
  obtains c where "field_add a b = Some c" "unat c = (unat a + unat b) mod q31" "felem c"
proof -
  have s: "unat (a + b) = unat a + unat b" using assms by (intro unat_add_lt) simp
  show ?thesis
  proof (cases "a + b \<ge> MODULUS")
    case True
    then have "q31 \<le> unat a + unat b" by (simp add: word_le_nat_alt s)
    with True assms s show ?thesis
      by (intro that[of "a + b - MODULUS"]) (simp_all add: field_add_def felem_less unat_sub le_mod_geq)
  next
    case False
    then have "unat a + unat b < q31" by (simp add: word_le_nat_alt s)
    with False assms s show ?thesis
      by (intro that[of "a + b"]) (simp_all add: field_add_def felem_less)
  qed
qed

lemma field_sub_correct:
  assumes "felem a" "felem b"
  obtains c where "field_sub a b = Some c" "unat c = (unat a + (q31 - unat b)) mod q31" "felem c"
proof (cases "a \<ge> b")
  case True
  then have le: "unat b \<le> unat a" by (simp add: word_le_nat_alt)
  have "unat a + (q31 - unat b) = unat a - unat b + q31" using le assms by linarith
  then have "(unat a + (q31 - unat b)) mod q31 = unat a - unat b"
    using assms by (simp only: mod_add_self2) (simp add: less_imp_diff_less)
  moreover have "unat (a - b) = unat a - unat b" using True by (rule unat_sub)
  moreover have "field_sub a b = Some (a - b)" using True assms by (simp add: field_sub_def felem_less)
  ultimately show ?thesis using assms by (intro that[of "a - b"]) auto
next
  case False
  then have lt: "unat a < unat b" by (simp add: word_le_nat_alt)
  have s: "unat (a + MODULUS) = unat a + q31" using assms by (subst unat_add_lt) simp_all
  have "b \<le> a + MODULUS" unfolding word_le_nat_alt s using assms by linarith
  then have u: "unat (a + MODULUS - b) = unat a + q31 - unat b" by (simp only: unat_sub s)
  have "unat a + (q31 - unat b) = unat a + q31 - unat b" using assms by linarith
  then have "(unat a + (q31 - unat b)) mod q31 = unat a + q31 - unat b"
    using lt assms by (simp only: mod_less)
  moreover have "field_sub a b = Some (a + MODULUS - b)"
    using False assms by (simp add: field_sub_def felem_less)
  ultimately show ?thesis using u lt assms by (intro that[of "a + MODULUS - b"]) auto
qed

lemma unat_ucast_up: "unat (ucast (a :: u32) :: u64) = unat a"
  using unat_lt[of a] by (simp add: unsigned_ucast_eq take_bit_nat_eq_self)

lemma unat_prod64: "unat (ucast (a :: u32) * ucast (b :: u32) :: u64) = unat a * unat b"
proof -
  have "unat a * unat b \<le> (2 ^ 32 - 1) * (2 ^ 32 - 1)"
    using unat_lt[of a] unat_lt[of b] by (intro mult_le_mono) simp_all
  then show ?thesis by (subst unat_mult_lt) (simp_all add: unat_ucast_up)
qed

lemma field_mul_correct:
  assumes "felem a" "felem b"
  obtains c where "field_mul a b = Some c" "unat c = unat a * unat b mod q31" "felem c"
  using assms by (intro that[of "reduce64 (ucast a * ucast b)"])
    (simp_all add: field_mul_def felem_less reduce64_correct unat_prod64)

lemma from_uint32_correct: "unat (from_uint32 x) = unat x mod q31"
  by (simp add: from_uint32_def reduce64_correct unat_ucast_up)

lemma field_neg_correct:
  assumes "felem a"
  shows "unat (field_neg a) = (q31 - unat a) mod q31"
proof (cases "a = 0")
  case False
  have "unat (MODULUS - a) = q31 - unat a" using assms by (subst unat_sub) (simp_all add: word_le_nat_alt)
  moreover have "q31 - unat a < q31" using False by (simp add: unat_gt_0)
  ultimately show ?thesis using False by (simp add: field_neg_def)
qed (simp add: field_neg_def)

section \<open>Dot products\<close>

text \<open>The specification: the integer dot product of the first \<open>n\<close> entries.\<close>

definition dot_nat :: "Element list \<Rightarrow> Element list \<Rightarrow> nat \<Rightarrow> nat" where
  "dot_nat a b n = (\<Sum>i<n. unat (a ! i) * unat (b ! i))"

lemma dot_nat_Suc: "dot_nat a b (Suc n) = dot_nat a b n + unat (a ! n) * unat (b ! n)"
  by (simp add: dot_nat_def)

definition felems :: "Element list \<Rightarrow> bool" where
  "felems xs \<longleftrightarrow> (\<forall>x \<in> set xs. felem x)"

lemma felems_nth: "felems xs \<Longrightarrow> i < length xs \<Longrightarrow> felem (xs ! i)"
  by (simp add: felems_def)

lemma felems_drop: "felems xs \<Longrightarrow> felems (drop n xs)"
  by (auto simp: felems_def dest: in_set_dropD)

text \<open>The largest product of two elements.\<close>

abbreviation prod_max :: nat where "prod_max \<equiv> 4611686009837453316"

lemma felem_prod: "felem x \<Longrightarrow> felem y \<Longrightarrow> unat x * unat y \<le> prod_max"
  using mult_le_mono[of "unat x" 2147483646 "unat y" 2147483646] by simp

lemma unat_acc:
  assumes "felem x" "felem y" and "unat acc + prod_max < 18446744073709551616"
  shows "unat (acc + ucast x * ucast y :: u64) = unat acc + unat x * unat y"
proof -
  have "unat acc + unat x * unat y < 18446744073709551616"
    using felem_prod[OF assms(1,2)] assms(3) by linarith
  then show ?thesis by (subst unat_add_lt) (simp_all add: unat_prod64)
qed

text \<open>The invariant of the scalar loop: the accumulator is congruent to the partial dot product
  and bounded by a residue and the pending products, so that it never wraps around.\<close>

definition scalar_inv :: "Element list \<Rightarrow> Element list \<Rightarrow> nat \<Rightarrow> u64 \<times> u32 \<Rightarrow> bool" where
  "scalar_inv a b i = (\<lambda>(acc, pending).
     unat pending < 4 \<and> unat acc < q31 + unat pending * prod_max \<and>
     unat acc mod q31 = dot_nat a b i mod q31)"

lemma scalar_dot_step_inv:
  assumes f: "felems a" "felems b" and i: "i < length a" "i < length b"
    and inv: "scalar_inv a b i (acc, pending)"
  shows "\<exists>t. scalar_dot_step a b i (acc, pending) = Some t \<and> scalar_inv a b (Suc i) t"
proof -
  let ?acc = "acc + ucast (a ! i) * ucast (b ! i) :: u64"
  have e: "felem (a ! i)" "felem (b ! i)" using f i by (auto intro: felems_nth)
  from inv have p: "unat pending \<le> 3" and acc: "unat acc < q31 + unat pending * prod_max"
    and m: "unat acc mod q31 = dot_nat a b i mod q31" by (auto simp: scalar_inv_def)
  have "unat pending * prod_max \<le> 3 * prod_max" using p by (rule mult_le_mono1)
  then have u: "unat ?acc = unat acc + unat (a ! i) * unat (b ! i)"
    using e acc by (intro unat_acc) linarith+
  have m': "unat ?acc mod q31 = dot_nat a b (Suc i) mod q31"
    unfolding u dot_nat_Suc by (rule mod_add_cong[OF m refl])
  have up: "unat (pending + 1) = unat pending + 1"
    using p by (subst unat_add_lt) simp_all
  have b: "unat ?acc < q31 + unat (pending + 1) * prod_max"
    unfolding u up add_mult_distrib using acc felem_prod[OF e] by linarith
  show ?thesis
  proof (cases "pending + 1 = 4")
    case True
    then show ?thesis using i m'
      by (simp add: scalar_dot_step_def scalar_inv_def Let_def reduce64_correct unat_ucast_up)
  next
    case False
    have "unat (pending + 1) \<noteq> 4"
    proof
      assume "unat (pending + 1) = 4"
      then have "pending + 1 = 4" by (intro word_unat_eq_iff[THEN iffD2]) simp
      with False show False by simp
    qed
    then have "unat (pending + 1) < 4" using p up by linarith
    with False i m' b show ?thesis
      by (simp add: scalar_dot_step_def scalar_inv_def Let_def)
  qed
qed

lemma ScalarDot_correct:
  assumes f: "felems a" "felems b" and n: "n \<le> length a" "n \<le> length b"
  obtains c where "ScalarDot a b n = Some c" "unat c = dot_nat a b n mod q31" "felem c"
proof -
  have "\<exists>t. for_opt (scalar_dot_step a b) 0 n (0, 0) = Some t \<and> scalar_inv a b (0 + n) t"
  proof (rule for_opt_rule)
    show "scalar_inv a b 0 (0, 0)" by (simp add: scalar_inv_def dot_nat_def)
  next
    fix j t assume "j < 0 + n" "scalar_inv a b j t"
    then show "\<exists>u. scalar_dot_step a b j t = Some u \<and> scalar_inv a b (Suc j) u"
      using scalar_dot_step_inv[OF f, of j "fst t" "snd t"] n by simp
  qed
  then obtain acc pending where "for_opt (scalar_dot_step a b) 0 n (0, 0) = Some (acc, pending)"
    "scalar_inv a b n (acc, pending)" by auto
  then show ?thesis
    by (intro that[of "reduce64 acc"]) (auto simp: ScalarDot_def reduce64_correct scalar_inv_def)
qed

lemma neon_step_correct:
  assumes f: "felems a" "felems b" and g: "4 * g + 4 \<le> length a" "4 * g + 4 \<le> length b"
    and acc: "unat acc < q31" "unat acc = dot_nat a b (4 * g) mod q31"
  shows "\<exists>t. neon_step a b (4 * g) acc = Some t \<and> unat t < q31 \<and>
    unat t = dot_nat a b (4 * Suc g) mod q31"
proof -
  let ?i = "4 * g"
  have e: "felem (a ! ?i)" "felem (a ! (?i + 1))" "felem (a ! (?i + 2))" "felem (a ! (?i + 3))"
    "felem (b ! ?i)" "felem (b ! (?i + 1))" "felem (b ! (?i + 2))" "felem (b ! (?i + 3))"
    using f g by (auto intro: felems_nth)
  define s1 s2 s3 s4 :: u64 where
    "s1 = acc + ucast (a ! ?i) * ucast (b ! ?i)" and
    "s2 = s1 + ucast (a ! (?i + 1)) * ucast (b ! (?i + 1))" and
    "s3 = s2 + ucast (a ! (?i + 2)) * ucast (b ! (?i + 2))" and
    "s4 = s3 + ucast (a ! (?i + 3)) * ucast (b ! (?i + 3))"
  note p = felem_prod[OF e(1,5)] felem_prod[OF e(2,6)] felem_prod[OF e(3,7)] felem_prod[OF e(4,8)]
  have 1: "unat s1 = unat acc + unat (a ! ?i) * unat (b ! ?i)"
    unfolding s1_def by (rule unat_acc[OF e(1,5)]) (use acc(1) in linarith)
  have 2: "unat s2 = unat s1 + unat (a ! (?i + 1)) * unat (b ! (?i + 1))"
    unfolding s2_def by (rule unat_acc[OF e(2,6)]) (use acc(1) 1 p in linarith)
  have 3: "unat s3 = unat s2 + unat (a ! (?i + 2)) * unat (b ! (?i + 2))"
    unfolding s3_def by (rule unat_acc[OF e(3,7)]) (use acc(1) 1 2 p in linarith)
  have 4: "unat s4 = unat s3 + unat (a ! (?i + 3)) * unat (b ! (?i + 3))"
    unfolding s4_def by (rule unat_acc[OF e(4,8)]) (use acc(1) 1 2 3 p in linarith)
  have i4: "4 * Suc g = Suc (Suc (Suc (Suc ?i)))" by simp
  have d: "dot_nat a b (4 * Suc g) = dot_nat a b ?i + (unat s4 - unat acc)"
    unfolding i4 dot_nat_Suc using 1 2 3 4 by (simp add: numeral_2_eq_2 numeral_3_eq_3)
  have "unat acc \<le> unat s4" using 1 2 3 4 by linarith
  then have "unat s4 mod q31 = (unat acc + (unat s4 - unat acc)) mod q31"
    by (simp only: le_add_diff_inverse)
  also have "\<dots> = dot_nat a b (4 * Suc g) mod q31"
    unfolding d by (rule mod_add_cong) (simp_all add: acc(2))
  finally have "unat (reduce64 s4) = dot_nat a b (4 * Suc g) mod q31" by (simp add: reduce64_correct)
  moreover have "neon_step a b (4 * g) acc = Some (ucast (reduce64 s4))"
    using g by (simp add: neon_step_def s1_def s2_def s3_def s4_def Let_def)
  ultimately show ?thesis by (simp add: unat_ucast_up reduce64_less)
qed

lemma dot_nat_split:
  "k \<le> n \<Longrightarrow> n \<le> length a \<Longrightarrow> n \<le> length b \<Longrightarrow>
   dot_nat a b n = dot_nat a b k + dot_nat (drop k a) (drop k b) (n - k)"
proof (induction n)
  case (Suc n)
  show ?case
  proof (cases "k = Suc n")
    case False
    then have "k \<le> n" using Suc.prems by simp
    with Suc show ?thesis by (simp add: dot_nat_Suc Suc_diff_le)
  qed (simp add: dot_nat_def)
qed (simp add: dot_nat_def)

text \<open>The lengths on which the four-lane counter does not wrap; the scalar kernel takes any.\<close>

definition dot_fits :: "bool \<Rightarrow> nat \<Rightarrow> bool" where
  "dot_fits neon n \<longleftrightarrow> (neon \<longrightarrow> n < 2 ^ 32 - 4)"

lemma dot_fits_mono: "dot_fits neon n \<Longrightarrow> m \<le> n \<Longrightarrow> dot_fits neon m"
  by (auto simp: dot_fits_def)

lemma neon_loop_groups:
  assumes n: "n < 2 ^ 32 - 4"
  shows "g + k = n div 4 \<Longrightarrow> neon_loop a b n (4 * g) acc =
    map_option (Pair (4 * (n div 4))) (for_opt (\<lambda>g. neon_step a b (4 * g)) g k acc)"
proof (induction k arbitrary: g acc)
  case 0
  then have g: "g = n div 4" by simp
  have "w32 (4 * g + 4) = 4 * g + 4" unfolding g by (rule w32_id) (use n in linarith)
  moreover have "\<not> 4 * g + 4 \<le> n" unfolding g by linarith
  ultimately show ?case by (subst neon_loop.simps) (simp add: g)
next
  case (Suc k)
  then have le: "4 * g + 4 \<le> n" by linarith
  have w: "w32 (4 * g + 4) = 4 * Suc g" using w32_id[of "4 * g + 4"] le n by simp
  have ih: "neon_loop a b n (4 * Suc g) acc' =
      map_option (Pair (4 * (n div 4))) (for_opt (\<lambda>g. neon_step a b (4 * g)) (Suc g) k acc')" for acc'
    by (rule Suc.IH) (use Suc.prems in simp)
  have le': "4 * Suc g \<le> n" using le by simp
  show ?case
    by (subst neon_loop.simps, unfold w ih)
      (use le' in \<open>simp split: bind_split add: map_option_bind\<close>)
qed

text \<open>Beyond these lengths the counter runs through all multiples of four again and again.\<close>

lemma neon_loop_no_result:
  "neon_loop a b n i acc = Some r \<Longrightarrow> 2 ^ 32 - 4 \<le> n \<longrightarrow> \<not> 4 dvd i"
proof (rule neon_loop.raw_induct[where P = "\<lambda>a b n i acc r. 2 ^ 32 - 4 \<le> n \<longrightarrow> \<not> 4 dvd i"])
  fix f a b n i acc r
  assume ih: "\<And>a b n i acc r. f a b n i acc = Some r \<Longrightarrow> 2 ^ 32 - 4 \<le> n \<longrightarrow> \<not> 4 dvd i"
    and r: "(if w32 (i + 4) \<le> n then do { acc \<leftarrow> neon_step a b i acc; f a b n (w32 (i + 4)) acc }
      else Some (i, acc)) = Some r"
  show "2 ^ 32 - 4 \<le> n \<longrightarrow> \<not> 4 dvd i"
  proof (intro impI notI)
    assume n: "2 ^ 32 - 4 \<le> n" and d: "4 dvd i"
    then obtain m where m: "i + 4 = 4 * m" by (metis dvd_add dvd_refl dvdE)
    have w: "w32 (i + 4) = 4 * (m mod 2 ^ 30)"
      unfolding w32_def m using mult_mod_right[of 4 m "2 ^ 30"] by simp
    have "m mod 2 ^ 30 < 2 ^ 30" by simp
    then have "4 * (m mod 2 ^ 30) \<le> 2 ^ 32 - 4" by simp
    then have le: "w32 (i + 4) \<le> n" using n unfolding w by (rule order_trans)
    then obtain acc' where "f a b n (w32 (i + 4)) acc' = Some r"
      using r by (auto simp: bind_eq_Some_conv)
    from ih[OF this] n show False unfolding w by (auto simp del: power_numeral)
  qed
qed

lemma neon_loop_diverges: "2 ^ 32 - 4 \<le> n \<Longrightarrow> 4 dvd i \<Longrightarrow> neon_loop a b n i acc = None"
  using neon_loop_no_result[of a b n i acc] by (cases "neon_loop a b n i acc") blast+

lemma NeonDot_diverges: "2 ^ 32 - 4 \<le> n \<Longrightarrow> NeonDot a b n = None"
  by (simp add: NeonDot_def neon_loop_diverges)

lemma NeonDot_correct:
  assumes f: "felems a" "felems b" and n: "n \<le> length a" "n \<le> length b" and fits: "n < 2 ^ 32 - 4"
  obtains c where "NeonDot a b n = Some c" "unat c = dot_nat a b n mod q31" "felem c"
proof -
  let ?k = "4 * (n div 4)"
  have "\<exists>t. for_opt (\<lambda>g. neon_step a b (4 * g)) 0 (n div 4) 0 = Some t \<and>
      (\<lambda>g (acc :: u64). unat acc < q31 \<and> unat acc = dot_nat a b (4 * g) mod q31) (0 + n div 4) t"
  proof (rule for_opt_rule)
    fix g and t :: u64 assume "g < 0 + n div 4" "unat t < q31 \<and> unat t = dot_nat a b (4 * g) mod q31"
    moreover have "4 * g + 4 \<le> n" using \<open>g < 0 + n div 4\<close> by simp
    ultimately show "\<exists>u. neon_step a b (4 * g) t = Some u \<and>
        unat u < q31 \<and> unat u = dot_nat a b (4 * Suc g) mod q31"
      using neon_step_correct[OF f, of g t] n by simp
  qed (simp add: dot_nat_def)
  then obtain acc where acc: "for_opt (\<lambda>g. neon_step a b (4 * g)) 0 (n div 4) 0 = Some acc"
    "unat acc < q31" "unat acc = dot_nat a b ?k mod q31" by auto
  have loop: "neon_loop a b n 0 0 = Some (?k, acc)"
    using neon_loop_groups[OF fits, of 0 "n div 4" a b 0] acc(1) by simp
  have len: "w32 (n + (2 ^ 32 - ?k)) = n - ?k"
  proof -
    have "n + (2 ^ 32 - ?k) = (n - ?k) + 2 ^ 32" using fits by linarith
    moreover have "n - ?k < 2 ^ 32" using fits by linarith
    ultimately show ?thesis by (simp only: w32_def mod_add_self2 mod_less)
  qed
  obtain t where t: "ScalarDot (drop ?k a) (drop ?k b) (n - ?k) = Some t"
    "unat t = dot_nat (drop ?k a) (drop ?k b) (n - ?k) mod q31" "felem t"
    using f n by (rule_tac ScalarDot_correct[of "drop ?k a" "drop ?k b" "n - ?k"])
      (auto simp: felems_drop)
  have r: "unat (reduce64 acc) = dot_nat a b ?k mod q31" using acc by (simp add: reduce64_correct)
  obtain c where c: "field_add (reduce64 acc) t = Some c"
    "unat c = (unat (reduce64 acc) + unat t) mod q31" "felem c"
    by (rule field_add_correct[OF reduce64_less t(3)])
  have "dot_nat a b n = dot_nat a b ?k + dot_nat (drop ?k a) (drop ?k b) (n - ?k)"
    by (rule dot_nat_split) (use n in auto)
  then have dc: "unat c = dot_nat a b n mod q31"
    unfolding c(2) r t(2) by (simp only: mod_add_eq)
  have "NeonDot a b n = Some c" unfolding NeonDot_def loop
    by (simp only: bind.bind_lunit prod.case len t(1) c(1))
  then show ?thesis using dc c(3) by (rule that)
qed

lemma NeonDot_ScalarDot:
  assumes f: "felems a" "felems b" and n: "n \<le> length a" "n \<le> length b" and fits: "n < 2 ^ 32 - 4"
  shows "NeonDot a b n = ScalarDot a b n"
proof -
  obtain c where c: "NeonDot a b n = Some c" "unat c = dot_nat a b n mod q31"
    by (rule NeonDot_correct[OF f n fits])
  obtain d where d: "ScalarDot a b n = Some d" "unat d = dot_nat a b n mod q31"
    by (rule ScalarDot_correct[OF f n])
  have "c = d" by (rule word_unat_eq_iff[THEN iffD2]) (simp add: c d)
  with c d show ?thesis by simp
qed

section \<open>Inverses\<close>

lemma u32_half: "unat (ex :: u32) = 2 * unat (drop_bit 1 ex) + of_bool (ex AND 1 \<noteq> 0)"
proof -
  have d: "unat (drop_bit 1 ex) = unat ex div 2"
    unfolding unat_drop_bit_eq using drop_bit_eq_div[of 1 "unat ex"] by simp
  have "ex AND 1 = take_bit 1 ex" by (simp add: take_bit_eq_mask)
  then have "unat (ex AND 1) = unat ex mod 2"
    by (simp only: unsigned_take_bit_eq) (simp add: take_bit_eq_mod)
  moreover have "(ex AND 1 \<noteq> 0) = (unat (ex AND 1) \<noteq> 0)" by (simp only: unat_eq_0)
  ultimately have "of_bool (ex AND 1 \<noteq> 0) = unat ex mod 2" by (auto simp: mod_2_eq_odd)
  with d show ?thesis by simp
qed

lemma pow_square_mod: "r * (b * b mod q) ^ n mod q = r * b ^ (2 * n) mod (q::nat)"
proof -
  have "(b * b mod q) ^ n mod q = b ^ (2 * n) mod q"
    by (simp add: power_mod power_mult power2_eq_square)
  then show ?thesis by (metis mod_mult_right_eq)
qed

lemma inv_loop_correct:
  "felem res \<Longrightarrow> felem base \<Longrightarrow>
   \<exists>c. inv_loop ex res base = Some c \<and> unat c = unat res * unat base ^ unat ex mod q31 \<and> felem c"
proof (induction ex res base rule: inv_loop.induct)
  case (1 ex res base)
  show ?case
  proof (cases "ex = 0")
    case True
    with 1 show ?thesis by (simp add: inv_loop.simps)
  next
    case False
    let ?e = "drop_bit 1 ex"
    let ?o = "of_bool (ex AND 1 \<noteq> 0) :: nat"
    obtain res' where r: "(if ex AND 1 \<noteq> 0 then field_mul res base else Some res) = Some res'"
      "unat res' = unat res * unat base ^ ?o mod q31" "felem res'"
      using 1(2,3) by (cases "ex AND 1 = 0") (auto elim: field_mul_correct[of res base])
    obtain base' where b: "(if ?e > 0 then field_mul base base else Some base) = Some base'"
      "felem base'" "?e > 0 \<longrightarrow> unat base' = unat base * unat base mod q31"
      using 1(3) by (cases "?e > 0") (auto elim: field_mul_correct[of base base])
    have step: "inv_loop ex res base = inv_loop ?e res' base'"
      using False r(1) b(1) by (subst inv_loop.simps) (simp add: Let_def)
    obtain c where c: "inv_loop ?e res' base' = Some c"
      "unat c = unat res' * unat base' ^ unat ?e mod q31" "felem c"
      using 1(1)[OF False r(1) refl b(1) r(3) b(2)] by blast
    have "unat res' * unat base' ^ unat ?e mod q31 = unat res' * unat base ^ (2 * unat ?e) mod q31"
    proof (cases "?e > 0")
      case True
      with b(3) show ?thesis by (simp only: pow_square_mod simp_thms)
    next
      case False
      then have "?e = 0" by (simp only: word_gt_0 simp_thms)
      then show ?thesis by (simp only: unsigned_0 mult_0_right power_0)
    qed
    also have "\<dots> = unat res * unat base ^ ?o * unat base ^ (2 * unat ?e) mod q31"
      unfolding r(2) by (rule mod_mult_left_eq)
    also have "\<dots> = unat res * unat base ^ unat ex mod q31"
      unfolding u32_half[of ex] by (simp only: power_add mult.assoc mult.commute[of "unat base ^ ?o"])
    finally show ?thesis using step c by simp
  qed
qed

lemma field_inv_correct:
  assumes "felem a" "a \<noteq> 0"
  obtains c where "field_inv a = Some c" "felem c" "field_mul a c = Some 1"
proof -
  have e: "unat (MODULUS - 2 :: u32) = q31 - 2" by simp
  obtain c where c: "inv_loop (MODULUS - 2) 1 a = Some c"
    "unat c = unat (1::u32) * unat a ^ unat (MODULUS - 2 :: u32) mod q31" "felem c"
    using inv_loop_correct[of 1 a "MODULUS - 2"] assms(1) by auto
  obtain d where d: "field_mul a c = Some d" "unat d = unat a * unat c mod q31"
    by (rule field_mul_correct[OF assms(1) c(3)])
  have "unat d = unat a * unat a ^ (q31 - 2) mod q31"
    unfolding d(2) c(2) e by (simp only: unsigned_1 mult_1 mod_mult_right_eq)
  also have "\<dots> = unat a ^ (q31 - 1) mod q31"
    by (simp only: power_Suc[symmetric]) simp
  also have "\<dots> = 1"
  proof (rule fermat_little[OF mersenne31_prime])
    show "\<not> q31 dvd unat a"
      using assms by (auto dest!: dvd_imp_le simp: unat_gt_0)
  qed
  finally have "d = 1" by (intro word_unat_eq_iff[THEN iffD2]) simp
  with d(1) c assms(2) show ?thesis by (intro that) (simp_all add: field_inv_def)
qed

section \<open>The element oracle\<close>

lemma and_modulus: "unat (x AND MODULUS) \<le> q31"
  using word_and_le1[of x MODULUS] by (simp add: word_le_nat_alt)

lemma from_oracle_felem: "felem (from_oracle seed index)"
proof -
  have "felem (oracle_loop sb index r n)" for sb r n
    by (induction n arbitrary: r)
      (simp_all add: oracle_fallback_def Let_def unat_mod felem_less)
  then show ?thesis by (simp add: from_oracle_def)
qed

section \<open>Dispatch\<close>

lemma felems_map_mod: "felems (map (\<lambda>i. ucast ((f i :: u64) mod 0x7FFFFFFF)) is)"
proof -
  have "felem (ucast (x mod 0x7FFFFFFF))" for x :: u64
  proof -
    have "unat (x mod 0x7FFFFFFF) = unat x mod q31" by (simp add: unat_mod)
    moreover have "unat x mod q31 < q31" by simp
    ultimately show ?thesis by (subst unat_ucast_small) simp_all
  qed
  then show ?thesis by (auto simp: felems_def)
qed

lemma NeonDotSelfTest_passes: "NeonDotSelfTest = Some True"
proof -
  define a b where
    "a = map (\<lambda>i. ucast ((of_nat i * 2654435761 :: u64) mod 0x7FFFFFFF) :: Element) [0..<37]" and
    "b = map (\<lambda>i. ucast ((0x7FFFFFFE - (of_nat i * 40503 :: u64) mod 0x7FFFFFFF) mod 0x7FFFFFFF) :: Element)
           [0..<37]"
  have f: "felems a" "felems b" unfolding a_def b_def by (rule felems_map_mod)+
  have n: "37 \<le> length a" "37 \<le> length b" "37 < (2::nat) ^ 32 - 4" by (simp_all add: a_def b_def)
  obtain c where "ScalarDot a b 37 = Some c" by (rule ScalarDot_correct[OF f n(1,2)])
  with NeonDot_ScalarDot[OF f n] show ?thesis
    unfolding NeonDotSelfTest_def a_def[symmetric] b_def[symmetric] Let_def by simp
qed

lemma field_dot_correct:
  assumes f: "felems a" "felems b" and n: "n \<le> length a" "n \<le> length b" and fits: "dot_fits neon n"
  obtains c where "field_dot neon a b n = Some c" "unat c = dot_nat a b n mod q31" "felem c"
proof -
  have e: "field_dot neon a b n = ScalarDot a b n"
    using fits by (auto simp: field_dot_def dot_fits_def NeonDotSelfTest_passes NeonDot_ScalarDot[OF f n])
  show ?thesis by (rule ScalarDot_correct[OF f n]) (rule that[unfolded e])
qed

lemma field_dot_fits: "field_dot neon a b n = Some c \<Longrightarrow> dot_fits neon n"
  by (cases "n < 2 ^ 32 - 4")
    (auto simp: dot_fits_def field_dot_def NeonDotSelfTest_passes NeonDot_diverges split: if_splits)

section \<open>The abstract field\<close>

text \<open>The residue ring as a type: the ring laws and the sum lemmas of the library apply to the
  values of elements.\<close>

type_synonym Z31 = 2147483647

definition fval :: "Element \<Rightarrow> Z31" where
  "fval x = of_nat (unat x)"

lemma of_nat_Z31_eq: "(of_nat m :: Z31) = of_nat n \<longleftrightarrow> m mod q31 = n mod q31"
proof
  assume "(of_nat m :: Z31) = of_nat n"
  then have "int m mod int CARD(Z31) = int n mod int CARD(Z31)"
    unfolding bit1.of_nat_eq using bit1.Rep_Abs_mod by metis
  then have "int (m mod q31) = int (n mod q31)" by (simp add: zmod_int)
  then show "m mod q31 = n mod q31" by (simp only: of_nat_eq_iff)
next
  assume "m mod q31 = n mod q31"
  then have "int (m mod q31) = int (n mod q31)" by (simp only:)
  then have "int m mod int CARD(Z31) = int n mod int CARD(Z31)" by (simp add: zmod_int)
  then show "(of_nat m :: Z31) = of_nat n" by (simp only: bit1.of_nat_eq)
qed

lemma of_nat_Z31_mod: "(of_nat (n mod q31) :: Z31) = of_nat n"
  by (simp only: of_nat_Z31_eq mod_mod_trivial)

lemma fval_eqI: "unat c = n mod q31 \<Longrightarrow> fval c = of_nat n"
  by (simp only: fval_def of_nat_Z31_mod)

lemma fval_inj: "felem a \<Longrightarrow> felem b \<Longrightarrow> fval a = fval b \<Longrightarrow> a = b"
  unfolding fval_def of_nat_Z31_eq by (simp add: word_unat_eq_iff)

lemma fval_0 [simp]: "fval 0 = 0" and fval_1 [simp]: "fval 1 = 1"
  by (simp_all add: fval_def)

lemma felem_0 [simp]: "felem 0" by simp

lemma field_add_fval:
  assumes "felem a" "felem b"
  obtains c where "field_add a b = Some c" "fval c = fval a + fval b" "felem c"
  by (rule field_add_correct[OF assms]) (rule that, assumption, simp only: fval_def of_nat_Z31_mod of_nat_add)

lemma field_mul_fval:
  assumes "felem a" "felem b"
  obtains c where "field_mul a b = Some c" "fval c = fval a * fval b" "felem c"
  by (rule field_mul_correct[OF assms]) (rule that, assumption, simp only: fval_def of_nat_Z31_mod of_nat_mult)

lemma field_sub_fval:
  assumes "felem a" "felem b"
  obtains c where "field_sub a b = Some c" "fval c = fval a - fval b" "felem c"
proof (rule field_sub_correct[OF assms])
  fix c assume c: "field_sub a b = Some c" "unat c = (unat a + (q31 - unat b)) mod q31" "felem c"
  have q0: "(of_nat q31 :: Z31) = 0" using of_nat_Z31_mod[of q31] by simp
  have "fval c = of_nat (unat a + (q31 - unat b))" by (rule fval_eqI[OF c(2)])
  also have "\<dots> = of_nat (unat a) + (of_nat q31 - of_nat (unat b))"
    using assms(2) by (simp only: of_nat_add of_nat_diff less_imp_le)
  finally have "fval c = fval a - fval b" by (simp only: fval_def q0 diff_0 diff_conv_add_uminus add_0)
  with c(1,3) show thesis by (intro that)
qed

lemma field_dot_fval:
  assumes f: "felems a" "felems b" and n: "n \<le> length a" "n \<le> length b" and fits: "dot_fits neon n"
  obtains c where "field_dot neon a b n = Some c" "fval c = (\<Sum>i<n. fval (a ! i) * fval (b ! i))" "felem c"
proof (rule field_dot_correct[OF f n fits])
  fix c assume c: "field_dot neon a b n = Some c" "unat c = dot_nat a b n mod q31" "felem c"
  have "fval c = of_nat (dot_nat a b n)" by (rule fval_eqI[OF c(2)])
  also have "\<dots> = (\<Sum>i<n. fval (a ! i) * fval (b ! i))"
    by (simp only: dot_nat_def fval_def of_nat_sum of_nat_mult)
  finally show thesis using c(1,3) by (intro that)
qed

lemma Z31_nat: obtains n where "x = (of_nat n :: Z31)" "n < q31"
proof (cases x rule: bit1.cases)
  case (1 z)
  then have "x = of_nat (nat z)" "nat z < q31" by simp_all
  then show ?thesis by (rule that)
qed

lemma Z31_no_zero_divisors: "x * y = (0 :: Z31) \<Longrightarrow> x = 0 \<or> y = 0"
proof -
  assume xy: "x * y = 0"
  obtain m n where mn: "x = of_nat m" "y = of_nat n" using Z31_nat[of x] Z31_nat[of y] by metis
  have z: "(of_nat k :: Z31) = 0 \<longleftrightarrow> q31 dvd k" for k
    using of_nat_Z31_eq[of k 0] by (simp add: dvd_eq_mod_eq_0)
  from xy mn have "q31 dvd m * n" by (simp flip: z)
  then have "q31 dvd m \<or> q31 dvd n" using prime_not_dvd_mult[OF mersenne31_prime] by blast
  with mn z show ?thesis by blast
qed

section \<open>Properties\<close>

text \<open>C8: the element operations are the field of integers modulo \<open>2^31 - 1\<close>: the double
  Mersenne fold reduces every 64-bit word exactly, addition, subtraction, multiplication and
  negation of elements return the residue of the integer result (negation of zero is zero, not the
  modulus), and \<open>inv\<close> refuses zero and returns a reduced inverse of every other element.\<close>

theorem field_operations_exact:
  assumes "felem a" and "felem b"
  shows "unat (reduce64 x) = unat x mod q31 \<and>
    map_option unat (field_add a b) = Some ((unat a + unat b) mod q31) \<and>
    map_option unat (field_sub a b) = Some ((unat a + (q31 - unat b)) mod q31) \<and>
    map_option unat (field_mul a b) = Some (unat a * unat b mod q31) \<and>
    unat (field_neg a) = (q31 - unat a) mod q31 \<and>
    (a \<noteq> 0 \<longrightarrow> (\<exists>i. field_inv a = Some i \<and> felem i \<and> field_mul a i = Some 1)) \<and>
    field_inv 0 = None"
proof (intro conjI impI)
  show "unat (reduce64 x) = unat x mod q31" by (rule reduce64_correct)
  show "map_option unat (field_add a b) = Some ((unat a + unat b) mod q31)"
    by (rule field_add_correct[OF assms]) simp
  show "map_option unat (field_sub a b) = Some ((unat a + (q31 - unat b)) mod q31)"
    by (rule field_sub_correct[OF assms]) simp
  show "map_option unat (field_mul a b) = Some (unat a * unat b mod q31)"
    by (rule field_mul_correct[OF assms]) simp
  show "unat (field_neg a) = (q31 - unat a) mod q31" by (rule field_neg_correct[OF assms(1)])
  show "field_inv 0 = None" by (simp add: field_inv_def)
  assume "a \<noteq> 0"
  then show "\<exists>i. field_inv a = Some i \<and> felem i \<and> field_mul a i = Some 1"
    by (rule field_inv_correct[OF assms(1)]) blast
qed

theorem field_operations_exact_witness:
  "map_option unat (field_mul 2147483646 2147483646) = Some 1 \<and>
   unat (field_neg 0) = 0 \<and> (\<exists>i. field_inv 7 = Some i \<and> felem i \<and> field_mul 7 i = Some 1)"
  using field_operations_exact[of 2147483646 2147483646 0] field_operations_exact[of 7 1 0]
    field_operations_exact[of 0 0 0]
  by simp

text \<open>C9: the NEON kernel, its self test and the dispatch in \<open>dot\<close>: on arrays of field
  elements shorter than \<open>2^32 - 4\<close>, where the 32-bit counter of the four-lane loop does not wrap,
  the four-lane kernel returns and equals the scalar one, the self test passes, and \<open>dot\<close> returns
  the integer dot product modulo \<open>2^31 - 1\<close> on either platform; the 64-bit accumulator never
  wraps around.\<close>

theorem dot_platform_independent:
  assumes "felems a" and "felems b" and "n \<le> length a" and "n \<le> length b" and "n < 2 ^ 32 - 4"
  shows "NeonDot a b n = ScalarDot a b n \<and> NeonDotSelfTest = Some True \<and>
    field_dot True a b n = field_dot False a b n \<and>
    map_option unat (field_dot neon a b n) = Some ((\<Sum>i<n. unat (a ! i) * unat (b ! i)) mod q31)"
proof (intro conjI)
  show "NeonDot a b n = ScalarDot a b n" by (rule NeonDot_ScalarDot[OF assms])
  then show "field_dot True a b n = field_dot False a b n"
    by (simp add: field_dot_def NeonDotSelfTest_passes)
  have "dot_fits neon n" using assms(5) by (simp add: dot_fits_def)
  then show "map_option unat (field_dot neon a b n) =
      Some ((\<Sum>i<n. unat (a ! i) * unat (b ! i)) mod q31)"
    by (rule field_dot_correct[OF assms(1-4)]) (simp add: dot_nat_def)
qed (rule NeonDotSelfTest_passes)

theorem dot_platform_independent_witness:
  "NeonDot (replicate 6 2147483646) (replicate 6 2147483646) 6 =
     ScalarDot (replicate 6 2147483646) (replicate 6 2147483646) 6"
  using dot_platform_independent[of "replicate 6 2147483646" "replicate 6 2147483646" 6]
  by (simp add: felems_def)

end
