(* ===== verification/Matrix.thy ===== *)
theory Matrix
  imports Field31
begin

text \<open>
  The matrices of the MatMul proof of work (\<open>matmul/matrix.cpp\<close>). Dimensions and indices are
  \<open>uint32_t\<close> values kept as naturals; where the source computes on them the wrap-around is
  written out with \<^const>\<open>w32\<close>. A failed \<open>assert\<close> and a thrown exception are \<open>None\<close>. The
  memory statistics of the class are left out.
\<close>

section \<open>The data\<close>

record Matrix =
  m_rows :: nat
  m_cols :: nat
  m_data :: "Element list"

definition matrix_new :: "nat \<Rightarrow> nat \<Rightarrow> Matrix" where
  "matrix_new rows cols = \<lparr>m_rows = rows, m_cols = cols, m_data = replicate (rows * cols) 0\<rparr>"

definition matrix_at :: "Matrix \<Rightarrow> nat \<Rightarrow> nat \<Rightarrow> Element option" where
  "matrix_at m row col =
     (if row < m_rows m \<and> col < m_cols m then nth_opt (m_data m) (row * m_cols m + col) else None)"

text \<open>Assignment through the reference that \<open>at\<close> returns.\<close>

definition matrix_set :: "Matrix \<Rightarrow> nat \<Rightarrow> nat \<Rightarrow> Element \<Rightarrow> Matrix option" where
  "matrix_set m row col v =
     (if row < m_rows m \<and> col < m_cols m \<and> row * m_cols m + col < length (m_data m)
      then Some (m\<lparr>m_data := (m_data m)[row * m_cols m + col := v]\<rparr>) else None)"

text \<open>A view: the elements from the view's pointer on, its extent and the row stride.\<close>

record ConstMatrixView =
  v_data :: "Element list"
  v_rows :: nat
  v_cols :: nat
  v_stride :: nat

definition view_at :: "ConstMatrixView \<Rightarrow> nat \<Rightarrow> nat \<Rightarrow> Element option" where
  "view_at v row col =
     (if row < v_rows v \<and> col < v_cols v then nth_opt (v_data v) (row * v_stride v + col) else None)"

definition view_row_ptr :: "ConstMatrixView \<Rightarrow> nat \<Rightarrow> Element list option" where
  "view_row_ptr v row = (if row < v_rows v then Some (drop (row * v_stride v) (v_data v)) else None)"

section \<open>Blocks\<close>

definition matrix_block :: "Matrix \<Rightarrow> nat \<Rightarrow> nat \<Rightarrow> nat \<Rightarrow> Matrix option" where
  "matrix_block m bi bj b =
     (let row0 = w32 (bi * b); col0 = w32 (bj * b) in
      if \<not> (b > 0 \<and> w32 (row0 + b) \<le> m_rows m \<and> w32 (col0 + b) \<le> m_cols m) then None
      else for_opt (\<lambda>r. for_opt (\<lambda>c out. do {
               v \<leftarrow> matrix_at m (w32 (row0 + r)) (w32 (col0 + c));
               matrix_set out r c v
             }) 0 b) 0 b (matrix_new b b))"

definition matrix_block_view :: "Matrix \<Rightarrow> nat \<Rightarrow> nat \<Rightarrow> nat \<Rightarrow> ConstMatrixView option" where
  "matrix_block_view m bi bj b =
     (let row0 = w32 (bi * b); col0 = w32 (bj * b) in
      if \<not> (b > 0 \<and> w32 (row0 + b) \<le> m_rows m \<and> w32 (col0 + b) \<le> m_cols m) then None
      else Some \<lparr>v_data = drop (row0 * m_cols m + col0) (m_data m),
                 v_rows = b, v_cols = b, v_stride = m_cols m\<rparr>)"

definition matrix_set_block :: "Matrix \<Rightarrow> nat \<Rightarrow> nat \<Rightarrow> nat \<Rightarrow> Matrix \<Rightarrow> Matrix option" where
  "matrix_set_block m bi bj b blk =
     (let row0 = w32 (bi * b); col0 = w32 (bj * b) in
      if \<not> (m_rows blk = b \<and> m_cols blk = b \<and>
            w32 (row0 + b) \<le> m_rows m \<and> w32 (col0 + b) \<le> m_cols m) then None
      else for_opt (\<lambda>r. for_opt (\<lambda>c out. do {
               v \<leftarrow> matrix_at blk r c;
               matrix_set out (w32 (row0 + r)) (w32 (col0 + c)) v
             }) 0 b) 0 b m)"

section \<open>Arithmetic\<close>

definition data_zip_loop ::
    "(Element \<Rightarrow> Element \<Rightarrow> Element option) \<Rightarrow> Matrix \<Rightarrow> Matrix \<Rightarrow> Matrix option" where
  "data_zip_loop f lhs rhs =
     (if \<not> (m_rows lhs = m_rows rhs \<and> m_cols lhs = m_cols rhs) then None
      else for_opt (\<lambda>i out. do {
             x \<leftarrow> nth_opt (m_data lhs) i;
             y \<leftarrow> nth_opt (m_data rhs) i;
             z \<leftarrow> f x y;
             if i < length (m_data out) then Some (out\<lparr>m_data := (m_data out)[i := z]\<rparr>) else None
           }) 0 (length (m_data lhs)) (matrix_new (m_rows lhs) (m_cols lhs)))"

definition matrix_add :: "Matrix \<Rightarrow> Matrix \<Rightarrow> Matrix option" where
  "matrix_add lhs rhs = data_zip_loop field_add lhs rhs"

definition matrix_sub :: "Matrix \<Rightarrow> Matrix \<Rightarrow> Matrix option" where
  "matrix_sub lhs rhs = data_zip_loop field_sub lhs rhs"

text \<open>\<open>operator*\<close> copies each column of the right operand before the dot products. The flag
  selects the platform's dot kernel.\<close>

definition matrix_col :: "Matrix \<Rightarrow> nat \<Rightarrow> Element list option" where
  "matrix_col m j =
     for_opt (\<lambda>k col. do { v \<leftarrow> matrix_at m k j; Some (col[k := v]) }) 0 (m_rows m)
       (replicate (m_rows m) 0)"

definition matrix_mul :: "bool \<Rightarrow> Matrix \<Rightarrow> Matrix \<Rightarrow> Matrix option" where
  "matrix_mul neon lhs rhs =
     (if m_cols lhs \<noteq> m_rows rhs then None
      else for_opt (\<lambda>i. for_opt (\<lambda>j out. do {
               col \<leftarrow> matrix_col rhs j;
               v \<leftarrow> field_dot neon (drop (i * m_cols lhs) (m_data lhs)) col (m_cols lhs);
               matrix_set out i j v
             }) 0 (m_cols rhs)) 0 (m_rows lhs) (matrix_new (m_rows lhs) (m_cols rhs)))"

text \<open>\<open>MultiplyBlocked\<close>: the work of one tile of rows, the span of row tiles of one worker, and
  the distribution of the tiles. The number of workers depends on the machine and is an
  argument. Workers write disjoint rows; they are run one after the other here.\<close>

definition blocked_cell ::
    "Matrix \<Rightarrow> Matrix \<Rightarrow> nat \<Rightarrow> nat \<Rightarrow> nat \<Rightarrow> Matrix \<Rightarrow> Matrix option" where
  "blocked_cell lhs rhs i k j out = do {
     a_ik \<leftarrow> nth_opt (m_data lhs) (i * m_cols lhs + k);
     b_kj \<leftarrow> nth_opt (m_data rhs) (k * m_cols rhs + j);
     o_ij \<leftarrow> nth_opt (m_data out) (i * m_cols rhs + j);
     p \<leftarrow> field_mul a_ik b_kj;
     v \<leftarrow> field_add o_ij p;
     Some (out\<lparr>m_data := (m_data out)[i * m_cols rhs + j := v]\<rparr>)
   }"

definition blocked_row_tile :: "Matrix \<Rightarrow> Matrix \<Rightarrow> nat \<Rightarrow> nat \<Rightarrow> Matrix \<Rightarrow> Matrix option" where
  "blocked_row_tile lhs rhs tile_size tile =
     (let ii = w32 (tile * tile_size); i_end = min (w32 (ii + tile_size)) (m_rows lhs) in
      for_step (\<lambda>kk. let k_end = min (w32 (kk + tile_size)) (m_cols lhs) in
        for_step (\<lambda>jj. let j_end = min (w32 (jj + tile_size)) (m_cols rhs) in
          for_opt (\<lambda>i. for_opt (\<lambda>k. for_opt (\<lambda>j. blocked_cell lhs rhs i k j)
              jj (j_end - jj)) kk (k_end - kk)) ii (i_end - ii))
          0 (m_cols rhs) tile_size)
        0 (m_cols lhs) tile_size)"

definition process_row_tile_span ::
    "Matrix \<Rightarrow> Matrix \<Rightarrow> nat \<Rightarrow> nat \<Rightarrow> nat \<Rightarrow> Matrix \<Rightarrow> Matrix option" where
  "process_row_tile_span lhs rhs tile_size tile_begin tile_end =
     for_opt (blocked_row_tile lhs rhs tile_size) tile_begin (tile_end - tile_begin)"

fun run_workers ::
    "Matrix \<Rightarrow> Matrix \<Rightarrow> nat \<Rightarrow> nat \<Rightarrow> nat \<Rightarrow> nat \<Rightarrow> nat \<Rightarrow> Matrix \<Rightarrow> Matrix option" where
  "run_workers lhs rhs tile_size row_tiles tiles_per_worker worker 0 out = Some out"
| "run_workers lhs rhs tile_size row_tiles tiles_per_worker worker (Suc n) out =
     (let tile_begin = w32 (worker * tiles_per_worker) in
      if tile_begin \<ge> row_tiles then Some out
      else let tile_end = min (w32 (tile_begin + tiles_per_worker)) row_tiles in do {
        out' \<leftarrow> process_row_tile_span lhs rhs tile_size tile_begin tile_end out;
        run_workers lhs rhs tile_size row_tiles tiles_per_worker (Suc worker) n out'
      })"

text \<open>How many workers the multiplication starts. The environment variable
  \<open>BTX_MATMUL_BLOCKED_MULTIPLY_THREADS\<close> is the argument \<open>env\<close>: the value \<open>strtol\<close> reads from it, or
  \<open>None\<close> when it is unset, empty or not a number. \<open>limit\<close> is the thread-local worker limit of
  solver_runtime.cpp, zero for no limit.\<close>

definition ClampSolveWorkerThreads :: "nat \<Rightarrow> nat \<Rightarrow> nat" where
  "ClampSolveWorkerThreads limit worker_count =
     (if limit = 0 then worker_count else max 1 (min worker_count limit))"

definition ResolveBlockedMultiplyWorkerCount ::
    "int option \<Rightarrow> nat \<Rightarrow> nat \<Rightarrow> nat \<Rightarrow> nat \<Rightarrow> nat \<Rightarrow> nat \<Rightarrow> nat" where
  "ResolveBlockedMultiplyWorkerCount env hardware_concurrency limit rows cols shared_dim tile_size =
     (let row_tiles = w32 (w32 (rows + tile_size) + (2 ^ 32 - 1)) div tile_size in
      if row_tiles \<le> 1 then 1
      else case env of
        Some parsed \<Rightarrow>
          if parsed \<le> 1 then 1
          else ClampSolveWorkerThreads limit (min row_tiles (nat (min parsed 4294967295)))
      | None \<Rightarrow>
          let hw_threads = max 1 hardware_concurrency in
          if hw_threads \<le> 1 then 1
          else if w64 (w64 (rows * cols) * shared_dim) < 4000000 then 1
          else ClampSolveWorkerThreads limit (min row_tiles hw_threads))"

definition MultiplyBlocked :: "nat \<Rightarrow> Matrix \<Rightarrow> Matrix \<Rightarrow> nat \<Rightarrow> Matrix option" where
  "MultiplyBlocked worker_count lhs rhs tile_size =
     (if tile_size = 0 \<or> m_cols lhs \<noteq> m_rows rhs then None
      else
        let out = matrix_new (m_rows lhs) (m_cols rhs);
            row_tiles = w32 (w32 (m_rows lhs + tile_size) + (2 ^ 32 - 1)) div tile_size in
        if worker_count \<le> 1 then process_row_tile_span lhs rhs tile_size 0 row_tiles out
        else
          let tiles_per_worker = w32 (w32 (row_tiles + worker_count) + (2 ^ 32 - 1)) div worker_count
          in run_workers lhs rhs tile_size row_tiles tiles_per_worker 0 worker_count out)"

section \<open>Construction and hashing\<close>

definition ContentHash :: "Matrix \<Rightarrow> uint256" where
  "ContentHash m =
     HashWriter_GetSHA256 (fold (\<lambda>v h. Write256 h (WriteLE32 v)) (m_data m) CSHA256_init)"

definition matrix_identity :: "nat \<Rightarrow> Matrix option" where
  "matrix_identity n = for_opt (\<lambda>i out. matrix_set out i i 1) 0 n (matrix_new n n)"

definition FromSeed :: "uint256 \<Rightarrow> nat \<Rightarrow> Matrix option" where
  "FromSeed seed n =
     (if \<not> n * n \<le> 2 ^ 32 - 1 then None
      else for_opt (\<lambda>row. for_opt (\<lambda>col out.
             matrix_set out row col (from_oracle seed (of_nat (w32 (row * n + col)))))
           0 n) 0 n (matrix_new n n))"

section \<open>The cache of matrices expanded from a seed\<close>

record FromSeedCacheEntry =
  ce_seed :: uint256
  ce_n :: nat
  ce_matrix :: "Matrix option"

definition FROM_SEED_CACHE_CAPACITY :: nat where
  "FROM_SEED_CACHE_CAPACITY = 8"

text \<open>\<open>SharedFromSeed\<close> holds the mutex twice: once to look the entry up and move it to the front, and,
  when that found nothing, once more to publish the matrix it has built in between. Each locked
  region is one operation on the cache; the result of the first is the cached matrix, if any.\<close>

fun cache_take :: "uint256 \<Rightarrow> nat \<Rightarrow> FromSeedCacheEntry list \<Rightarrow>
    (FromSeedCacheEntry \<times> FromSeedCacheEntry list) option" where
  "cache_take seed n [] = None"
| "cache_take seed n (e # es) =
     (if ce_n e \<noteq> n \<or> ce_seed e \<noteq> seed
      then (case cache_take seed n es of None \<Rightarrow> None | Some (h, rest) \<Rightarrow> Some (h, e # rest))
      else Some (e, es))"

definition shared_lookup :: "uint256 \<Rightarrow> nat \<Rightarrow> FromSeedCacheEntry list \<Rightarrow>
    Matrix option \<times> FromSeedCacheEntry list" where
  "shared_lookup seed n cache =
     (case cache_take seed n cache of
        None \<Rightarrow> (None, cache)
      | Some (entry, rest) \<Rightarrow>
          (case ce_matrix entry of
             None \<Rightarrow> (None, cache)
           | Some cached \<Rightarrow> (Some cached, entry # rest)))"

definition shared_publish :: "uint256 \<Rightarrow> nat \<Rightarrow> Matrix \<Rightarrow> FromSeedCacheEntry list \<Rightarrow>
    Matrix \<times> FromSeedCacheEntry list" where
  "shared_publish seed n matrix cache =
     (let insert_front = \<lambda>es. take FROM_SEED_CACHE_CAPACITY
            (\<lparr>ce_seed = seed, ce_n = n, ce_matrix = Some matrix\<rparr> # es) in
      case cache_take seed n cache of
        None \<Rightarrow> (matrix, insert_front cache)
      | Some (entry, rest) \<Rightarrow>
          (case ce_matrix entry of
             Some cached \<Rightarrow> (cached, cache)
           | None \<Rightarrow> (matrix, insert_front rest)))"

text \<open>The callers of \<open>SharedFromSeed\<close> interleave between the locked regions.\<close>

datatype shared_phase = Calling uint256 nat | Building uint256 nat | Returned uint256 nat Matrix

inductive shared_step ::
    "FromSeedCacheEntry list \<times> (nat \<Rightarrow> shared_phase) \<Rightarrow> FromSeedCacheEntry list \<times> (nat \<Rightarrow> shared_phase) \<Rightarrow> bool" where
  hit: "\<lbrakk>ph t = Calling seed n; shared_lookup seed n cache = (Some m, cache')\<rbrakk> \<Longrightarrow>
    shared_step (cache, ph) (cache', ph(t := Returned seed n m))"
| miss: "\<lbrakk>ph t = Calling seed n; shared_lookup seed n cache = (None, cache')\<rbrakk> \<Longrightarrow>
    shared_step (cache, ph) (cache', ph(t := Building seed n))"
| publish: "\<lbrakk>ph t = Building seed n; FromSeed seed n = Some built;
      shared_publish seed n built cache = (m, cache')\<rbrakk> \<Longrightarrow>
    shared_step (cache, ph) (cache', ph(t := Returned seed n m))"
| call: "ph t = Returned seed n m \<Longrightarrow> shared_step (cache, ph) (cache, ph(t := Calling seed' n'))"

section \<open>Well-formed matrices and their entries\<close>

text \<open>The invariant of the class: the data holds one element per position. \<open>ment\<close> is the entry at
  a position, and a field matrix has reduced entries only.\<close>

definition wf_mat :: "Matrix \<Rightarrow> bool" where
  "wf_mat m \<longleftrightarrow> length (m_data m) = m_rows m * m_cols m \<and> m_rows m < 2 ^ 32 \<and> m_cols m < 2 ^ 32"

definition ment :: "Matrix \<Rightarrow> nat \<Rightarrow> nat \<Rightarrow> Element" where
  "ment m i j = m_data m ! (i * m_cols m + j)"

definition mval :: "Matrix \<Rightarrow> nat \<Rightarrow> nat \<Rightarrow> Z31" where
  "mval m i j = fval (ment m i j)"

definition fmat :: "nat \<Rightarrow> nat \<Rightarrow> Matrix \<Rightarrow> bool" where
  "fmat r c m \<longleftrightarrow> wf_mat m \<and> m_rows m = r \<and> m_cols m = c \<and> felems (m_data m)"

definition shape :: "nat \<Rightarrow> nat \<Rightarrow> Matrix \<Rightarrow> bool" where
  "shape r c m \<longleftrightarrow> wf_mat m \<and> m_rows m = r \<and> m_cols m = c"

lemma fmat_shape: "fmat r c m \<Longrightarrow> shape r c m"
  by (simp add: fmat_def shape_def)

lemma idx_less: "i < r \<Longrightarrow> j < c \<Longrightarrow> i * c + j < r * (c::nat)"
proof -
  assume "i < r" "j < c"
  then have "Suc i * c \<le> r * c" by (intro mult_le_mono1) simp
  with \<open>j < c\<close> show ?thesis by simp
qed

lemma idx_eq_iff: "j < c \<Longrightarrow> l < c \<Longrightarrow> i * c + j = k * c + l \<longleftrightarrow> i = k \<and> j = (l::nat)"
proof
  assume c: "j < c" "l < c" and e: "i * c + j = k * c + l"
  from e have "(j + i * c) div c = (l + k * c) div c" "(j + i * c) mod c = (l + k * c) mod c"
    by (simp_all add: add.commute)
  with c show "i = k \<and> j = l" by simp
qed simp

lemma idx_split: "n < r * c \<Longrightarrow> \<exists>i j. i < r \<and> j < c \<and> n = i * c + (j::nat)"
proof -
  assume n: "n < r * c"
  then have "0 < c" by (cases c) auto
  with n have "n div c < r" "n mod c < c" by (simp_all add: less_mult_imp_div_less)
  then show ?thesis by (intro exI[of _ "n div c"] exI[of _ "n mod c"]) simp
qed

lemma matrix_at_shape:
  "shape r c m \<Longrightarrow> i < r \<Longrightarrow> j < c \<Longrightarrow> matrix_at m i j = Some (ment m i j)"
  by (auto simp: matrix_at_def shape_def wf_mat_def ment_def idx_less)

lemma matrix_set_shape:
  assumes "shape r c m" "i < r" "j < c"
  obtains m' where "matrix_set m i j v = Some m'" "shape r c m'"
    "\<And>i' j'. i' < r \<Longrightarrow> j' < c \<Longrightarrow> ment m' i' j' = (if i' = i \<and> j' = j then v else ment m i' j')"
proof -
  let ?m = "m\<lparr>m_data := (m_data m)[i * c + j := v]\<rparr>"
  have s: "m_rows m = r" "m_cols m = c" "length (m_data m) = r * c" "r < 2 ^ 32" "c < 2 ^ 32"
    using assms(1) by (auto simp: shape_def wf_mat_def)
  have l: "i * c + j < r * c" by (rule idx_less[OF assms(2,3)])
  show ?thesis
  proof (rule that)
    show "matrix_set m i j v = Some ?m" using assms(2,3) s l by (simp add: matrix_set_def)
    show "shape r c ?m" using s by (simp add: shape_def wf_mat_def)
    fix i' j' assume "i' < r" "j' < c"
    then show "ment ?m i' j' = (if i' = i \<and> j' = j then v else ment m i' j')"
      using assms(3) s l by (auto simp: ment_def nth_list_update idx_eq_iff)
  qed
qed

lemma matrix_eqI:
  assumes "shape r c m" "shape r c m'"
    and "\<And>i j. i < r \<Longrightarrow> j < c \<Longrightarrow> ment m i j = ment m' i j"
  shows "m = m'"
proof -
  have "m_data m = m_data m'"
  proof (rule nth_equalityI)
    show "length (m_data m) = length (m_data m')" using assms(1,2) by (simp add: shape_def wf_mat_def)
    fix n assume "n < length (m_data m)"
    then obtain i j where "i < r" "j < c" "n = i * c + j"
      using assms(1) idx_split[of n r c] by (auto simp: shape_def wf_mat_def)
    with assms show "m_data m ! n = m_data m' ! n" by (auto simp: ment_def shape_def)
  qed
  with assms(1,2) show ?thesis by (cases m; cases m') (simp add: shape_def)
qed

lemma fmat_iff: "fmat r c m \<longleftrightarrow> shape r c m \<and> (\<forall>i < r. \<forall>j < c. felem (ment m i j))"
proof
  assume "fmat r c m"
  then show "shape r c m \<and> (\<forall>i < r. \<forall>j < c. felem (ment m i j))"
    by (auto simp: fmat_def shape_def wf_mat_def ment_def felems_def idx_less)
next
  assume a: "shape r c m \<and> (\<forall>i < r. \<forall>j < c. felem (ment m i j))"
  have "felem (m_data m ! n)" if "n < length (m_data m)" for n
    using that a idx_split[of n r c] by (auto simp: shape_def wf_mat_def ment_def)
  with a show "fmat r c m" by (auto simp: fmat_def shape_def felems_def set_conv_nth)
qed

lemma fmat_ment: "fmat r c m \<Longrightarrow> i < r \<Longrightarrow> j < c \<Longrightarrow> felem (ment m i j)"
  by (simp add: fmat_iff)

lemma fmat_eqI:
  assumes "fmat r c m" "fmat r c m'"
    and "\<And>i j. i < r \<Longrightarrow> j < c \<Longrightarrow> mval m i j = mval m' i j"
  shows "m = m'"
  using assms by (intro matrix_eqI[of r c]) (auto simp: fmat_shape mval_def intro: fval_inj fmat_ment)

lemma matrix_new_shape: "r < 2 ^ 32 \<Longrightarrow> c < 2 ^ 32 \<Longrightarrow> shape r c (matrix_new r c)"
  by (simp add: shape_def wf_mat_def matrix_new_def)

lemma ment_new: "i < r \<Longrightarrow> j < c \<Longrightarrow> ment (matrix_new r c) i j = 0"
  by (simp add: ment_def matrix_new_def idx_less)

section \<open>Filling loops\<close>

text \<open>A nest of two loops that assigns one entry of a rectangle in each step.\<close>

lemma fill_row:
  assumes "shape r c m" and "i < r" and "c0 + n \<le> c"
    and f: "\<And>k m. k < n \<Longrightarrow> shape r c m \<Longrightarrow> f k m = matrix_set m i (c0 + k) (h k)"
  shows "\<exists>m'. for_opt f 0 n m = Some m' \<and> shape r c m' \<and>
    (\<forall>i' < r. \<forall>j' < c. ment m' i' j' =
       (if i' = i \<and> c0 \<le> j' \<and> j' < c0 + n then h (j' - c0) else ment m i' j'))"
proof -
  let ?I = "\<lambda>k m'. shape r c m' \<and> (\<forall>i' < r. \<forall>j' < c. ment m' i' j' =
       (if i' = i \<and> c0 \<le> j' \<and> j' < c0 + k then h (j' - c0) else ment m i' j'))"
  have "\<exists>m'. for_opt f 0 n m = Some m' \<and> ?I (0 + n) m'"
  proof (rule for_opt_rule)
    fix k t assume k: "k < 0 + n" and I: "?I k t"
    obtain u where u: "matrix_set t i (c0 + k) (h k) = Some u" "shape r c u"
      "\<And>i' j'. i' < r \<Longrightarrow> j' < c \<Longrightarrow> ment u i' j' = (if i' = i \<and> j' = c0 + k then h k else ment t i' j')"
      using matrix_set_shape[of r c t i "c0 + k" "h k"] I k assms(2,3) by auto
    have "f k t = Some u" using f[of k t] k I u(1) by simp
    moreover have "?I (Suc k) u" using u(2,3) I by auto
    ultimately show "\<exists>u. f k t = Some u \<and> ?I (Suc k) u" by blast
  qed (use assms(1) in auto)
  then show ?thesis by simp
qed

lemma fill_rect:
  assumes "shape r c m" and "r0 + nr \<le> r" and "c0 + nc \<le> c"
    and f: "\<And>i k m. i < nr \<Longrightarrow> k < nc \<Longrightarrow> shape r c m \<Longrightarrow>
      f i k m = matrix_set m (r0 + i) (c0 + k) (h i k)"
  obtains m' where "for_opt (\<lambda>i. for_opt (f i) 0 nc) 0 nr m = Some m'" "shape r c m'"
    "\<And>i j. i < r \<Longrightarrow> j < c \<Longrightarrow> ment m' i j =
       (if r0 \<le> i \<and> i < r0 + nr \<and> c0 \<le> j \<and> j < c0 + nc then h (i - r0) (j - c0) else ment m i j)"
proof -
  let ?I = "\<lambda>k m'. shape r c m' \<and> (\<forall>i < r. \<forall>j < c. ment m' i j =
       (if r0 \<le> i \<and> i < r0 + k \<and> c0 \<le> j \<and> j < c0 + nc then h (i - r0) (j - c0) else ment m i j))"
  have "\<exists>m'. for_opt (\<lambda>i. for_opt (f i) 0 nc) 0 nr m = Some m' \<and> ?I (0 + nr) m'"
  proof (rule for_opt_rule)
    fix k t assume k: "k < 0 + nr" and I: "?I k t"
    have "\<exists>u. for_opt (f k) 0 nc t = Some u \<and> shape r c u \<and>
        (\<forall>i' < r. \<forall>j' < c. ment u i' j' =
           (if i' = r0 + k \<and> c0 \<le> j' \<and> j' < c0 + nc then h k (j' - c0) else ment t i' j'))"
      by (rule fill_row) (use k I assms in auto)
    then obtain u where u: "for_opt (f k) 0 nc t = Some u" "shape r c u"
      "\<forall>i' < r. \<forall>j' < c. ment u i' j' =
           (if i' = r0 + k \<and> c0 \<le> j' \<and> j' < c0 + nc then h k (j' - c0) else ment t i' j')" by blast
    have "?I (Suc k) u" using u(2,3) I by auto
    with u(1) show "\<exists>u. for_opt (f k) 0 nc t = Some u \<and> ?I (Suc k) u" by blast
  qed (use assms(1) in auto)
  then show ?thesis using that by auto
qed

section \<open>Blocks\<close>

lemma block_bounds:
  assumes "Suc bi * b \<le> r" "r < 2 ^ 32" "0 < b"
  shows "w32 (bi * b) = bi * b" "w32 (bi * b + b) = bi * b + b" "i < b \<Longrightarrow> w32 (bi * b + i) = bi * b + i"
    "bi * b + b \<le> r"
  using assms by (auto simp: add.commute)

lemma matrix_block_correct:
  assumes m: "shape r c m" and b: "0 < b" and bi: "Suc bi * b \<le> r" and bj: "Suc bj * b \<le> c"
  obtains m' where "matrix_block m bi bj b = Some m'" "shape b b m'"
    "\<And>i j. i < b \<Longrightarrow> j < b \<Longrightarrow> ment m' i j = ment m (bi * b + i) (bj * b + j)"
proof -
  have s: "m_rows m = r" "m_cols m = c" "r < 2 ^ 32" "c < 2 ^ 32"
    using m by (auto simp: shape_def wf_mat_def)
  note wi = block_bounds[OF bi s(3) b] and wj = block_bounds[OF bj s(4) b]
  have "b \<le> r" using bi by simp
  then have b32: "b < 2 ^ 32" using s(3) by linarith
  show ?thesis
  proof (rule fill_rect[of b b "matrix_new b b" 0 b 0 b "\<lambda>r c out. do {
        v \<leftarrow> matrix_at m (w32 (bi * b + r)) (w32 (bj * b + c)); matrix_set out r c v }"
        "\<lambda>i j. ment m (bi * b + i) (bj * b + j)"])
    show "shape b b (matrix_new b b)" by (rule matrix_new_shape[OF b32 b32])
  next
    fix i k t assume ik: "i < b" "k < b"
    have "matrix_at m (bi * b + i) (bj * b + k) = Some (ment m (bi * b + i) (bj * b + k))"
      by (rule matrix_at_shape[OF m]) (use ik wi(4) wj(4) in auto)
    then show "(do { v \<leftarrow> matrix_at m (w32 (bi * b + i)) (w32 (bj * b + k)); matrix_set t i k v }) =
        matrix_set t (0 + i) (0 + k) (ment m (bi * b + i) (bj * b + k))"
      using ik by (simp only: wi wj) simp
  next
    fix m' assume m': "for_opt (\<lambda>i. for_opt (\<lambda>c out. do {
          v \<leftarrow> matrix_at m (w32 (bi * b + i)) (w32 (bj * b + c)); matrix_set out i c v }) 0 b) 0 b
          (matrix_new b b) = Some m'" "shape b b m'"
      "\<And>i j. i < b \<Longrightarrow> j < b \<Longrightarrow> ment m' i j = (if 0 \<le> i \<and> i < 0 + b \<and> 0 \<le> j \<and> j < 0 + b
         then ment m (bi * b + (i - 0)) (bj * b + (j - 0)) else ment (matrix_new b b) i j)"
    have "matrix_block m bi bj b = Some m'"
      using m'(1) b wi(4) wj(4) by (simp add: matrix_block_def s wi(1,2) wj(1,2) Let_def)
    then show thesis by (rule that) (use m' in auto)
  qed auto
qed

lemma matrix_block_fmat:
  assumes m: "fmat r c m" and b: "0 < b" and bi: "Suc bi * b \<le> r" and bj: "Suc bj * b \<le> c"
  obtains m' where "matrix_block m bi bj b = Some m'" "fmat b b m'"
    "\<And>i j. i < b \<Longrightarrow> j < b \<Longrightarrow> mval m' i j = mval m (bi * b + i) (bj * b + j)"
proof (rule matrix_block_correct[OF fmat_shape[OF m] b bi bj])
  fix m' assume m': "matrix_block m bi bj b = Some m'" "shape b b m'"
    "\<And>i j. i < b \<Longrightarrow> j < b \<Longrightarrow> ment m' i j = ment m (bi * b + i) (bj * b + j)"
  have "bi * b + i < r" if "i < b" for i using bi that by simp
  moreover have "bj * b + j < c" if "j < b" for j using bj that by simp
  ultimately have "fmat b b m'" using m' m by (simp add: fmat_iff)
  then show thesis by (intro that[OF m'(1)]) (simp_all add: mval_def m'(3))
qed

lemma matrix_set_block_correct:
  assumes m: "shape r c m" and blk: "shape b b blk" and bi: "Suc bi * b \<le> r" and bj: "Suc bj * b \<le> c"
    and b: "0 < b"
  obtains m' where "matrix_set_block m bi bj b blk = Some m'" "shape r c m'"
    "\<And>i j. i < r \<Longrightarrow> j < c \<Longrightarrow> ment m' i j =
       (if bi * b \<le> i \<and> i < bi * b + b \<and> bj * b \<le> j \<and> j < bj * b + b
        then ment blk (i - bi * b) (j - bj * b) else ment m i j)"
proof -
  have s: "m_rows m = r" "m_cols m = c" "r < 2 ^ 32" "c < 2 ^ 32" "m_rows blk = b" "m_cols blk = b"
    using m blk by (auto simp: shape_def wf_mat_def)
  note wi = block_bounds[OF bi s(3) b] and wj = block_bounds[OF bj s(4) b]
  show ?thesis
  proof (rule fill_rect[of r c m "bi * b" b "bj * b" b "\<lambda>r c out. do {
        v \<leftarrow> matrix_at blk r c; matrix_set out (w32 (bi * b + r)) (w32 (bj * b + c)) v }" "ment blk"])
    fix i k t assume ik: "i < b" "k < b"
    show "(do { v \<leftarrow> matrix_at blk i k; matrix_set t (w32 (bi * b + i)) (w32 (bj * b + k)) v }) =
        matrix_set t (bi * b + i) (bj * b + k) (ment blk i k)"
      using ik matrix_at_shape[OF blk ik] by (simp only: wi wj) simp
  next
    fix m' assume m': "for_opt (\<lambda>i. for_opt (\<lambda>c out. do {
          v \<leftarrow> matrix_at blk i c; matrix_set out (w32 (bi * b + i)) (w32 (bj * b + c)) v }) 0 b) 0 b m = Some m'"
      "shape r c m'"
      "\<And>i j. i < r \<Longrightarrow> j < c \<Longrightarrow> ment m' i j =
         (if bi * b \<le> i \<and> i < bi * b + b \<and> bj * b \<le> j \<and> j < bj * b + b
          then ment blk (i - bi * b) (j - bj * b) else ment m i j)"
    have "matrix_set_block m bi bj b blk = Some m'"
      using m'(1) b wi(4) wj(4) by (simp add: matrix_set_block_def s wi(1,2) wj(1,2) Let_def)
    then show thesis by (rule that) (use m' in auto)
  qed (use m wi(4) wj(4) in auto)
qed

lemma matrix_block_view_correct:
  assumes m: "shape r c m" and b: "0 < b" and bi: "Suc bi * b \<le> r" and bj: "Suc bj * b \<le> c"
  obtains v where "matrix_block_view m bi bj b = Some v" "v_rows v = b" "v_cols v = b" "v_stride v = c"
    "v_data v = drop (bi * b * c + bj * b) (m_data m)"
    "\<And>i j. i < b \<Longrightarrow> j < b \<Longrightarrow> view_at v i j = Some (ment m (bi * b + i) (bj * b + j))"
proof -
  have s: "m_rows m = r" "m_cols m = c" "r < 2 ^ 32" "c < 2 ^ 32" "length (m_data m) = r * c"
    using m by (auto simp: shape_def wf_mat_def)
  note wi = block_bounds[OF bi s(3) b] and wj = block_bounds[OF bj s(4) b]
  let ?v = "\<lparr>v_data = drop (bi * b * c + bj * b) (m_data m), v_rows = b, v_cols = b, v_stride = c\<rparr>"
  show ?thesis
  proof (rule that[of ?v])
    show "matrix_block_view m bi bj b = Some ?v"
      using b wi(4) wj(4) by (simp add: matrix_block_view_def s wi(1,2) wj(1,2) Let_def)
    fix i j assume ij: "i < b" "j < b"
    have l: "(bi * b + i) * c + (bj * b + j) < r * c"
      by (rule idx_less) (use ij wi(4) wj(4) in auto)
    then have "i * c + j < r * c - (bi * b * c + bj * b)" by (simp add: add_mult_distrib)
    moreover have "bi * b * c + bj * b \<le> length (m_data m)" using l s(5) by (simp add: add_mult_distrib)
    ultimately show "view_at ?v i j = Some (ment m (bi * b + i) (bj * b + j))"
      using ij s by (simp add: view_at_def ment_def nth_drop algebra_simps)
  qed simp_all
qed

section \<open>Arithmetic\<close>

lemma data_zip_loop_correct:
  assumes l: "shape r c lhs" and r: "shape r c rhs"
    and f: "\<And>i. i < r * c \<Longrightarrow> f (m_data lhs ! i) (m_data rhs ! i) = Some (h i)"
  obtains m where "data_zip_loop f lhs rhs = Some m" "shape r c m" "m_data m = map h [0..<r * c]"
proof -
  have s: "m_rows lhs = r" "m_cols lhs = c" "length (m_data lhs) = r * c" "r < 2 ^ 32" "c < 2 ^ 32"
    "m_rows rhs = r" "m_cols rhs = c" "length (m_data rhs) = r * c"
    using l r by (auto simp: shape_def wf_mat_def)
  let ?f = "\<lambda>i out. do { x \<leftarrow> nth_opt (m_data lhs) i; y \<leftarrow> nth_opt (m_data rhs) i; z \<leftarrow> f x y;
    if i < length (m_data out) then Some (out\<lparr>m_data := (m_data out)[i := z]\<rparr>) else None }"
  let ?I = "\<lambda>n m. shape r c m \<and> (\<forall>i < n. m_data m ! i = h i)"
  have "\<exists>m. for_opt ?f 0 (r * c) (matrix_new r c) = Some m \<and> ?I (0 + r * c) m"
  proof (rule for_opt_rule)
    show "?I 0 (matrix_new r c)" using matrix_new_shape[OF s(4,5)] by simp
  next
    fix n t assume n: "n < 0 + r * c" and I: "?I n t"
    then have t: "length (m_data t) = r * c" by (simp add: shape_def wf_mat_def)
    let ?u = "t\<lparr>m_data := (m_data t)[n := h n]\<rparr>"
    have "?f n t = Some ?u" using n by (simp add: s(3,8) t f)
    moreover have "shape r c ?u" using I by (simp add: shape_def wf_mat_def)
    moreover have "\<forall>i < Suc n. m_data ?u ! i = h i"
      using I n t by (simp add: nth_list_update less_Suc_eq)
    ultimately show "\<exists>u. ?f n t = Some u \<and> ?I (Suc n) u" by blast
  qed
  then obtain m where m: "for_opt ?f 0 (r * c) (matrix_new r c) = Some m" "?I (r * c) m" by auto
  have "m_data m = map h [0..<r * c]"
    using m(2) by (intro nth_equalityI) (auto simp: shape_def wf_mat_def)
  moreover have "data_zip_loop f lhs rhs = Some m"
    unfolding data_zip_loop_def s using m(1) by simp
  ultimately show ?thesis using m(2) by (intro that) blast+
qed

lemma zip_loop_fmat:
  assumes l: "fmat r c lhs" and rr: "fmat r c rhs"
    and f: "\<And>x y. felem x \<Longrightarrow> felem y \<Longrightarrow> \<exists>z. f x y = Some z \<and> fval z = g (fval x) (fval y) \<and> felem z"
  obtains m where "data_zip_loop f lhs rhs = Some m" "fmat r c m"
    "\<And>i j. i < r \<Longrightarrow> j < c \<Longrightarrow> mval m i j = g (mval lhs i j) (mval rhs i j)"
proof -
  have s: "m_cols lhs = c" "m_cols rhs = c" "length (m_data lhs) = r * c" "length (m_data rhs) = r * c"
    using l rr by (auto simp: fmat_def wf_mat_def)
  define h where "h = (\<lambda>i. the (f (m_data lhs ! i) (m_data rhs ! i)))"
  have e: "\<exists>z. f (m_data lhs ! i) (m_data rhs ! i) = Some z \<and>
      fval z = g (fval (m_data lhs ! i)) (fval (m_data rhs ! i)) \<and> felem z" if "i < r * c" for i
    by (rule f) (use that l rr s in \<open>auto simp: fmat_def felems_def\<close>)
  have h: "f (m_data lhs ! i) (m_data rhs ! i) = Some (h i)" "felem (h i)"
    "fval (h i) = g (fval (m_data lhs ! i)) (fval (m_data rhs ! i))" if "i < r * c" for i
    using e[OF that] by (auto simp: h_def)
  obtain m where m: "data_zip_loop f lhs rhs = Some m" "shape r c m" "m_data m = map h [0..<r * c]"
    using data_zip_loop_correct[OF fmat_shape[OF l] fmat_shape[OF rr], of f h] h(1) by metis
  show ?thesis
  proof (rule that[OF m(1)])
    show "fmat r c m" using m(2,3) h(2) by (auto simp: fmat_def shape_def felems_def)
    fix i j assume "i < r" "j < c"
    then have "i * c + j < r * c" by (rule idx_less)
    with m(2,3) h(3) s show "mval m i j = g (mval lhs i j) (mval rhs i j)"
      by (simp add: mval_def ment_def shape_def)
  qed
qed

lemma matrix_add_correct:
  assumes "fmat r c a" "fmat r c b"
  obtains m where "matrix_add a b = Some m" "fmat r c m"
    "\<And>i j. i < r \<Longrightarrow> j < c \<Longrightarrow> mval m i j = mval a i j + mval b i j"
proof (rule zip_loop_fmat[OF assms, of field_add "(+)"])
  fix x y assume "felem x" "felem y"
  then show "\<exists>z. field_add x y = Some z \<and> fval z = fval x + fval y \<and> felem z"
    by (rule field_add_fval) blast
qed (rule that, auto simp: matrix_add_def)

lemma matrix_sub_correct:
  assumes "fmat r c a" "fmat r c b"
  obtains m where "matrix_sub a b = Some m" "fmat r c m"
    "\<And>i j. i < r \<Longrightarrow> j < c \<Longrightarrow> mval m i j = mval a i j - mval b i j"
proof (rule zip_loop_fmat[OF assms, of field_sub "(-)"])
  fix x y assume "felem x" "felem y"
  then show "\<exists>z. field_sub x y = Some z \<and> fval z = fval x - fval y \<and> felem z"
    by (rule field_sub_fval) blast
qed (rule that, auto simp: matrix_sub_def)

lemma matrix_col_correct:
  assumes m: "shape r c m" and j: "j < c"
  shows "matrix_col m j = Some (map (\<lambda>k. ment m k j) [0..<r])"
proof -
  have rr: "m_rows m = r" using m by (simp add: shape_def)
  let ?f = "\<lambda>k col. do { v \<leftarrow> matrix_at m k j; Some (col[k := v]) }"
  let ?I = "\<lambda>n col. length col = r \<and> (\<forall>k < n. col ! k = ment m k j)"
  have "\<exists>col. for_opt ?f 0 r (replicate r 0) = Some col \<and> ?I (0 + r) col"
  proof (rule for_opt_rule)
    fix n t assume "n < 0 + r" "?I n t"
    then show "\<exists>u. ?f n t = Some u \<and> ?I (Suc n) u"
      using matrix_at_shape[OF m _ j, of n] by (auto simp: nth_list_update less_Suc_eq)
  qed simp
  then obtain col where col: "for_opt ?f 0 r (replicate r 0) = Some col" "?I r col" by auto
  then have "col = map (\<lambda>k. ment m k j) [0..<r]" by (intro nth_equalityI) auto
  with col show ?thesis by (simp add: matrix_col_def rr)
qed

text \<open>The product specification.\<close>

definition mprod :: "nat \<Rightarrow> Matrix \<Rightarrow> Matrix \<Rightarrow> nat \<Rightarrow> nat \<Rightarrow> Z31" where
  "mprod n a b i j = (\<Sum>k<n. mval a i k * mval b k j)"

lemma dot_row_col:
  assumes a: "fmat r n a" and b: "fmat n c b" and ij: "i < r" "j < c" and fits: "dot_fits neon n"
  obtains v where "field_dot neon (drop (i * n) (m_data a)) (map (\<lambda>k. ment b k j) [0..<n]) n = Some v"
    "fval v = mprod n a b i j" "felem v"
proof (rule field_dot_fval[of "drop (i * n) (m_data a)" "map (\<lambda>k. ment b k j) [0..<n]" n neon])
  have s: "length (m_data a) = r * n" "m_cols a = n" using a by (auto simp: fmat_def wf_mat_def)
  have "Suc i * n \<le> r * n" using ij(1) by (intro mult_le_mono1) simp
  then show l: "n \<le> length (drop (i * n) (m_data a))" using s by simp
  have l': "i * n \<le> length (m_data a)" using ij(1) s by simp
  show "felems (drop (i * n) (m_data a))" using a by (simp add: fmat_def felems_drop)
  show "felems (map (\<lambda>k. ment b k j) [0..<n])" using b ij(2) by (auto simp: felems_def fmat_iff)
  fix v assume "field_dot neon (drop (i * n) (m_data a)) (map (\<lambda>k. ment b k j) [0..<n]) n = Some v"
    "fval v = (\<Sum>k<n. fval (drop (i * n) (m_data a) ! k) * fval (map (\<lambda>k. ment b k j) [0..<n] ! k))"
    "felem v"
  moreover have "(\<Sum>k<n. fval (drop (i * n) (m_data a) ! k) * fval (map (\<lambda>k. ment b k j) [0..<n] ! k)) =
      mprod n a b i j"
    unfolding mprod_def
    by (rule sum.cong) (use l' s in \<open>auto simp: mval_def ment_def nth_drop\<close>)
  ultimately show thesis by (intro that) simp_all
qed (simp_all add: fits)

lemma matrix_mul_correct:
  assumes a: "fmat r n a" and b: "fmat n c b" and fits: "0 < r \<Longrightarrow> 0 < c \<Longrightarrow> dot_fits neon n"
  obtains m where "matrix_mul neon a b = Some m" "fmat r c m"
    "\<And>i j. i < r \<Longrightarrow> j < c \<Longrightarrow> mval m i j = mprod n a b i j"
proof -
  have s: "m_rows a = r" "m_cols a = n" "m_rows b = n" "m_cols b = c" "r < 2 ^ 32" "c < 2 ^ 32"
    using a b by (auto simp: fmat_def wf_mat_def)
  let ?dot = "\<lambda>i j. field_dot neon (drop (i * n) (m_data a)) (map (\<lambda>k. ment b k j) [0..<n]) n"
  define h where "h = (\<lambda>i j. the (?dot i j))"
  have "?dot i j = Some (h i j) \<and> fval (h i j) = mprod n a b i j \<and> felem (h i j)"
    if "i < r" "j < c" for i j
    by (rule dot_row_col[OF a b that, of neon]) (use that in \<open>auto simp: h_def intro: fits\<close>)
  then have h: "?dot i j = Some (h i j)" "fval (h i j) = mprod n a b i j" "felem (h i j)"
    if "i < r" "j < c" for i j using that by simp_all
  let ?f = "\<lambda>i j out. do { col \<leftarrow> matrix_col b j;
    v \<leftarrow> field_dot neon (drop (i * n) (m_data a)) col n; matrix_set out i j v }"
  show ?thesis
  proof (rule fill_rect[of r c "matrix_new r c" 0 r 0 c ?f h])
    show "shape r c (matrix_new r c)" by (rule matrix_new_shape[OF s(5,6)])
    fix i j t assume "i < r" "j < c"
    then show "?f i j t = matrix_set t (0 + i) (0 + j) (h i j)"
      using matrix_col_correct[OF fmat_shape[OF b], of j] h(1) by simp
  next
    fix m assume m: "for_opt (\<lambda>i. for_opt (?f i) 0 c) 0 r (matrix_new r c) = Some m" "shape r c m"
      "\<And>i j. i < r \<Longrightarrow> j < c \<Longrightarrow> ment m i j = (if 0 \<le> i \<and> i < 0 + r \<and> 0 \<le> j \<and> j < 0 + c
         then h (i - 0) (j - 0) else ment (matrix_new r c) i j)"
    have e: "ment m i j = h i j" if "i < r" "j < c" for i j using m(3)[OF that] that by simp
    show thesis
    proof (rule that)
      show "matrix_mul neon a b = Some m" using m(1) by (simp add: matrix_mul_def s)
      show "fmat r c m" using m(2) h(3) e by (simp add: fmat_iff)
      show "mval m i j = mprod n a b i j" if "i < r" "j < c" for i j
        using h(2) e that by (simp add: mval_def)
    qed
  qed auto
qed

text \<open>On NEON the product exists only for inner dimensions within the range of the counter.\<close>

lemma matrix_mul_fits:
  assumes a: "fmat r n a" and b: "fmat n c b" and rc: "0 < r" "0 < c"
    and m: "matrix_mul neon a b = Some m"
  shows "dot_fits neon n"
proof -
  have s: "m_rows a = r" "m_cols a = n" "m_rows b = n" "m_cols b = c"
    using a b by (auto simp: fmat_def wf_mat_def)
  obtain r' c' where "r = Suc r'" "c = Suc c'" using rc by (metis gr0_implies_Suc)
  with m s show ?thesis
    by (auto simp: matrix_mul_def bind_eq_Some_conv split: if_splits dest!: field_dot_fits)
qed

section \<open>The blocked product\<close>

text \<open>
  The blocked product visits every triple (row, inner index, column) once, in an order that
  depends on the tile size and on the workers. A computation \<open>adds\<close> a set of triples when it
  turns any state that accounts for a disjoint set \<open>T\<close> into one that accounts for the union.
\<close>

definition adds :: "('a set \<Rightarrow> 's \<Rightarrow> bool) \<Rightarrow> ('s \<Rightarrow> 's option) \<Rightarrow> 'a set \<Rightarrow> bool" where
  "adds Inv f D \<longleftrightarrow> (\<forall>T s. Inv T s \<longrightarrow> T \<inter> D = {} \<longrightarrow> (\<exists>t. f s = Some t \<and> Inv (T \<union> D) t))"

lemma addsD: "adds Inv f D \<Longrightarrow> Inv T s \<Longrightarrow> T \<inter> D = {} \<Longrightarrow> \<exists>t. f s = Some t \<and> Inv (T \<union> D) t"
  by (auto simp: adds_def)

lemma adds_for:
  assumes f: "\<And>j. a \<le> j \<Longrightarrow> j < a + n \<Longrightarrow> adds Inv (f j) (D j)"
    and disj: "\<And>i j. a \<le> i \<Longrightarrow> i < j \<Longrightarrow> j < a + n \<Longrightarrow> D i \<inter> D j = {}"
  shows "adds Inv (for_opt f a n) (\<Union>j \<in> {a..<a + n}. D j)"
  unfolding adds_def
proof (intro allI impI)
  fix T s assume T: "Inv T s" "T \<inter> (\<Union>j \<in> {a..<a + n}. D j) = {}"
  show "\<exists>t. for_opt f a n s = Some t \<and> Inv (T \<union> (\<Union>j \<in> {a..<a + n}. D j)) t"
  proof (rule for_opt_rule[where I = "\<lambda>k t. Inv (T \<union> (\<Union>j \<in> {a..<k}. D j)) t"])
    fix k t assume k: "a \<le> k" "k < a + n" and I: "Inv (T \<union> (\<Union>j \<in> {a..<k}. D j)) t"
    have "D k \<subseteq> (\<Union>j \<in> {a..<a + n}. D j)" using k by (intro UN_upper) simp
    then have "T \<inter> D k = {}" using T(2) by blast
    moreover have "D j \<inter> D k = {}" if "j \<in> {a..<k}" for j using disj[of j k] that k by simp
    ultimately have "(T \<union> (\<Union>j \<in> {a..<k}. D j)) \<inter> D k = {}" by blast
    moreover have "T \<union> (\<Union>j \<in> {a..<k}. D j) \<union> D k = T \<union> (\<Union>j \<in> {a..<Suc k}. D j)"
      using k(1) by (auto simp: atLeastLessThanSuc)
    ultimately show "\<exists>u. f k t = Some u \<and> Inv (T \<union> (\<Union>j \<in> {a..<Suc k}. D j)) u"
      using addsD[OF f[OF k] I] by simp
  qed (use T in simp)
qed

lemma adds_step:
  assumes st: "0 < step" "stop + step \<le> 2 ^ 32"
    and f: "\<And>j. j < stop \<Longrightarrow> step dvd j \<Longrightarrow> adds Inv (f j) (D j)"
    and disj: "\<And>i j. i < j \<Longrightarrow> j < stop \<Longrightarrow> step dvd i \<Longrightarrow> step dvd j \<Longrightarrow> D i \<inter> D j = {}"
  shows "adds Inv (for_step f 0 stop step) (\<Union>j \<in> {j. j < stop \<and> step dvd j}. D j)"
  unfolding adds_def
proof (intro allI impI)
  let ?U = "\<lambda>k. (\<Union>j \<in> {j. j < k \<and> j < stop \<and> step dvd j}. D j)"
  fix T s assume T: "Inv T s" "T \<inter> (\<Union>j \<in> {j. j < stop \<and> step dvd j}. D j) = {}"
  have "\<exists>t k. for_step f 0 stop step s = Some t \<and> (\<lambda>k t. Inv (T \<union> ?U k) t) k t \<and> 0 \<le> k \<and>
      stop \<le> k \<and> step dvd k - 0"
  proof (rule for_step_rule[OF _ st])
    fix k t assume k: "k < stop" "step dvd k - 0" and I: "Inv (T \<union> ?U k) t"
    have "D k \<subseteq> (\<Union>j \<in> {j. j < stop \<and> step dvd j}. D j)" using k by (intro UN_upper) simp
    then have "T \<inter> D k = {}" using T(2) by blast
    moreover have "D j \<inter> D k = {}" if "j < k" "step dvd j" for j using disj[of j k] that k by simp
    ultimately have dj: "(T \<union> ?U k) \<inter> D k = {}" by blast
    have "{j. j < k + step \<and> j < stop \<and> step dvd j} = insert k {j. j < k \<and> j < stop \<and> step dvd j}"
    proof (rule set_eqI)
      fix j
      have "j = k" if "j < k + step" "\<not> j < k" "step dvd j"
      proof -
        have "step dvd j - k" using that k(2) by (simp add: dvd_diff_nat)
        moreover have "j - k < step" using that by simp
        ultimately show ?thesis using that(2) by (auto dest: dvd_imp_le)
      qed
      then show "j \<in> {j. j < k + step \<and> j < stop \<and> step dvd j} \<longleftrightarrow>
          j \<in> insert k {j. j < k \<and> j < stop \<and> step dvd j}" using k st(1) by auto
    qed
    then have e: "T \<union> ?U k \<union> D k = T \<union> ?U (k + step)" by auto
    have "adds Inv (f k) (D k)" by (rule f) (use k in simp_all)
    from addsD[OF this I dj] show "\<exists>u. f k t = Some u \<and> Inv (T \<union> ?U (k + step)) u"
      by (simp only: e)
  qed (use T in simp)
  then obtain t k where t: "for_step f 0 stop step s = Some t" "Inv (T \<union> ?U k) t" "stop \<le> k" by auto
  have "{j. j < k \<and> j < stop \<and> step dvd j} = {j. j < stop \<and> step dvd j}" using t(3) by auto
  with t show "\<exists>t. for_step f 0 stop step s = Some t \<and>
      Inv (T \<union> (\<Union>j \<in> {j. j < stop \<and> step dvd j}. D j)) t" by auto
qed

text \<open>The tiles \<open>[j, min (j + step) stop)\<close> at the multiples of the step partition \<open>[0, stop)\<close>.\<close>

lemma tiles_disjoint:
  assumes "i < j" "step dvd i" "step dvd (j::nat)"
  shows "{i..<min (i + step) n} \<inter> {j..<m} = {}"
proof -
  have "step dvd j - i" using assms by (simp add: dvd_diff_nat)
  then have "step \<le> j - i" using assms(1) by (intro dvd_imp_le) auto
  then show ?thesis by auto
qed

lemma tiles_cover:
  assumes "0 < step"
  shows "(\<Union>j \<in> {j. j < stop \<and> step dvd j}. {j..<min (j + step) stop}) = {0..<stop::nat}"
proof (intro equalityI subsetI)
  fix x assume x: "x \<in> {0..<stop}"
  let ?j = "x div step * step"
  have "x = ?j + x mod step" by simp
  moreover have "x mod step < step" using assms by simp
  ultimately have "?j \<le> x" "x < ?j + step" by linarith+
  moreover from this x have "?j < stop" by (meson atLeastLessThan_iff le_less_trans)
  ultimately show "x \<in> (\<Union>j \<in> {j. j < stop \<and> step dvd j}. {j..<min (j + step) stop})"
    using x by (intro UN_I[of ?j]) auto
qed auto

definition acc_inv :: "Matrix \<Rightarrow> Matrix \<Rightarrow> nat \<Rightarrow> nat \<Rightarrow> nat \<Rightarrow> (nat \<times> nat \<times> nat) set \<Rightarrow> Matrix \<Rightarrow> bool" where
  "acc_inv a b r n c T out \<longleftrightarrow> fmat r c out \<and>
     (\<forall>i < r. \<forall>j < c. mval out i j = (\<Sum>k | k < n \<and> (i, k, j) \<in> T. mval a i k * mval b k j))"

lemma blocked_cell_adds:
  assumes a: "fmat r n a" and b: "fmat n c b" and ikj: "i < r" "k < n" "j < c"
  shows "adds (acc_inv a b r n c) (blocked_cell a b i k j) {(i, k, j)}"
  unfolding adds_def
proof (intro allI impI)
  fix T out assume I: "acc_inv a b r n c T out" and T: "T \<inter> {(i, k, j)} = {}"
  have o: "fmat r c out" using I by (simp add: acc_inv_def)
  have s: "m_cols a = n" "m_cols b = c" "length (m_data a) = r * n" "length (m_data b) = n * c"
    "length (m_data out) = r * c" "m_cols out = c" "m_rows out = r"
    using a b o by (auto simp: fmat_def wf_mat_def)
  have l: "i * n + k < r * n" "k * c + j < n * c" "i * c + j < r * c" using ikj by (simp_all add: idx_less)
  obtain p where p: "field_mul (ment a i k) (ment b k j) = Some p"
    "fval p = mval a i k * mval b k j" "felem p"
    unfolding mval_def using fmat_ment[OF a ikj(1,2)] fmat_ment[OF b ikj(2,3)] by (rule field_mul_fval)
  obtain v where v: "field_add (ment out i j) p = Some v" "fval v = mval out i j + fval p" "felem v"
    unfolding mval_def using fmat_ment[OF o ikj(1,3)] p(3) by (rule field_add_fval)
  obtain out' where o': "matrix_set out i j v = Some out'" "shape r c out'"
    "\<And>i' j'. i' < r \<Longrightarrow> j' < c \<Longrightarrow> ment out' i' j' = (if i' = i \<and> j' = j then v else ment out i' j')"
    by (rule matrix_set_shape[OF fmat_shape[OF o] ikj(1,3), where v = v]) blast
  have "blocked_cell a b i k j out = Some out'"
    using o'(1) ikj l p(1) v(1) by (simp add: blocked_cell_def s ment_def matrix_set_def)
  moreover have "acc_inv a b r n c (T \<union> {(i, k, j)}) out'"
    unfolding acc_inv_def
  proof (intro conjI allI impI)
    show "fmat r c out'" using o'(2,3) v(3) fmat_ment[OF o] by (simp add: fmat_iff)
    fix i' j' assume ij': "i' < r" "j' < c"
    let ?S = "\<lambda>T. {k'. k' < n \<and> (i', k', j') \<in> T}"
    show "mval out' i' j' = (\<Sum>k' \<in> ?S (T \<union> {(i, k, j)}). mval a i' k' * mval b k' j')"
    proof (cases "i' = i \<and> j' = j")
      case True
      have "?S (T \<union> {(i, k, j)}) = insert k (?S T)" "k \<notin> ?S T" using True ikj(2) T by auto
      then show ?thesis using I ij' o'(3)[OF ij'] True v(2) p(2)
        by (simp add: acc_inv_def mval_def add.commute)
    next
      case False
      then have "?S (T \<union> {(i, k, j)}) = ?S T" by auto
      then show ?thesis using I ij' o'(3)[OF ij'] False by (simp add: acc_inv_def mval_def)
    qed
  qed
  ultimately show "\<exists>t. blocked_cell a b i k j out = Some t \<and>
      acc_inv a b r n c (T \<union> {(i, k, j)}) t" by blast
qed

lemma blocked_box_adds:
  assumes a: "fmat r n a" and b: "fmat n c b" and "i1 \<le> r" "k1 \<le> n" "j1 \<le> c" "i0 \<le> i1" "k0 \<le> k1" "j0 \<le> j1"
  shows "adds (acc_inv a b r n c)
    (for_opt (\<lambda>i. for_opt (\<lambda>k. for_opt (\<lambda>j. blocked_cell a b i k j) j0 (j1 - j0)) k0 (k1 - k0)) i0 (i1 - i0))
    ({i0..<i1} \<times> {k0..<k1} \<times> {j0..<j1})"
proof -
  have j: "adds (acc_inv a b r n c) (for_opt (\<lambda>j. blocked_cell a b i k j) j0 (j1 - j0))
      ({i} \<times> {k} \<times> {j0..<j1})" if "i < r" "k < n" for i k
  proof -
    have "adds (acc_inv a b r n c) (for_opt (\<lambda>j. blocked_cell a b i k j) j0 (j1 - j0))
        (\<Union>j \<in> {j0..<j0 + (j1 - j0)}. {(i, k, j)})"
      by (rule adds_for) (use that assms in \<open>auto intro!: blocked_cell_adds[OF a b]\<close>)
    moreover have "(\<Union>j \<in> {j0..<j0 + (j1 - j0)}. {(i, k, j)}) = {i} \<times> {k} \<times> {j0..<j1}"
      using assms by auto
    ultimately show ?thesis by simp
  qed
  have k: "adds (acc_inv a b r n c)
      (for_opt (\<lambda>k. for_opt (\<lambda>j. blocked_cell a b i k j) j0 (j1 - j0)) k0 (k1 - k0))
      ({i} \<times> {k0..<k1} \<times> {j0..<j1})" if "i < r" for i
  proof -
    have "adds (acc_inv a b r n c)
        (for_opt (\<lambda>k. for_opt (\<lambda>j. blocked_cell a b i k j) j0 (j1 - j0)) k0 (k1 - k0))
        (\<Union>k \<in> {k0..<k0 + (k1 - k0)}. {i} \<times> {k} \<times> {j0..<j1})"
      by (rule adds_for) (use that assms in \<open>auto intro!: j\<close>)
    moreover have "(\<Union>k \<in> {k0..<k0 + (k1 - k0)}. {i} \<times> {k} \<times> {j0..<j1}) = {i} \<times> {k0..<k1} \<times> {j0..<j1}"
      using assms by auto
    ultimately show ?thesis by simp
  qed
  have "adds (acc_inv a b r n c)
      (for_opt (\<lambda>i. for_opt (\<lambda>k. for_opt (\<lambda>j. blocked_cell a b i k j) j0 (j1 - j0)) k0 (k1 - k0)) i0 (i1 - i0))
      (\<Union>i \<in> {i0..<i0 + (i1 - i0)}. {i} \<times> {k0..<k1} \<times> {j0..<j1})"
    by (rule adds_for) (use assms in \<open>auto intro!: k\<close>)
  moreover have "(\<Union>i \<in> {i0..<i0 + (i1 - i0)}. {i} \<times> {k0..<k1} \<times> {j0..<j1}) =
      {i0..<i1} \<times> {k0..<k1} \<times> {j0..<j1}" using assms by auto
  ultimately show ?thesis by simp
qed

definition tile_box :: "nat \<Rightarrow> nat \<Rightarrow> nat \<Rightarrow> nat \<Rightarrow> nat \<Rightarrow> (nat \<times> nat \<times> nat) set" where
  "tile_box ts r n c t = {t * ts..<min (t * ts + ts) r} \<times> {0..<n} \<times> {0..<c}"

lemma blocked_row_tile_adds:
  assumes a: "fmat r n a" and b: "fmat n c b" and ts: "0 < ts" and t: "t * ts < r"
    and fit: "r + ts \<le> 2 ^ 32" "n + ts \<le> 2 ^ 32" "c + ts \<le> 2 ^ 32"
  shows "adds (acc_inv a b r n c) (blocked_row_tile a b ts t) (tile_box ts r n c t)"
proof -
  have s: "m_rows a = r" "m_cols a = n" "m_cols b = c" using a b by (auto simp: fmat_def)
  let ?I = "{t * ts..<min (t * ts + ts) r}"
  have w: "w32 (x + ts) = x + ts" if "x < z" "z + ts \<le> 2 ^ 32" for x z using that by (intro w32_id) linarith
  have wt: "w32 (t * ts) = t * ts" using t fit(1) by (intro w32_id) linarith
  let ?box = "\<lambda>kk jj. for_opt (\<lambda>i. for_opt (\<lambda>k. for_opt (\<lambda>j. blocked_cell a b i k j)
      jj (min (w32 (jj + ts)) c - jj)) kk (min (w32 (kk + ts)) n - kk))
      (t * ts) (min (w32 (t * ts + ts)) r - t * ts)"
  have jj: "adds (acc_inv a b r n c) (for_step (?box kk) 0 c ts)
      (?I \<times> {kk..<min (kk + ts) n} \<times> {0..<c})" if kk: "kk < n" for kk
  proof -
    have "adds (acc_inv a b r n c) (for_step (?box kk) 0 c ts)
        (\<Union>jj \<in> {jj. jj < c \<and> ts dvd jj}. ?I \<times> {kk..<min (kk + ts) n} \<times> {jj..<min (jj + ts) c})"
    proof (rule adds_step[OF ts fit(3)])
      fix jj assume "jj < c"
      then show "adds (acc_inv a b r n c) (?box kk jj) (?I \<times> {kk..<min (kk + ts) n} \<times> {jj..<min (jj + ts) c})"
        unfolding w[OF kk fit(2)] w[OF t fit(1)] using w[OF _ fit(3), of jj] kk t
        by (simp only:) (rule blocked_box_adds[OF a b], auto)
    next
      fix i j assume "i < j" "ts dvd i" "ts dvd j"
      then show "(?I \<times> {kk..<min (kk + ts) n} \<times> {i..<min (i + ts) c}) \<inter>
          (?I \<times> {kk..<min (kk + ts) n} \<times> {j..<min (j + ts) c}) = {}"
        using tiles_disjoint[of i j ts c "min (j + ts) c"] by blast
    qed
    moreover have "(\<Union>jj \<in> {jj. jj < c \<and> ts dvd jj}. ?I \<times> {kk..<min (kk + ts) n} \<times> {jj..<min (jj + ts) c}) =
        ?I \<times> {kk..<min (kk + ts) n} \<times> {0..<c}"
      unfolding tiles_cover[OF ts, of c, symmetric] by blast
    ultimately show ?thesis by (simp only:)
  qed
  have "adds (acc_inv a b r n c) (for_step (\<lambda>kk. for_step (?box kk) 0 c ts) 0 n ts)
      (\<Union>kk \<in> {kk. kk < n \<and> ts dvd kk}. ?I \<times> {kk..<min (kk + ts) n} \<times> {0..<c})"
  proof (rule adds_step[OF ts fit(2)])
    fix i j assume "i < j" "ts dvd i" "ts dvd j"
    then show "(?I \<times> {i..<min (i + ts) n} \<times> {0..<c}) \<inter> (?I \<times> {j..<min (j + ts) n} \<times> {0..<c}) = {}"
      using tiles_disjoint[of i j ts n "min (j + ts) n"] by blast
  qed (rule jj)
  moreover have "(\<Union>kk \<in> {kk. kk < n \<and> ts dvd kk}. ?I \<times> {kk..<min (kk + ts) n} \<times> {0..<c}) =
      tile_box ts r n c t"
    unfolding tile_box_def tiles_cover[OF ts, of n, symmetric] by blast
  ultimately show ?thesis by (simp add: blocked_row_tile_def s wt Let_def)
qed

lemma ceil_tiles: "0 < ts \<Longrightarrow> t < (r + ts - 1) div ts \<longleftrightarrow> t * ts < (r::nat)"
proof -
  assume ts: "0 < ts"
  have "t < (r + ts - 1) div ts \<longleftrightarrow> Suc t \<le> (r + ts - 1) div ts" by (rule less_eq_Suc_le)
  also have "\<dots> \<longleftrightarrow> Suc t * ts \<le> r + ts - 1" using ts by (rule less_eq_div_iff_mult_less_eq)
  also have "\<dots> \<longleftrightarrow> t * ts < r" using ts by auto
  finally show ?thesis .
qed

lemma w32_pred: "0 < x \<Longrightarrow> x \<le> 2 ^ 32 \<Longrightarrow> w32 (w32 x + (2 ^ 32 - 1)) = x - 1"
proof -
  assume x: "0 < x" "x \<le> 2 ^ 32"
  have "w32 (w32 x + (2 ^ 32 - 1)) = (x + (2 ^ 32 - 1)) mod 2 ^ 32" by (simp only: w32_def mod_add_left_eq)
  also have "x + (2 ^ 32 - 1) = x - 1 + 2 ^ 32" using x(1) by simp
  also have "(x - 1 + 2 ^ 32) mod 2 ^ 32 = x - 1" using x by (simp only: mod_add_self2) simp
  finally show ?thesis .
qed

lemma tile_box_disjoint:
  assumes "t < u" "0 < ts"
  shows "tile_box ts r n c t \<inter> tile_box ts r n c u = {}"
proof -
  have "{t * ts..<min (t * ts + ts) r} \<inter> {u * ts..<min (u * ts + ts) r} = {}"
    by (rule tiles_disjoint) (use assms in auto)
  then show ?thesis by (auto simp: tile_box_def)
qed

lemma tile_span_adds:
  assumes a: "fmat r n a" and b: "fmat n c b" and ts: "0 < ts"
    and fit: "r + ts \<le> 2 ^ 32" "n + ts \<le> 2 ^ 32" "c + ts \<le> 2 ^ 32"
    and t: "t1 \<le> (r + ts - 1) div ts" "t0 \<le> t1"
  shows "adds (acc_inv a b r n c) (process_row_tile_span a b ts t0 t1) (\<Union>t \<in> {t0..<t1}. tile_box ts r n c t)"
proof -
  have "adds (acc_inv a b r n c) (for_opt (blocked_row_tile a b ts) t0 (t1 - t0))
      (\<Union>t \<in> {t0..<t0 + (t1 - t0)}. tile_box ts r n c t)"
  proof (rule adds_for)
    fix j assume "j < t0 + (t1 - t0)"
    then have "j < (r + ts - 1) div ts" using t by simp
    then have "j * ts < r" using ceil_tiles[OF ts] by blast
    then show "adds (acc_inv a b r n c) (blocked_row_tile a b ts j) (tile_box ts r n c j)"
      by (rule blocked_row_tile_adds[OF a b ts _ fit])
  qed (rule tile_box_disjoint[OF _ ts])
  then show ?thesis using t(2) by (simp add: process_row_tile_span_def)
qed

lemma worker_span: "(b::nat) \<le> e \<Longrightarrow> e \<le> z \<Longrightarrow> {b..<min z rt} = {b..<min e rt} \<union> {e..<min z rt}"
  by auto

lemma workers_adds:
  assumes a: "fmat r n a" and b: "fmat n c b" and ts: "0 < ts"
    and fit: "r + ts \<le> 2 ^ 32" "n + ts \<le> 2 ^ 32" "c + ts \<le> 2 ^ 32"
    and rt: "rt = (r + ts - 1) div ts" and small: "rt + tpw < 2 ^ 32" and tpw: "0 < tpw"
    and w: "(worker + k) * tpw < 2 ^ 32"
  shows "adds (acc_inv a b r n c) (run_workers a b ts rt tpw worker k)
    (\<Union>t \<in> {worker * tpw..<min ((worker + k) * tpw) rt}. tile_box ts r n c t)"
  using w
proof (induction k arbitrary: worker)
  case 0
  then show ?case by (simp add: adds_def)
next
  case (Suc k)
  let ?b = "worker * tpw" and ?e = "Suc worker * tpw" and ?z = "(worker + Suc k) * tpw"
  have wb: "w32 ?b = ?b" using Suc.prems by (intro w32_id) (simp add: add_mult_distrib)
  have ez: "?e \<le> ?z" by (intro mult_le_mono1) simp
  show ?case
  proof (cases "?b \<ge> rt")
    case True
    then have "{?b..<min ?z rt} = {}" by simp
    then show ?thesis using True wb by (simp add: adds_def)
  next
    case False
    have we: "w32 (?b + tpw) = ?e" using False small by (subst w32_id) auto
    let ?m = "min ?e rt"
    have 1: "adds (acc_inv a b r n c) (process_row_tile_span a b ts ?b ?m) (\<Union>t \<in> {?b..<?m}. tile_box ts r n c t)"
      by (rule tile_span_adds[OF a b ts fit]) (use False rt in auto)
    have 2: "adds (acc_inv a b r n c) (run_workers a b ts rt tpw (Suc worker) k)
        (\<Union>t \<in> {?e..<min ?z rt}. tile_box ts r n c t)"
      using Suc.IH[of "Suc worker"] Suc.prems by simp
    show ?thesis
      unfolding adds_def
    proof (intro allI impI)
      fix T out assume I: "acc_inv a b r n c T out"
        and T: "T \<inter> (\<Union>t \<in> {?b..<min ?z rt}. tile_box ts r n c t) = {}"
      have U: "{?b..<min ?z rt} = {?b..<?m} \<union> {?e..<min ?z rt}"  by (rule worker_span) (use False ez in auto)
      obtain o1 where o1: "process_row_tile_span a b ts ?b ?m out = Some o1"
        "acc_inv a b r n c (T \<union> (\<Union>t \<in> {?b..<?m}. tile_box ts r n c t)) o1"
        using addsD[OF 1 I] T U by blast
      have "tile_box ts r n c t \<inter> tile_box ts r n c u = {}" if "t \<in> {?b..<?m}" "u \<in> {?e..<min ?z rt}" for t u
        by (rule tile_box_disjoint[OF _ ts]) (use that in auto)
      then have "(T \<union> (\<Union>t \<in> {?b..<?m}. tile_box ts r n c t)) \<inter>
          (\<Union>t \<in> {?e..<min ?z rt}. tile_box ts r n c t) = {}" using T U by blast
      from addsD[OF 2 o1(2) this] obtain o2 where o2: "run_workers a b ts rt tpw (Suc worker) k o1 = Some o2"
        "acc_inv a b r n c (T \<union> (\<Union>t \<in> {?b..<?m}. tile_box ts r n c t) \<union>
           (\<Union>t \<in> {?e..<min ?z rt}. tile_box ts r n c t)) o2" by blast
      have "run_workers a b ts rt tpw worker (Suc k) out = Some o2"
        using False o1(1) o2(1) by (simp add: wb we Let_def)
      moreover have "T \<union> (\<Union>t \<in> {?b..<?m}. tile_box ts r n c t) \<union>
           (\<Union>t \<in> {?e..<min ?z rt}. tile_box ts r n c t) =
          T \<union> (\<Union>t \<in> {?b..<min ?z rt}. tile_box ts r n c t)" unfolding U by blast
      ultimately show "\<exists>t. run_workers a b ts rt tpw worker (Suc k) out = Some t \<and>
          acc_inv a b r n c (T \<union> (\<Union>t \<in> {?b..<min ?z rt}. tile_box ts r n c t)) t"
        using o2(2) by auto
    qed
  qed
qed

lemma blocked_tiles_cover: "(\<Union>t \<in> {0..<(r + ts - 1) div ts}. tile_box ts r n c t) = {..<r} \<times> {..<n} \<times> {..<c}"
  if ts: "0 < ts"
proof -
  have "\<exists>t. t * ts < r \<and> t * ts \<le> i \<and> i < t * ts + ts" if "i < r" for i
  proof (intro exI conjI)
    show le: "i div ts * ts \<le> i" by simp
    show "i div ts * ts < r" using le that by (rule order.strict_trans1)
    show "i < i div ts * ts + ts" using dividend_less_div_times[OF ts, of i] by simp
  qed
  then have ex: "\<exists>t \<in> {0..<(r + ts - 1) div ts}. t * ts \<le> i \<and> i < t * ts + ts" if "i < r" for i
    using ceil_tiles[OF ts, of _ r] that by fastforce
  show ?thesis
  proof (intro equalityI subsetI)
    fix x assume "x \<in> {..<r} \<times> {..<n} \<times> {..<c}"
    then show "x \<in> (\<Union>t \<in> {0..<(r + ts - 1) div ts}. tile_box ts r n c t)"
      using ex[of "fst x"] by (auto simp: tile_box_def)
  qed (auto simp: tile_box_def)
qed

lemma ceil_tiles_le: "0 < ts \<Longrightarrow> (r + ts - 1) div ts \<le> (r::nat)"
proof -
  assume ts: "0 < ts"
  have "\<not> r < (r + ts - 1) div ts" using ceil_tiles[OF ts, of r r] ts by auto
  then show ?thesis by simp
qed

text \<open>The accumulators of a fresh output are the empty sum, and after every triple they hold the
  product.\<close>

lemma acc_inv_new: "r < 2 ^ 32 \<Longrightarrow> c < 2 ^ 32 \<Longrightarrow> acc_inv a b r n c {} (matrix_new r c)"
  by (auto simp: acc_inv_def fmat_iff ment_new mval_def matrix_new_shape)

lemma acc_inv_product:
  assumes "acc_inv a b r n c ({..<r} \<times> {..<n} \<times> {..<c}) out" "i < r" "j < c"
  shows "mval out i j = mprod n a b i j"
proof -
  have "{k. k < n \<and> (i, k, j) \<in> {..<r} \<times> {..<n} \<times> {..<c}} = {..<n}" using assms by auto
  then show ?thesis using assms by (simp add: acc_inv_def mprod_def)
qed

lemma MultiplyBlocked_adds:
  assumes a: "fmat r n a" and b: "fmat n c b" and ts: "0 < ts"
    and fit: "r + ts \<le> 2 ^ 32" "n + ts \<le> 2 ^ 32" "c + ts \<le> 2 ^ 32" and w: "r + worker_count \<le> 2 ^ 31"
  shows "\<exists>out. MultiplyBlocked worker_count a b ts = Some out \<and>
    acc_inv a b r n c ({..<r} \<times> {..<n} \<times> {..<c}) out"
proof -
  have s: "m_rows a = r" "m_cols a = n" "m_rows b = n" "m_cols b = c" "r < 2 ^ 32" "c < 2 ^ 32"
    using a b by (auto simp: fmat_def wf_mat_def)
  define rt where "rt = (r + ts - 1) div ts"
  have rt: "w32 (w32 (r + ts) + (2 ^ 32 - 1)) div ts = rt"
    unfolding rt_def using ts fit(1) by (subst w32_pred) simp_all
  have le: "rt \<le> r" unfolding rt_def by (rule ceil_tiles_le[OF ts])
  note new = acc_inv_new[OF s(5,6)]
  have cover: "(\<Union>t \<in> {0..<rt}. tile_box ts r n c t) = {..<r} \<times> {..<n} \<times> {..<c}"
    unfolding rt_def by (rule blocked_tiles_cover[OF ts])
  show ?thesis
  proof (cases "worker_count \<le> 1")
    case True
    have "MultiplyBlocked worker_count a b ts = process_row_tile_span a b ts 0 rt (matrix_new r c)"
      using True ts by (simp only: MultiplyBlocked_def s Let_def rt if_True) simp
    then show ?thesis using addsD[OF tile_span_adds[OF a b ts fit, of rt 0] new] cover by (simp add: rt_def)
  next
    case False
    define tpw where "tpw = (rt + worker_count - 1) div worker_count"
    have pw: "w32 (w32 (rt + worker_count) + (2 ^ 32 - 1)) div worker_count = tpw"
      using False w le by (subst w32_pred) (auto simp: tpw_def)
    have M: "MultiplyBlocked worker_count a b ts = run_workers a b ts rt tpw 0 worker_count (matrix_new r c)"
      using False ts by (simp only: MultiplyBlocked_def s Let_def rt pw if_False) simp
    show ?thesis
    proof (cases "rt = 0")
      case True
      obtain k where "worker_count = Suc k" using False by (cases worker_count) auto
      then show ?thesis using M True cover new by (simp add: w32_def)
    next
      case nz: False
      have tl: "tpw \<le> rt" unfolding tpw_def by (rule ceil_tiles_le) (use False in simp)
      have t0: "0 < tpw" unfolding tpw_def using ceil_tiles[of worker_count 0 rt] False nz by simp
      have mul: "worker_count * tpw \<le> rt + worker_count - 1"
        unfolding tpw_def by (rule times_div_less_eq_dividend)
      have all: "rt \<le> worker_count * tpw"
        using ceil_tiles[of worker_count tpw rt] False by (simp add: tpw_def mult.commute)
      have "adds (acc_inv a b r n c) (run_workers a b ts rt tpw 0 worker_count)
          (\<Union>t \<in> {0 * tpw..<min ((0 + worker_count) * tpw) rt}. tile_box ts r n c t)"
        by (rule workers_adds[OF a b ts fit]) (use le tl t0 mul w False in \<open>auto simp: rt_def\<close>)
      moreover have "{0 * tpw..<min ((0 + worker_count) * tpw) rt} = {0..<rt}" using all by simp
      ultimately have "adds (acc_inv a b r n c) (run_workers a b ts rt tpw 0 worker_count)
          ({..<r} \<times> {..<n} \<times> {..<c})" by (simp only: cover)
      from addsD[OF this new] M show ?thesis by simp
    qed
  qed
qed

theorem MultiplyBlocked_eq_mul:
  assumes a: "fmat r n a" and b: "fmat n c b" and ts: "0 < ts"
    and fit: "r + ts \<le> 2 ^ 32" "n + ts \<le> 2 ^ 32" "c + ts \<le> 2 ^ 32" and w: "r + worker_count \<le> 2 ^ 31"
    and fits: "dot_fits neon n"
  shows "MultiplyBlocked worker_count a b ts = matrix_mul neon a b"
proof -
  obtain out where out: "MultiplyBlocked worker_count a b ts = Some out"
    "acc_inv a b r n c ({..<r} \<times> {..<n} \<times> {..<c}) out" using MultiplyBlocked_adds[OF assms(1-7)] by blast
  obtain m where m: "matrix_mul neon a b = Some m" "fmat r c m"
    "\<And>i j. i < r \<Longrightarrow> j < c \<Longrightarrow> mval m i j = mprod n a b i j"
    by (rule matrix_mul_correct[OF a b fits]) blast
  have "out = m"
    by (rule fmat_eqI[OF _ m(2)]) (use out(2) acc_inv_product[OF out(2)] m(3) in \<open>auto simp: acc_inv_def\<close>)
  then show ?thesis using out(1) m(1) by simp
qed

section \<open>Identity, expansion from a seed, content hash\<close>

lemma matrix_identity_correct:
  assumes "n < 2 ^ 32"
  obtains I where "matrix_identity n = Some I" "fmat n n I"
    "\<And>i j. i < n \<Longrightarrow> j < n \<Longrightarrow> mval I i j = (if i = j then 1 else 0)"
proof -
  let ?P = "\<lambda>k out. shape n n out \<and> (\<forall>i < n. \<forall>j < n. ment out i j = (if i = j \<and> i < k then 1 else 0))"
  have "\<exists>I. matrix_identity n = Some I \<and> ?P (0 + n) I"
    unfolding matrix_identity_def
  proof (rule for_opt_rule[where I = ?P])
    show "?P 0 (matrix_new n n)" using assms by (simp add: matrix_new_shape ment_new)
  next
    fix k out assume "0 \<le> k" and k: "k < 0 + n" and P: "?P k out"
    obtain out' where "matrix_set out k k 1 = Some out'" "shape n n out'"
      "\<And>i' j'. i' < n \<Longrightarrow> j' < n \<Longrightarrow> ment out' i' j' = (if i' = k \<and> j' = k then 1 else ment out i' j')"
      by (rule matrix_set_shape[of n n out k k 1]) (use P k in auto)
    then show "\<exists>t. matrix_set out k k 1 = Some t \<and> ?P (Suc k) t" using P by auto
  qed
  then obtain I where I: "matrix_identity n = Some I" "?P n I" by auto
  show thesis
  proof (rule that[OF I(1)])
    show "fmat n n I" using I(2) by (auto simp: fmat_iff)
    show "mval I i j = (if i = j then 1 else 0)" if "i < n" "j < n" for i j
      using I(2) that by (auto simp: mval_def fval_def)
  qed
qed

lemma FromSeed_correct:
  assumes n: "n * n < 2 ^ 32"
  obtains m where "FromSeed seed n = Some m" "fmat n n m"
    "\<And>i j. i < n \<Longrightarrow> j < n \<Longrightarrow> ment m i j = from_oracle seed (of_nat (i * n + j))"
proof -
  have n32: "n < 2 ^ 32" using n le_square[of n] by linarith
  let ?f = "\<lambda>row col out. matrix_set out row col (from_oracle seed (of_nat (w32 (row * n + col))))"
  obtain m where m: "for_opt (\<lambda>i. for_opt (?f i) 0 n) 0 n (matrix_new n n) = Some m" "shape n n m"
    "\<And>i j. i < n \<Longrightarrow> j < n \<Longrightarrow> ment m i j =
       (if 0 \<le> i \<and> i < 0 + n \<and> 0 \<le> j \<and> j < 0 + n
        then from_oracle seed (of_nat (w32 ((i - 0) * n + (j - 0)))) else ment (matrix_new n n) i j)"
    by (rule fill_rect[of n n "matrix_new n n" 0 n 0 n ?f
          "\<lambda>i k. from_oracle seed (of_nat (w32 (i * n + k)))"]) (use n32 matrix_new_shape in auto)
  have "w32 (i * n + j) = i * n + j" if "i < n" "j < n" for i j
    using idx_less[OF that] n by (intro w32_id) linarith
  then have "ment m i j = from_oracle seed (of_nat (i * n + j))" if "i < n" "j < n" for i j
    using m(3) that by simp
  moreover from this have "fmat n n m" using m(2) by (simp add: fmat_iff from_oracle_felem)
  moreover have "FromSeed seed n = Some m" using m(1) n by (simp add: FromSeed_def)
  ultimately show thesis using that by blast
qed

lemma ContentHash_correct: "ContentHash m = SHA256 (concat (map WriteLE32 (m_data m)))"
  using csha.final_writes[of "map WriteLE32 (m_data m)"]
  by (simp add: ContentHash_def HashWriter_GetSHA256_def fold_map comp_def)

section \<open>The seed cache under interleaving\<close>

text \<open>What the cache promises: every matrix it hands out is the expansion of the entry's own seed, no
  key is cached twice, and the capacity is never exceeded.\<close>

abbreviation ce_key :: "FromSeedCacheEntry \<Rightarrow> uint256 \<times> nat" where
  "ce_key e \<equiv> (ce_seed e, ce_n e)"

definition cache_ok :: "FromSeedCacheEntry list \<Rightarrow> bool" where
  "cache_ok cache \<longleftrightarrow> (\<forall>e \<in> set cache. ce_matrix e = FromSeed (ce_seed e) (ce_n e)) \<and>
     distinct (map ce_key cache) \<and> length cache \<le> FROM_SEED_CACHE_CAPACITY"

fun phase_ok :: "shared_phase \<Rightarrow> bool" where
  "phase_ok (Returned seed n m) \<longleftrightarrow> FromSeed seed n = Some m"
| "phase_ok _ \<longleftrightarrow> True"

lemma cache_take_Some:
  "cache_take seed n es = Some (h, rest) \<Longrightarrow>
     ce_key h = (seed, n) \<and> (\<exists>us vs. es = us @ h # vs \<and> rest = us @ vs)"
proof (induction es arbitrary: rest)
  case (Cons e es)
  show ?case
  proof (cases "ce_n e \<noteq> n \<or> ce_seed e \<noteq> seed")
    case True
    then obtain rest' where r: "cache_take seed n es = Some (h, rest')" "rest = e # rest'"
      using Cons.prems by (auto split: option.splits)
    from Cons.IH[OF r(1)] obtain us vs where "ce_key h = (seed, n)" "es = us @ h # vs" "rest' = us @ vs" by blast
    then show ?thesis using r(2) by (auto intro: exI[of _ "e # us"])
  next
    case False
    then show ?thesis using Cons.prems by (auto intro: exI[of _ "[]"])
  qed
qed simp

lemma cache_take_None: "cache_take seed n es = None \<longleftrightarrow> (seed, n) \<notin> ce_key ` set es"
  by (induction es) (auto split: option.splits)

lemma shared_lookup_ok:
  assumes "cache_ok cache" "shared_lookup seed n cache = (r, cache')"
  shows "cache_ok cache' \<and> (\<forall>m. r = Some m \<longrightarrow> FromSeed seed n = Some m)"
proof (cases "cache_take seed n cache")
  case None
  then show ?thesis using assms by (simp add: shared_lookup_def)
next
  case (Some p)
  then obtain h rest where p: "cache_take seed n cache = Some (h, rest)" by (cases p) auto
  from cache_take_Some[OF p] obtain us vs where u: "ce_key h = (seed, n)" "cache = us @ h # vs" "rest = us @ vs"
    by blast
  have "cache_ok (h # rest)" using assms(1) by (auto simp: cache_ok_def u(2,3))
  moreover have "ce_matrix h = FromSeed seed n" using assms(1) u(1,2) by (auto simp: cache_ok_def)
  ultimately show ?thesis using assms p by (auto simp: shared_lookup_def split: option.splits)
qed

lemma cache_ok_insert:
  assumes "cache_ok cache" "(seed, n) \<notin> ce_key ` set cache" "FromSeed seed n = Some m"
  shows "cache_ok (take FROM_SEED_CACHE_CAPACITY (\<lparr>ce_seed = seed, ce_n = n, ce_matrix = Some m\<rparr> # cache))"
proof -
  let ?es = "\<lparr>ce_seed = seed, ce_n = n, ce_matrix = Some m\<rparr> # cache"
  have "distinct (map ce_key ?es)" using assms by (auto simp: cache_ok_def)
  then have "distinct (map ce_key (take FROM_SEED_CACHE_CAPACITY ?es))"
    by (simp only: take_map[symmetric] distinct_take)
  moreover have "\<forall>e \<in> set ?es. ce_matrix e = FromSeed (ce_seed e) (ce_n e)"
    using assms by (simp add: cache_ok_def)
  then have "\<forall>e \<in> set (take FROM_SEED_CACHE_CAPACITY ?es). ce_matrix e = FromSeed (ce_seed e) (ce_n e)"
    by (blast dest: in_set_takeD)
  ultimately show ?thesis unfolding cache_ok_def by (simp only: length_take min.cobounded2)
qed

lemma shared_publish_ok:
  assumes "cache_ok cache" "FromSeed seed n = Some built" "shared_publish seed n built cache = (m, cache')"
  shows "cache_ok cache' \<and> m = built"
proof (cases "cache_take seed n cache")
  case None
  then have "cache_ok (take FROM_SEED_CACHE_CAPACITY (\<lparr>ce_seed = seed, ce_n = n, ce_matrix = Some built\<rparr> # cache))"
    by (intro cache_ok_insert[OF assms(1) _ assms(2)]) (simp add: cache_take_None)
  then show ?thesis using assms(3) None by (auto simp: shared_publish_def)
next
  case (Some p)
  then obtain h rest where p: "cache_take seed n cache = Some (h, rest)" by (cases p) auto
  from cache_take_Some[OF p] have "ce_key h = (seed, n)" "h \<in> set cache" by auto
  then have "ce_matrix h = Some built" using assms(1,2) by (auto simp: cache_ok_def)
  then show ?thesis using assms p by (auto simp: shared_publish_def)
qed

lemma shared_step_ok:
  "shared_step s s' \<Longrightarrow> cache_ok (fst s) \<and> (\<forall>t. phase_ok (snd s t)) \<Longrightarrow>
     cache_ok (fst s') \<and> (\<forall>t. phase_ok (snd s' t))"
proof (induction rule: shared_step.induct)
  case (hit ph t seed n cache m cache')
  then show ?case using shared_lookup_ok[of cache seed n] by auto
next
  case (miss ph t seed n cache cache')
  then show ?case using shared_lookup_ok[of cache seed n] by auto
next
  case (publish ph t seed n built cache m cache')
  then show ?case using shared_publish_ok[of cache seed n built] by auto
qed auto

lemma ResolveBlocked_bound:
  assumes "0 < ts" "r + ts \<le> 2 ^ 32"
  shows "ResolveBlockedMultiplyWorkerCount env hw limit r c n ts \<le> max 1 r"
proof -
  let ?rt = "w32 (w32 (r + ts) + (2 ^ 32 - 1)) div ts"
  have rt: "?rt \<le> r" using assms ceil_tiles_le[of ts r] by (subst w32_pred) simp_all
  have clamp: "ClampSolveWorkerThreads limit w \<le> max 1 r" if "w \<le> ?rt" for w
    using that rt by (auto simp: ClampSolveWorkerThreads_def)
  show ?thesis
    unfolding ResolveBlockedMultiplyWorkerCount_def Let_def
    using clamp[OF min.cobounded1] by (simp split: option.split)
qed

section \<open>Properties\<close>

text \<open>C10: The tiled multiplication \<open>MultiplyBlocked\<close>, run with however many worker threads the host
  resolves (environment override, hardware concurrency, solver limit), never fails on well-formed
  field matrices and returns exactly the matrix of \<open>operator*\<close>, on the scalar and on the NEON path:
  the entries are the dot products over the field. The dimensions stay below \<open>2 ^ 30\<close>, so that
  no tile bound wraps in 32 bits.\<close>

theorem blocked_multiply_canonical:
  assumes "fmat r n a" "fmat n c b" "0 < ts" "r \<le> 2 ^ 30" "n \<le> 2 ^ 30" "c \<le> 2 ^ 30" "ts \<le> 2 ^ 30"
  shows "\<exists>m. MultiplyBlocked (ResolveBlockedMultiplyWorkerCount env hw limit r c n ts) a b ts = Some m \<and>
    matrix_mul neon a b = Some m \<and> fmat r c m \<and>
    (\<forall>i < r. \<forall>j < c. mval m i j = (\<Sum>k < n. mval a i k * mval b k j))"
proof -
  have "ResolveBlockedMultiplyWorkerCount env hw limit r c n ts \<le> max 1 r"
    by (rule ResolveBlocked_bound) (use assms in auto)
  then have w: "r + ResolveBlockedMultiplyWorkerCount env hw limit r c n ts \<le> 2 ^ 31"
    using assms(4) by simp
  have fits: "dot_fits neon n" using assms(5) by (simp add: dot_fits_def)
  obtain m where m: "matrix_mul neon a b = Some m" "fmat r c m"
    "\<And>i j. i < r \<Longrightarrow> j < c \<Longrightarrow> mval m i j = mprod n a b i j"
    by (rule matrix_mul_correct[OF assms(1,2) fits]) blast
  moreover have "MultiplyBlocked (ResolveBlockedMultiplyWorkerCount env hw limit r c n ts) a b ts = matrix_mul neon a b"
    by (rule MultiplyBlocked_eq_mul[OF assms(1,2,3) _ _ _ w fits]) (use assms in auto)
  ultimately show ?thesis by (auto simp: mprod_def)
qed

theorem blocked_multiply_canonical_witness:
  "\<exists>m. MultiplyBlocked (ResolveBlockedMultiplyWorkerCount (Some 2) 8 0 3 2 2 2)
       \<lparr>m_rows = 3, m_cols = 2, m_data = [1, 2, 3, 4, 5, 6]\<rparr> \<lparr>m_rows = 2, m_cols = 2, m_data = [7, 8, 9, 10]\<rparr> 2 = Some m \<and>
     matrix_mul True \<lparr>m_rows = 3, m_cols = 2, m_data = [1, 2, 3, 4, 5, 6]\<rparr>
       \<lparr>m_rows = 2, m_cols = 2, m_data = [7, 8, 9, 10]\<rparr> = Some m"
proof -
  have "fmat 3 2 \<lparr>m_rows = 3, m_cols = 2, m_data = [1, 2, 3, 4, 5, 6]\<rparr>"
    "fmat 2 2 \<lparr>m_rows = 2, m_cols = 2, m_data = [7, 8, 9, 10]\<rparr>"
    by (simp_all add: fmat_def wf_mat_def felems_def)
  from blocked_multiply_canonical[OF this, of 2 "Some 2" 8 0 True] show ?thesis by auto
qed

text \<open>C11: Threads that call \<open>SharedFromSeed\<close> interleave between its two locked regions. Whatever the
  interleaving, every matrix a call returns is the one \<open>FromSeed\<close> expands from the caller's own seed
  and dimension, no key is cached twice and the cache never exceeds its capacity of eight entries.\<close>

theorem shared_from_seed_safe:
  assumes "shared_step\<^sup>*\<^sup>* ([], ph0) (cache, ph)" "\<forall>t. \<exists>seed n. ph0 t = Calling seed n"
  shows "(\<forall>t seed n m. ph t = Returned seed n m \<longrightarrow> FromSeed seed n = Some m) \<and>
    length cache \<le> 8 \<and> distinct (map (\<lambda>e. (ce_seed e, ce_n e)) cache)"
proof -
  have start: "cache_ok [] \<and> (\<forall>t. phase_ok (ph0 t))"
    using assms(2) by (metis cache_ok_def distinct.simps(1) empty_iff le0 list.map(1) list.set(1) list.size(3) phase_ok.simps(2))
  have "cache_ok (fst s) \<and> (\<forall>t. phase_ok (snd s t))" if "shared_step\<^sup>*\<^sup>* ([], ph0) s" for s
    using that by (induction rule: rtranclp_induct) (use start shared_step_ok in auto)
  from this[OF assms(1)] have ok: "cache_ok cache" "\<forall>t. phase_ok (ph t)" by auto
  then have "FromSeed seed n = Some m" if "ph t = Returned seed n m" for t seed n m
    using that by (metis phase_ok.simps(1))
  then show ?thesis using ok(1) by (auto simp: cache_ok_def FROM_SEED_CACHE_CAPACITY_def)
qed

text \<open>Two callers race on the same key: both miss, both build, the second finds the entry of the
  first.\<close>

theorem shared_from_seed_safe_witness:
  "\<exists>cache ph m. shared_step\<^sup>*\<^sup>* ([], \<lambda>t. Calling (replicate 32 0) 1) (cache, ph) \<and>
     ph 0 = Returned (replicate 32 0) 1 m \<and> ph 1 = Returned (replicate 32 0) 1 m \<and>
     FromSeed (replicate 32 0) 1 = Some m \<and> length cache \<le> 8"
proof -
  let ?s = "replicate 32 0 :: uint256" and ?ph = "\<lambda>t::nat. Calling (replicate 32 0) 1"
  obtain m where m: "FromSeed ?s 1 = Some m" by (rule FromSeed_correct[of 1 ?s]) auto
  let ?c = "[\<lparr>ce_seed = ?s, ce_n = 1, ce_matrix = Some m\<rparr>]"
  let ?p1 = "?ph(0 := Building ?s 1)" and ?p2 = "?ph(0 := Building ?s 1, 1 := Building ?s 1)"
  let ?p3 = "?p2(0 := Returned ?s 1 m)" and ?p4 = "?p2(0 := Returned ?s 1 m, 1 := Returned ?s 1 m)"
  have s1: "shared_step ([], ?ph) ([], ?p1)" by (rule shared_step.miss) (simp_all add: shared_lookup_def)
  have s2: "shared_step ([], ?p1) ([], ?p2)" by (rule shared_step.miss) (simp_all add: shared_lookup_def)
  have s3: "shared_step ([], ?p2) (?c, ?p3)"
    by (rule shared_step.publish[OF _ m]) (simp_all add: shared_publish_def FROM_SEED_CACHE_CAPACITY_def)
  have s4: "shared_step (?c, ?p3) (?c, ?p4)"
    by (rule shared_step.publish[OF _ m]) (simp_all add: shared_publish_def)
  have steps: "shared_step\<^sup>*\<^sup>* ([], ?ph) (?c, ?p4)"
    by (rule rtranclp.rtrancl_into_rtrancl[where r = shared_step, OF _ s4], rule rtranclp.rtrancl_into_rtrancl[where r = shared_step, OF _ s3],
        rule rtranclp.rtrancl_into_rtrancl[where r = shared_step, OF _ s2], rule r_into_rtranclp[where r = shared_step, OF s1])
  have "length ?c \<le> 8" using shared_from_seed_safe[OF steps] by simp
  then show ?thesis using steps m by (intro exI[of _ ?c] exI[of _ ?p4] exI[of _ m] conjI) simp_all
qed

text \<open>C12: A block written into a matrix with \<open>set_block\<close> is read back by \<open>block\<close>, and entry by entry
  through \<open>block_view\<close> without a copy; every entry outside the block keeps its value, and a block whose
  shape is not \<open>b * b\<close> is refused.\<close>

theorem set_block_roundtrip:
  assumes "shape r c m" "shape b b blk" "0 < b" "Suc bi * b \<le> r" "Suc bj * b \<le> c"
  shows "\<exists>m' v. matrix_set_block m bi bj b blk = Some m' \<and> shape r c m' \<and>
    matrix_block m' bi bj b = Some blk \<and> matrix_block_view m' bi bj b = Some v \<and>
    (\<forall>i < b. \<forall>j < b. view_at v i j = matrix_at blk i j) \<and>
    (\<forall>i < r. \<forall>j < c. (i div b, j div b) \<noteq> (bi, bj) \<longrightarrow> matrix_at m' i j = matrix_at m i j) \<and>
    (\<forall>x. (m_rows x, m_cols x) \<noteq> (b, b) \<longrightarrow> matrix_set_block m bi bj b x = None)"
proof -
  obtain m' where m': "matrix_set_block m bi bj b blk = Some m'" "shape r c m'"
    "\<And>i j. i < r \<Longrightarrow> j < c \<Longrightarrow> ment m' i j =
       (if bi * b \<le> i \<and> i < bi * b + b \<and> bj * b \<le> j \<and> j < bj * b + b
        then ment blk (i - bi * b) (j - bj * b) else ment m i j)"
    by (rule matrix_set_block_correct[OF assms(1,2,4,5,3)]) blast
  obtain k where k: "matrix_block m' bi bj b = Some k" "shape b b k"
    "\<And>i j. i < b \<Longrightarrow> j < b \<Longrightarrow> ment k i j = ment m' (bi * b + i) (bj * b + j)"
    by (rule matrix_block_correct[OF m'(2) assms(3-5)]) blast
  obtain v where v: "matrix_block_view m' bi bj b = Some v"
    "\<And>i j. i < b \<Longrightarrow> j < b \<Longrightarrow> view_at v i j = Some (ment m' (bi * b + i) (bj * b + j))"
    by (rule matrix_block_view_correct[OF m'(2) assms(3-5)]) blast
  have in_block: "ment m' (bi * b + i) (bj * b + j) = ment blk i j" if "i < b" "j < b" for i j
    using m'(3)[of "bi * b + i" "bj * b + j"] that assms(4,5) by simp
  have "k = blk" by (rule matrix_eqI[OF k(2) assms(2)]) (simp add: k(3) in_block)
  moreover have "view_at v i j = matrix_at blk i j" if "i < b" "j < b" for i j
    using that by (simp add: v(2) in_block matrix_at_shape[OF assms(2)])
  moreover have "matrix_at m' i j = matrix_at m i j" if ij: "i < r" "j < c" and out: "(i div b, j div b) \<noteq> (bi, bj)" for i j
  proof -
    have "x div b = y" if "y * b \<le> x" "x < y * b + b" for x y
      using that by (intro div_nat_eqI) (simp_all add: mult.commute)
    then have "\<not> (bi * b \<le> i \<and> i < bi * b + b \<and> bj * b \<le> j \<and> j < bj * b + b)" using out by blast
    then have "ment m' i j = ment m i j" by (simp only: m'(3)[OF ij] if_False)
    then show ?thesis by (simp add: matrix_at_shape[OF m'(2)] matrix_at_shape[OF assms(1)] ij)
  qed
  moreover have "matrix_set_block m bi bj b x = None" if "(m_rows x, m_cols x) \<noteq> (b, b)" for x
    using that by (auto simp: matrix_set_block_def)
  ultimately show ?thesis using m'(1,2) k(1) v(1) by blast
qed

theorem set_block_roundtrip_witness:
  "\<exists>m'. matrix_set_block (matrix_new 4 4) 1 0 2 \<lparr>m_rows = 2, m_cols = 2, m_data = [1, 2, 3, 4]\<rparr> = Some m' \<and>
     matrix_block m' 1 0 2 = Some \<lparr>m_rows = 2, m_cols = 2, m_data = [1, 2, 3, 4]\<rparr>"
  using set_block_roundtrip[of 4 4 "matrix_new 4 4" 2 "\<lparr>m_rows = 2, m_cols = 2, m_data = [1, 2, 3, 4]\<rparr>" 1 0]
  by (auto simp: shape_def wf_mat_def matrix_new_def)

end
