(* ===== verification/Freivalds.thy ===== *)
theory Freivalds
  imports Matrix
begin

text \<open>Freivalds' probabilistic check of a matrix product, after src/matmul/freivalds.cpp: the
  challenge hash that binds the vectors to all three matrices, the derivation of the challenge vectors,
  the matrix-vector product, and the rounds of \<open>Verify\<close>. The lemmas show that a true product
  passes every round, that a pass means every derived challenge was answered, and the documented error
  bound: against a wrong product at most one challenge vector in \<open>2 ^ 31 - 1\<close> passes a round.\<close>

section \<open>Definitions\<close>

record VerifyResult =
  passed :: bool
  rounds_executed :: nat
  ops_performed :: nat

definition SaturatingAdd_u64 :: "nat \<Rightarrow> nat \<Rightarrow> nat" where
  "SaturatingAdd_u64 lhs rhs = (if rhs > 2 ^ 64 - 1 - lhs then 2 ^ 64 - 1 else lhs + rhs)"

definition HashMatrix :: "CSHA256 \<Rightarrow> u8 \<Rightarrow> Matrix \<Rightarrow> CSHA256 option" where
  "HashMatrix hasher matrix_tag m =
     (let h1 = Write256 hasher [matrix_tag];
          h2 = Write256 h1 (WriteLE32 (of_nat (m_rows m)));
          h3 = Write256 h2 (WriteLE32 (of_nat (m_cols m)));
          elements = m_rows m * m_cols m in
      for_opt (\<lambda>i h. do { v \<leftarrow> nth_opt (m_data m) i; Some (Write256 h (WriteLE32 v)) }) 0 elements h3)"

definition DeriveChallengeSeed :: "Matrix \<Rightarrow> Matrix \<Rightarrow> Matrix \<Rightarrow> uint256 \<Rightarrow> uint256 option" where
  "DeriveChallengeSeed A B C sigma = do {
     let h0 = Write256 (Write256 CSHA256_init [0xF4]) sigma;
     h1 \<leftarrow> HashMatrix h0 0xA1 A;
     h2 \<leftarrow> HashMatrix h1 0xB2 B;
     h3 \<leftarrow> HashMatrix h2 0xC3 C;
     Some (HashWriter_GetSHA256 h3)
   }"

definition DeriveRandomVector :: "uint256 \<Rightarrow> nat \<Rightarrow> nat \<Rightarrow> Element list" where
  "DeriveRandomVector sigma round n =
     (let h = Write256 (Write256 (Write256 (Write256 CSHA256_init [0xF4]) sigma)
                (WriteLE32 (of_nat round))) (WriteLE32 (of_nat n));
          round_seed = HashWriter_GetSHA256 h in
      map (\<lambda>i. from_oracle round_seed (of_nat i)) [0..<n])"

definition MatVecMul :: "bool \<Rightarrow> Matrix \<Rightarrow> Element list \<Rightarrow> Element list option" where
  "MatVecMul neon matrix vector =
     (if m_cols matrix \<noteq> length vector then Some []
      else for_opt (\<lambda>row out. do {
             v \<leftarrow> field_dot neon (drop (row * m_cols matrix) (m_data matrix)) vector (m_cols matrix);
             Some (out[row := v])
           }) 0 (m_rows matrix) (replicate (m_rows matrix) 0))"

text \<open>One round on a given vector: \<open>None\<close> inside the option is the early return on an empty product.\<close>

definition freivalds_round :: "bool \<Rightarrow> Matrix \<Rightarrow> Matrix \<Rightarrow> Matrix \<Rightarrow> Element list \<Rightarrow> bool option option" where
  "freivalds_round neon A B C random_vector = do {
     y \<leftarrow> MatVecMul neon B random_vector;
     if y = [] then Some None
     else do {
       z \<leftarrow> MatVecMul neon A y;
       if z = [] then Some None
       else do {
         w \<leftarrow> MatVecMul neon C random_vector;
         if w = [] then Some None else Some (Some (z = w))
       }
     }
   }"

fun verify_rounds :: "bool \<Rightarrow> Matrix \<Rightarrow> Matrix \<Rightarrow> Matrix \<Rightarrow> uint256 \<Rightarrow> nat \<Rightarrow> nat \<Rightarrow> nat \<Rightarrow>
    VerifyResult \<Rightarrow> VerifyResult option" where
  "verify_rounds neon A B C challenge_seed per_round_ops round 0 result = Some (result\<lparr>passed := True\<rparr>)"
| "verify_rounds neon A B C challenge_seed per_round_ops round (Suc left) result = do {
     answer \<leftarrow> freivalds_round neon A B C (DeriveRandomVector challenge_seed round (m_cols C));
     case answer of
       None \<Rightarrow> Some result
     | Some ok \<Rightarrow>
         let result' = result\<lparr>ops_performed := SaturatingAdd_u64 (ops_performed result) per_round_ops,
                              rounds_executed := w32 (rounds_executed result + 1)\<rparr> in
         if \<not> ok then Some result'
         else verify_rounds neon A B C challenge_seed per_round_ops (Suc round) left result'
   }"

definition Freivalds_Verify :: "bool \<Rightarrow> Matrix \<Rightarrow> Matrix \<Rightarrow> Matrix \<Rightarrow> uint256 \<Rightarrow> nat \<Rightarrow> VerifyResult option" where
  "Freivalds_Verify neon A B C sigma num_rounds =
     (let result = \<lparr>passed = False, rounds_executed = 0, ops_performed = 0\<rparr> in
      if m_cols A \<noteq> m_rows B then Some result
      else if m_rows A \<noteq> m_rows C then Some result
      else if m_cols B \<noteq> m_cols C then Some result
      else if num_rounds = 0 then Some (result\<lparr>passed := True\<rparr>)
      else do {
        let per_round_ops = w64 (w64 (w64 (m_rows B * m_cols B) + w64 (m_rows A * m_cols A)) +
              w64 (m_rows C * m_cols C));
        challenge_seed \<leftarrow> DeriveChallengeSeed A B C sigma;
        verify_rounds neon A B C challenge_seed per_round_ops 0 num_rounds result
      })"

section \<open>The hashes and the matrix-vector product\<close>

lemma HashMatrix_correct:
  assumes "wf_mat m"
  shows "HashMatrix h tag m = Some (fold (\<lambda>d st. Write256 st d)
    ([tag] # WriteLE32 (of_nat (m_rows m)) # WriteLE32 (of_nat (m_cols m)) # map WriteLE32 (m_data m)) h)"
  unfolding HashMatrix_def Let_def
  by (subst for_feed[where xs = "m_data m" and g = "\<lambda>v h. Write256 h (WriteLE32 v)"])
     (use assms in \<open>auto simp: wf_mat_def fold_map comp_def\<close>)

definition matrix_preimage :: "u8 \<Rightarrow> Matrix \<Rightarrow> bytes" where
  "matrix_preimage tag m = tag # WriteLE32 (of_nat (m_rows m)) @ WriteLE32 (of_nat (m_cols m)) @
     concat (map WriteLE32 (m_data m))"

lemma DeriveChallengeSeed_correct:
  assumes "wf_mat A" "wf_mat B" "wf_mat C"
  shows "DeriveChallengeSeed A B C sigma = Some (SHA256 (0xF4 # sigma @
    matrix_preimage 0xA1 A @ matrix_preimage 0xB2 B @ matrix_preimage 0xC3 C))"
proof -
  let ?p = "\<lambda>tag m. [tag] # WriteLE32 (of_nat (m_rows m)) # WriteLE32 (of_nat (m_cols m)) # map WriteLE32 (m_data m)"
  let ?ds = "[0xF4] # sigma # ?p 0xA1 A @ ?p 0xB2 B @ ?p 0xC3 C"
  have "DeriveChallengeSeed A B C sigma = Some (HashWriter_GetSHA256 (fold (\<lambda>d st. Write256 st d) ?ds CSHA256_init))"
    unfolding DeriveChallengeSeed_def Let_def
    by (simp only: HashMatrix_correct[OF assms(1)] HashMatrix_correct[OF assms(2)] HashMatrix_correct[OF assms(3)]
        bind.bind_lunit fold_append fold_simps comp_apply)
  moreover have "HashWriter_GetSHA256 (fold (\<lambda>d st. Write256 st d) ?ds CSHA256_init) = SHA256 (concat ?ds)"
    using csha.final_writes[of ?ds] by (simp only: HashWriter_GetSHA256_def comp_apply)
  ultimately show ?thesis by (simp add: matrix_preimage_def)
qed

lemma DeriveRandomVector_vec: "length (DeriveRandomVector s k n) = n" "felems (DeriveRandomVector s k n)"
  by (auto simp: DeriveRandomVector_def Let_def felems_def from_oracle_felem)

text \<open>The entries of a matrix-vector product over the field.\<close>

definition vprod :: "nat \<Rightarrow> Matrix \<Rightarrow> Element list \<Rightarrow> nat \<Rightarrow> Z31" where
  "vprod n m x i = (\<Sum>k<n. mval m i k * fval (x ! k))"

lemma MatVecMul_correct:
  assumes m: "fmat r n m" and x: "length x = n" "felems x" and fits: "0 < r \<Longrightarrow> dot_fits neon n"
  obtains y where "MatVecMul neon m x = Some y" "length y = r" "felems y"
    "\<And>i. i < r \<Longrightarrow> fval (y ! i) = vprod n m x i"
proof -
  have s: "length (m_data m) = r * n" "m_cols m = n" "m_rows m = r" "felems (m_data m)"
    using m by (auto simp: fmat_def wf_mat_def)
  let ?d = "\<lambda>i. field_dot neon (drop (i * n) (m_data m)) x n"
  have ex: "\<exists>v. ?d i = Some v \<and> fval v = vprod n m x i \<and> felem v" if i: "i < r" for i
  proof (rule field_dot_fval[of "drop (i * n) (m_data m)" x n neon])
    have "Suc i * n \<le> r * n" using i by (intro mult_le_mono1) simp
    then show "n \<le> length (drop (i * n) (m_data m))" using s by simp
    have le: "i * n \<le> length (m_data m)" using i s by simp
    fix v assume v: "?d i = Some v" "fval v = (\<Sum>k<n. fval (drop (i * n) (m_data m) ! k) * fval (x ! k))" "felem v"
    have "fval v = vprod n m x i" unfolding v(2) vprod_def
      by (rule sum.cong) (use le s in \<open>auto simp: mval_def ment_def nth_drop\<close>)
    with v show ?thesis by blast
  qed (use s x i fits in \<open>auto simp: felems_drop\<close>)
  define h where "h = (\<lambda>i. the (?d i))"
  have h: "?d i = Some (h i)" "fval (h i) = vprod n m x i" "felem (h i)" if "i < r" for i
    using ex[OF that] by (auto simp: h_def)
  have "MatVecMul neon m x = Some (map h [0..<r])"
    unfolding MatVecMul_def s using x(1) by (simp add: for_fill[OF h(1)])
  then show thesis by (rule that) (use h in \<open>auto simp: felems_def\<close>)
qed

section \<open>Rounds\<close>

text \<open>What a round checks: the rows of \<open>A * B - C\<close> are orthogonal to the challenge vector.\<close>

definition residue :: "nat \<Rightarrow> Matrix \<Rightarrow> Matrix \<Rightarrow> Matrix \<Rightarrow> nat \<Rightarrow> nat \<Rightarrow> Z31" where
  "residue n A B C i j = mprod n A B i j - mval C i j"

lemma vprod_assoc:
  assumes "\<And>k. k < n \<Longrightarrow> fval (y ! k) = vprod c B x k"
  shows "vprod n A y i - vprod c C x i = (\<Sum>j<c. residue n A B C i j * fval (x ! j))"
proof -
  have "vprod n A y i = (\<Sum>k<n. \<Sum>j<c. mval A i k * mval B k j * fval (x ! j))"
    using assms by (simp add: vprod_def sum_distrib_left mult.assoc)
  also have "\<dots> = (\<Sum>j<c. mprod n A B i j * fval (x ! j))"
    by (subst sum.swap) (simp add: mprod_def sum_distrib_right)
  finally show ?thesis by (simp add: vprod_def residue_def sum_subtractf left_diff_distrib)
qed

lemma freivalds_round_correct:
  assumes A: "fmat r n A" and B: "fmat n c B" and C: "fmat r c C" and x: "length x = c" "felems x"
    and nz: "0 < r" "0 < n" and fits: "dot_fits neon n" "dot_fits neon c"
  shows "freivalds_round neon A B C x =
    Some (Some (\<forall>i < r. (\<Sum>j<c. residue n A B C i j * fval (x ! j)) = 0))"
proof -
  obtain y where y: "MatVecMul neon B x = Some y" "length y = n" "felems y"
    "\<And>i. i < n \<Longrightarrow> fval (y ! i) = vprod c B x i" by (rule MatVecMul_correct[OF B x fits(2)]) blast
  obtain z where z: "MatVecMul neon A y = Some z" "length z = r" "felems z"
    "\<And>i. i < r \<Longrightarrow> fval (z ! i) = vprod n A y i" by (rule MatVecMul_correct[OF A y(2,3) fits(1)]) blast
  obtain w where w: "MatVecMul neon C x = Some w" "length w = r" "felems w"
    "\<And>i. i < r \<Longrightarrow> fval (w ! i) = vprod c C x i" by (rule MatVecMul_correct[OF C x fits(2)]) blast
  have "y \<noteq> []" "z \<noteq> []" "w \<noteq> []" using y(2) z(2) w(2) nz by auto
  then have "freivalds_round neon A B C x = Some (Some (z = w))"
    by (simp add: freivalds_round_def y(1) z(1) w(1))
  moreover have "z = w \<longleftrightarrow> (\<forall>i < r. fval (z ! i) = fval (w ! i))"
  proof
    assume eq: "\<forall>i < r. fval (z ! i) = fval (w ! i)"
    show "z = w"
    proof (rule nth_equalityI)
      fix i assume "i < length z"
      then show "z ! i = w ! i" using eq z(2,3) w(2,3) by (intro fval_inj felems_nth) simp_all
    qed (simp add: z(2) w(2))
  qed simp
  moreover have "fval (z ! i) = fval (w ! i) \<longleftrightarrow> (\<Sum>j<c. residue n A B C i j * fval (x ! j)) = 0" if "i < r" for i
    unfolding z(4)[OF that] w(4)[OF that] eq_iff_diff_eq_0[of "vprod n A y i"]
    by (simp only: vprod_assoc[of n y c B x A i C, OF y(4)])
  ultimately show ?thesis by simp
qed

lemma residue_eq_0:
  assumes "fmat r n A" "fmat n c B" "fmat r c C" "matrix_mul neon A B = Some C" "i < r" "j < c"
  shows "residue n A B C i j = 0"
proof -
  have fits: "dot_fits neon n" by (rule matrix_mul_fits[OF assms(1,2) _ _ assms(4)]) (use assms(5,6) in auto)
  show ?thesis
    by (rule matrix_mul_correct[OF assms(1,2) fits]) (use assms in \<open>auto simp: residue_def\<close>)
qed

lemma residue_neq_0:
  assumes "fmat r n A" "fmat n c B" "fmat r c C" "matrix_mul neon A B \<noteq> Some C"
    and fits: "0 < r \<Longrightarrow> 0 < c \<Longrightarrow> dot_fits neon n"
  obtains i j where "i < r" "j < c" "residue n A B C i j \<noteq> 0"
proof (rule ccontr)
  note found = that
  assume "\<not> thesis"
  then have z: "residue n A B C i j = 0" if "i < r" "j < c" for i j using found that by blast
  obtain m where m: "matrix_mul neon A B = Some m" "fmat r c m"
    "\<And>i j. i < r \<Longrightarrow> j < c \<Longrightarrow> mval m i j = mprod n A B i j"
    by (rule matrix_mul_correct[OF assms(1,2), where neon = neon], erule (1) fits, blast)
  have "m = C" by (rule fmat_eqI[OF m(2) assms(3)]) (use z m(3) in \<open>simp add: residue_def\<close>)
  with m(1) assms(4) show False by simp
qed

section \<open>The error bound of a round\<close>

lemma felem_card: "finite {e :: Element. felem e}" "card {e :: Element. felem e} = q31"
proof -
  have im: "unat ` {e :: Element. felem e} = {k. k < q31}"
  proof (intro equalityI subsetI)
    fix k assume "k \<in> {k. k < q31}"
    then have k: "k < q31" by (rule CollectD)
    then have "unat (of_nat k :: Element) = k" unfolding unat_of_nat by (intro mod_less) simp
    then show "k \<in> unat ` {e :: Element. felem e}" using k by (intro image_eqI[of _ _ "of_nat k"]) simp_all
  qed blast
  have "inj_on unat {e :: Element. felem e}" by (rule inj_onI) (simp add: word_unat_eq_iff)
  from card_image[OF this] show "card {e :: Element. felem e} = q31" by (simp only: im card_Collect_less_nat)
  show "finite {e :: Element. felem e}" by (rule finite_subset[OF subset_UNIV finite])
qed

lemma felems_take: "felems xs \<Longrightarrow> felems (take n xs)"
  unfolding felems_def by (blast dest: in_set_takeD)

lemma felems_append: "felems (xs @ ys) \<longleftrightarrow> felems xs \<and> felems ys"
  by (auto simp: felems_def)

definition challenges :: "nat \<Rightarrow> Element list set" where
  "challenges c = {x. length x = c \<and> felems x}"

lemma challenges_alt: "challenges c = {x. set x \<subseteq> {e. felem e} \<and> length x = c}"
  by (auto simp: challenges_def felems_def)

lemma challenges_card: "finite (challenges c)" "card (challenges c) = q31 ^ c"
  unfolding challenges_alt
  by (rule finite_lists_length_eq[OF felem_card(1)])
     (simp only: card_lists_length_eq[OF felem_card(1)] felem_card(2))

lemma linear_solutions_card:
  fixes d :: "nat \<Rightarrow> Z31"
  assumes j: "j < c" "d j \<noteq> 0"
  shows "card {x \<in> challenges c. (\<Sum>k<c. d k * fval (x ! k)) = 0} \<le> q31 ^ (c - 1)"
proof -
  let ?S = "{x \<in> challenges c. (\<Sum>k<c. d k * fval (x ! k)) = 0}"
  let ?del = "\<lambda>x::Element list. take j x @ drop (Suc j) x"
  have "inj_on ?del ?S"
  proof (rule inj_onI)
    fix x y assume x: "x \<in> ?S" and y: "y \<in> ?S" and e: "?del x = ?del y"
    have l: "length x = c" "length y = c" using x y by (auto simp: challenges_def)
    have td: "take j x = take j y" "drop (Suc j) x = drop (Suc j) y"
      using e l j(1) by (auto simp: append_eq_append_conv)
    have rest: "x ! k = y ! k" if k: "k < c" "k \<noteq> j" for k
    proof (cases "k < j")
      case True
      then show ?thesis using arg_cong[OF td(1), of "\<lambda>z. z ! k"] by simp
    next
      case False
      then show ?thesis using arg_cong[OF td(2), of "\<lambda>z. z ! (k - Suc j)"] k l by (simp add: nth_drop)
    qed
    have split: "(\<Sum>k<c. d k * fval (z ! k)) = d j * fval (z ! j) + (\<Sum>k \<in> {..<c} - {j}. d k * fval (z ! k))" for z :: "Element list"
      using j(1) by (simp add: sum.remove)
    have "(\<Sum>k \<in> {..<c} - {j}. d k * fval (x ! k)) = (\<Sum>k \<in> {..<c} - {j}. d k * fval (y ! k))"
      using rest by (intro sum.cong) auto
    then have "d j * fval (x ! j) + (\<Sum>k \<in> {..<c} - {j}. d k * fval (x ! k)) =
        d j * fval (y ! j) + (\<Sum>k \<in> {..<c} - {j}. d k * fval (x ! k))"
      using x y split[of x] split[of y] by simp
    then have "d j * fval (x ! j) = d j * fval (y ! j)" by (rule add_right_imp_eq)
    then have "d j * (fval (x ! j) - fval (y ! j)) = 0" by (simp add: right_diff_distrib)
    then have "fval (x ! j) - fval (y ! j) = 0" using Z31_no_zero_divisors j(2) by blast
    then have "fval (x ! j) = fval (y ! j)" by (rule iffD2[OF eq_iff_diff_eq_0])
    then have "x ! j = y ! j" using x y j(1) l by (intro fval_inj) (auto simp: challenges_def felems_def)
    with rest show "x = y" using l by (intro nth_equalityI) auto
  qed
  moreover have "?del ` ?S \<subseteq> challenges (c - 1)"
    using j(1) by (auto simp: challenges_def felems_append felems_drop felems_take)
  ultimately have "card ?S \<le> card (challenges (c - 1))"
    using challenges_card(1) by (intro card_inj_on_le)
  then show ?thesis by (simp add: challenges_card(2))
qed

text \<open>On NEON a round returns only for dimensions within the range of the counter.\<close>

lemma MatVecMul_fits:
  assumes "fmat r n m" "0 < r" "MatVecMul neon m x = Some y" "y \<noteq> []"
  shows "dot_fits neon n"
proof -
  have s: "m_rows m = r" "m_cols m = n" using assms(1) by (auto simp: fmat_def)
  obtain r' where "r = Suc r'" using assms(2) by (metis gr0_implies_Suc)
  with assms(3,4) s show ?thesis
    by (auto simp: MatVecMul_def bind_eq_Some_conv split: if_splits dest!: field_dot_fits)
qed

lemma freivalds_round_fits:
  assumes "fmat r n A" "fmat n c B" "0 < r" "0 < n" "freivalds_round neon A B C x = Some (Some ok)"
  shows "dot_fits neon n \<and> dot_fits neon c"
proof -
  obtain y z where "MatVecMul neon B x = Some y" "MatVecMul neon A y = Some z" "y \<noteq> []" "z \<noteq> []"
    using assms(5) by (auto simp: freivalds_round_def bind_eq_Some_conv split: if_splits)
  then show ?thesis using MatVecMul_fits[OF assms(2,4)] MatVecMul_fits[OF assms(1,3)] by blast
qed

lemma passing_challenges_card:
  assumes "fmat r n A" "fmat n c B" "fmat r c C" "0 < n" "matrix_mul neon A B \<noteq> Some C"
  shows "q31 * card {x \<in> challenges c. freivalds_round neon A B C x = Some (Some True)} \<le> card (challenges c)"
proof -
  let ?P = "{x \<in> challenges c. freivalds_round neon A B C x = Some (Some True)}"
  have rc: "0 < r \<and> 0 < c"
  proof (rule ccontr)
    assume n: "\<not> (0 < r \<and> 0 < c)"
    show False by (rule residue_neq_0[OF assms(1-3,5)]) (use n in auto)
  qed
  show ?thesis
  proof (cases "dot_fits neon n \<and> dot_fits neon c")
    case True
    obtain i j where ij: "i < r" "j < c" "residue n A B C i j \<noteq> 0"
      by (rule residue_neq_0[OF assms(1-3,5)]) (use True in auto)
    have "?P \<subseteq> {x \<in> challenges c. (\<Sum>l<c. residue n A B C i l * fval (x ! l)) = 0}"
      using freivalds_round_correct[OF assms(1-3) _ _ _ assms(4)] ij(1) True by (auto simp: challenges_def)
    then have "card ?P \<le> card {x \<in> challenges c. (\<Sum>l<c. residue n A B C i l * fval (x ! l)) = 0}"
      by (rule card_mono[rotated]) (use challenges_card(1) in simp)
    also have "\<dots> \<le> q31 ^ (c - 1)" by (rule linear_solutions_card[of j c "residue n A B C i", OF ij(2,3)])
    finally have "q31 * card ?P \<le> q31 * q31 ^ (c - 1)" by (rule mult_le_mono2)
    also have "q31 * q31 ^ (c - 1) = card (challenges c)"
      using ij(2) unfolding challenges_card(2) by (cases c) simp_all
    finally show ?thesis .
  next
    case False
    then have "?P = {}" using freivalds_round_fits[OF assms(1,2)] rc assms(4) by blast
    then show ?thesis by (simp only: card.empty mult_0_right le0)
  qed
qed

section \<open>All rounds\<close>

lemma verify_rounds_passed:
  assumes "\<And>k. k < round + left \<Longrightarrow> freivalds_round neon A B C (DeriveRandomVector seed k (m_cols C)) = Some (Some (ok k))"
  shows "\<exists>res. verify_rounds neon A B C seed ops round left result = Some res \<and>
    (passed res \<longleftrightarrow> passed result \<or> (\<forall>k. round \<le> k \<and> k < round + left \<longrightarrow> ok k))"
  using assms
proof (induction left arbitrary: round result)
  case 0
  show ?case by (simp, intro disjI2 allI impI, elim conjE, linarith)
next
  case (Suc left)
  have now: "freivalds_round neon A B C (DeriveRandomVector seed round (m_cols C)) = Some (Some (ok round))"
    by (rule Suc.prems) simp
  show ?case
  proof (cases "ok round")
    case True
    let ?r = "result\<lparr>ops_performed := SaturatingAdd_u64 (ops_performed result) ops,
                rounds_executed := w32 (rounds_executed result + 1)\<rparr>"
    obtain res where "verify_rounds neon A B C seed ops (Suc round) left ?r = Some res"
      "passed res \<longleftrightarrow> passed result \<or> (\<forall>k. Suc round \<le> k \<and> k < Suc round + left \<longrightarrow> ok k)"
      using Suc.IH[of "Suc round" ?r] Suc.prems by auto
    moreover have "(\<forall>k. Suc round \<le> k \<and> k < Suc round + left \<longrightarrow> ok k) \<longleftrightarrow>
        (\<forall>k. round \<le> k \<and> k < round + Suc left \<longrightarrow> ok k)"
    proof -
      have "round \<le> k \<and> k < round + Suc left \<longleftrightarrow> k = round \<or> Suc round \<le> k \<and> k < Suc round + left" for k
        by auto
      then show ?thesis using True by (simp only:) blast
    qed
    ultimately show ?thesis using now True by simp
  next
    case False
    then show ?thesis using now by auto
  qed
qed

lemma verify_rounds_complete:
  assumes "\<And>k. k < round + left \<Longrightarrow> freivalds_round neon A B C (DeriveRandomVector seed k (m_cols C)) = Some (Some True)"
    and "rounds_executed result + left < 2 ^ 32"
  shows "\<exists>res. verify_rounds neon A B C seed ops round left result = Some res \<and> passed res \<and>
    rounds_executed res = rounds_executed result + left"
  using assms
proof (induction left arbitrary: round result)
  case 0
  then show ?case by simp
next
  case (Suc left)
  let ?r = "result\<lparr>ops_performed := SaturatingAdd_u64 (ops_performed result) ops,
              rounds_executed := w32 (rounds_executed result + 1)\<rparr>"
  have w: "w32 (rounds_executed result + 1) = rounds_executed result + 1"
    using Suc.prems(2) by (intro w32_id) simp
  have "\<exists>res. verify_rounds neon A B C seed ops (Suc round) left ?r = Some res \<and> passed res \<and>
      rounds_executed res = rounds_executed ?r + left"
    by (rule Suc.IH) (use Suc.prems w in auto)
  moreover have "freivalds_round neon A B C (DeriveRandomVector seed round (m_cols C)) = Some (Some True)"
    by (rule Suc.prems(1)) simp
  ultimately show ?case using w by simp
qed

lemma Freivalds_Verify_rounds:
  assumes "fmat r n A" "fmat n c B" "fmat r c C" "0 < num_rounds"
  obtains seed ops where "DeriveChallengeSeed A B C sigma = Some seed"
    "Freivalds_Verify neon A B C sigma num_rounds =
       verify_rounds neon A B C seed ops 0 num_rounds \<lparr>passed = False, rounds_executed = 0, ops_performed = 0\<rparr>"
proof -
  have s: "wf_mat A" "wf_mat B" "wf_mat C" "m_cols A = n" "m_rows B = n" "m_rows A = r" "m_rows C = r"
    "m_cols B = c" "m_cols C = c" using assms by (auto simp: fmat_def)
  show thesis
    by (rule that[OF DeriveChallengeSeed_correct[OF s(1-3)]])
       (use assms(4) DeriveChallengeSeed_correct[OF s(1-3)] s in \<open>simp add: Freivalds_Verify_def\<close>)
qed

section \<open>Properties\<close>

text \<open>C13: Completeness and the exact acceptance condition of \<open>Verify\<close>. On well-formed field matrices of
  matching non-empty shapes (on NEON with inner dimensions below \<open>2^32 - 4\<close>) no assertion fails. The true product \<open>A * B\<close> passes, with every requested
  round executed; and any \<open>C\<close> passes exactly when the residue \<open>A * B - C\<close> annihilates the challenge vector of
  every round, the vectors being derived from a hash of sigma and of all three matrices.\<close>

theorem freivalds_verify_exact:
  assumes "fmat r n A" "fmat n c B" "fmat r c C" "0 < r" "0 < n" "0 < num_rounds" "num_rounds < 2 ^ 32"
    and fits: "dot_fits neon n" "dot_fits neon c"
  shows "\<exists>res seed. Freivalds_Verify neon A B C sigma num_rounds = Some res \<and>
    DeriveChallengeSeed A B C sigma = Some seed \<and>
    (matrix_mul neon A B = Some C \<longrightarrow> passed res \<and> rounds_executed res = num_rounds) \<and>
    (passed res \<longleftrightarrow> (\<forall>k < num_rounds. \<forall>i < r.
       (\<Sum>j<c. (mprod n A B i j - mval C i j) * fval (DeriveRandomVector seed k c ! j)) = 0))"
proof -
  obtain seed ops where seed: "DeriveChallengeSeed A B C sigma = Some seed" and
    V: "Freivalds_Verify neon A B C sigma num_rounds =
       verify_rounds neon A B C seed ops 0 num_rounds \<lparr>passed = False, rounds_executed = 0, ops_performed = 0\<rparr>"
    by (rule Freivalds_Verify_rounds[OF assms(1-3,6)])
  have cols: "m_cols C = c" using assms(3) by (simp add: fmat_def)
  let ?ok = "\<lambda>k. \<forall>i < r. (\<Sum>j<c. residue n A B C i j * fval (DeriveRandomVector seed k c ! j)) = 0"
  have round: "freivalds_round neon A B C (DeriveRandomVector seed k (m_cols C)) = Some (Some (?ok k))" for k
    unfolding cols by (rule freivalds_round_correct[OF assms(1-3) DeriveRandomVector_vec assms(4,5) fits])
  obtain res where res: "Freivalds_Verify neon A B C sigma num_rounds = Some res"
    "passed res \<longleftrightarrow> (\<forall>k < num_rounds. ?ok k)"
    using verify_rounds_passed[of 0 num_rounds neon A B C seed ?ok, OF round] unfolding V by force
  have "passed res \<and> rounds_executed res = num_rounds" if "matrix_mul neon A B = Some C"
  proof -
    have "?ok k" for k using residue_eq_0[OF assms(1-3) that] by simp
    then show ?thesis
      using verify_rounds_complete[of 0 num_rounds neon A B C seed
          "\<lparr>passed = False, rounds_executed = 0, ops_performed = 0\<rparr>" ops] round assms(7) res(1) unfolding V by auto
  qed
  with res seed show ?thesis by (auto simp: residue_def)
qed

lemma cell_3_5:
  "mprod 1 \<lparr>m_rows = 1, m_cols = 1, m_data = [3]\<rparr> \<lparr>m_rows = 1, m_cols = 1, m_data = [5]\<rparr> 0 0 = of_nat 15"
  "mval \<lparr>m_rows = 1, m_cols = 1, m_data = [15]\<rparr> 0 0 = of_nat 15"
  "mval \<lparr>m_rows = 1, m_cols = 1, m_data = [16]\<rparr> 0 0 = of_nat 16"
  "(of_nat 15 :: Z31) \<noteq> of_nat 16"
  by (simp_all add: mprod_def mval_def ment_def fval_def of_nat_Z31_eq of_nat_mult[symmetric] del: of_nat_numeral of_nat_mult)

theorem freivalds_verify_exact_witness:
  "\<exists>res. Freivalds_Verify False \<lparr>m_rows = 1, m_cols = 1, m_data = [3]\<rparr> \<lparr>m_rows = 1, m_cols = 1, m_data = [5]\<rparr>
     \<lparr>m_rows = 1, m_cols = 1, m_data = [15]\<rparr> (replicate 32 7) 2 = Some res \<and> passed res \<and> rounds_executed res = 2"
proof -
  let ?A = "\<lparr>m_rows = 1, m_cols = 1, m_data = [3]\<rparr>" and ?B = "\<lparr>m_rows = 1, m_cols = 1, m_data = [5]\<rparr>"
    and ?C = "\<lparr>m_rows = 1, m_cols = 1, m_data = [15]\<rparr>"
  have f: "fmat 1 1 ?A" "fmat 1 1 ?B" "fmat 1 1 ?C" by (simp_all add: fmat_def wf_mat_def felems_def)
  obtain m where m: "matrix_mul False ?A ?B = Some m" "fmat 1 1 m"
    "\<And>i j. i < 1 \<Longrightarrow> j < 1 \<Longrightarrow> mval m i j = mprod 1 ?A ?B i j"
    by (rule matrix_mul_correct[OF f(1,2), where neon = False]) (auto simp: dot_fits_def)
  have "m = ?C" by (rule fmat_eqI[OF m(2) f(3)]) (use m(3) cell_3_5 in simp)
  with m(1) freivalds_verify_exact[OF f, of 2 False "replicate 32 7"] show ?thesis
    by (auto simp: dot_fits_def)
qed

text \<open>C14: The documented error bound. If \<open>C\<close> is not the product of \<open>A\<close> and \<open>B\<close>, at most one challenge vector
  in \<open>2 ^ 31 - 1\<close> passes a round, and at most one in \<open>(2 ^ 31 - 1) ^ k\<close> of the sequences of \<open>k\<close>
  challenge vectors passes \<open>k\<close> rounds.\<close>

theorem freivalds_error_bound:
  assumes "fmat r n A" "fmat n c B" "fmat r c C" "0 < n" "matrix_mul neon A B \<noteq> Some C"
  shows "q31 ^ k * card {xs. set xs \<subseteq> {x \<in> challenges c. freivalds_round neon A B C x = Some (Some True)} \<and> length xs = k}
    \<le> card {xs. set xs \<subseteq> challenges c \<and> length xs = k}"
proof -
  let ?P = "{x \<in> challenges c. freivalds_round neon A B C x = Some (Some True)}"
  have "(q31 * card ?P) ^ k \<le> card (challenges c) ^ k"
    by (rule power_mono[OF passing_challenges_card[OF assms]]) simp
  moreover have "card {xs. set xs \<subseteq> ?P \<and> length xs = k} = card ?P ^ k"
    by (rule card_lists_length_eq) (use challenges_card(1) in simp)
  moreover have "card {xs. set xs \<subseteq> challenges c \<and> length xs = k} = card (challenges c) ^ k"
    by (rule card_lists_length_eq[OF challenges_card(1)])
  ultimately show ?thesis by (simp only: power_mult_distrib)
qed

theorem freivalds_error_bound_witness:
  "q31 ^ 2 * card {xs. set xs \<subseteq> {x \<in> challenges 1. freivalds_round True \<lparr>m_rows = 1, m_cols = 1, m_data = [3]\<rparr>
       \<lparr>m_rows = 1, m_cols = 1, m_data = [5]\<rparr> \<lparr>m_rows = 1, m_cols = 1, m_data = [16]\<rparr> x = Some (Some True)} \<and> length xs = 2}
    \<le> card {xs. set xs \<subseteq> challenges 1 \<and> length xs = 2}"
proof -
  let ?A = "\<lparr>m_rows = 1, m_cols = 1, m_data = [3]\<rparr>" and ?B = "\<lparr>m_rows = 1, m_cols = 1, m_data = [5]\<rparr>"
    and ?C = "\<lparr>m_rows = 1, m_cols = 1, m_data = [16]\<rparr>"
  have f: "fmat 1 1 ?A" "fmat 1 1 ?B" "fmat 1 1 ?C" by (simp_all add: fmat_def wf_mat_def felems_def)
  obtain m where m: "matrix_mul True ?A ?B = Some m"
    "\<And>i j. i < 1 \<Longrightarrow> j < 1 \<Longrightarrow> mval m i j = mprod 1 ?A ?B i j"
    by (rule matrix_mul_correct[OF f(1,2), where neon = True]) (auto simp: dot_fits_def)
  have "mval ?C 0 0 \<noteq> mprod 1 ?A ?B 0 0" using cell_3_5(4) by (simp only: cell_3_5(1,3) not_sym)
  then have "matrix_mul True ?A ?B \<noteq> Some ?C" using m by auto
  from freivalds_error_bound[OF f _ this, of 2] show ?thesis by simp
qed

end
