(* ===== verification/Noise.thy ===== *)
theory Noise
  imports Freivalds
begin

text \<open>The low-rank noise of the MatMul proof of work, after src/matmul/noise.cpp: the domain-separated
  seeds, the expansion of a rectangular matrix by a number of worker threads, and the four factors of
  \<open>Generate\<close>. The lemmas show that the expansion does not depend on the host: however many workers are
  started and however their chunks are aligned, the matrix is the same.\<close>

section \<open>Definitions\<close>

definition str_bytes :: "string \<Rightarrow> bytes" where
  "str_bytes s = map of_char s"

text \<open>The canonical byte order of a hash is the reverse of its memory order.\<close>

definition ToCanonicalBytes :: "uint256 \<Rightarrow> bytes" where
  "ToCanonicalBytes value = rev value"

definition CanonicalBytesToUint256 :: "bytes \<Rightarrow> uint256" where
  "CanonicalBytesToUint256 bs = rev bs"

record NoisePair =
  E_L :: Matrix
  E_R :: Matrix
  F_L :: Matrix
  F_R :: Matrix

record NoiseGenerationProfile =
  parallel_supported :: bool
  worker_count :: nat
  reason :: string

definition TAG_EL :: string where "TAG_EL = ''matmul_noise_EL_v1''"
definition TAG_ER :: string where "TAG_ER = ''matmul_noise_ER_v1''"
definition TAG_FL :: string where "TAG_FL = ''matmul_noise_FL_v1''"
definition TAG_FR :: string where "TAG_FR = ''matmul_noise_FR_v1''"

text \<open>The host of a run: the platform switch, the environment variable, the hardware concurrency and the
  worker limit of the solver runtime.\<close>

record noise_host =
  apple :: bool
  env_parallel :: "string option"
  hardware_concurrency :: nat
  solve_worker_limit :: nat

definition ProbeNoiseGenerationProfile :: "noise_host \<Rightarrow> nat \<Rightarrow> nat \<Rightarrow> NoiseGenerationProfile" where
  "ProbeNoiseGenerationProfile host rows cols =
     (let make_profile = \<lambda>supported workers why. \<lparr>parallel_supported = supported,
            worker_count = ClampSolveWorkerThreads (solve_worker_limit host) workers, reason = why\<rparr>;
          footprint = rows * cols;
          hw_threads = max 1 (hardware_concurrency host) in
      if \<not> apple host then make_profile False 1 ''parallel_disabled_on_platform''
      else if (case env_parallel host of Some (ch # _) \<Rightarrow> ch = CHR ''0'' | _ \<Rightarrow> False)
        then make_profile True 1 ''parallel_forced_off''
      else if (case env_parallel host of Some (_ # _) \<Rightarrow> True | _ \<Rightarrow> False)
        then make_profile True (max 1 (min rows hw_threads)) ''parallel_forced_on''
      else if hw_threads \<le> 1 then make_profile True 1 ''single_thread_runtime''
      else if rows < 64 then make_profile True 1 ''serial_small_dimension''
      else if footprint < 32768 then make_profile True 1 ''serial_small_footprint''
      else make_profile True (min rows hw_threads) ''parallel_rows'')"

definition fill_rows :: "uint256 \<Rightarrow> nat \<Rightarrow> nat \<Rightarrow> nat \<Rightarrow> Matrix \<Rightarrow> Matrix option" where
  "fill_rows seed cols row_begin row_end =
     for_opt (\<lambda>row. for_opt (\<lambda>col out.
         matrix_set out row col (from_oracle seed (of_nat (w32 (row * cols + col))))) 0 cols)
       row_begin (row_end - row_begin)"

fun fill_workers :: "uint256 \<Rightarrow> nat \<Rightarrow> nat \<Rightarrow> nat \<Rightarrow> nat \<Rightarrow> nat \<Rightarrow> Matrix \<Rightarrow> Matrix option" where
  "fill_workers seed rows cols chunk worker 0 out = Some out"
| "fill_workers seed rows cols chunk worker (Suc left) out =
     (let beg = w32 (worker * chunk); stop = min (w32 (beg + chunk)) rows in
      if beg \<ge> stop then Some out
      else do {
        out' \<leftarrow> fill_rows seed cols beg stop out;
        fill_workers seed rows cols chunk (Suc worker) left out'
      })"

definition fill_chunk :: "nat \<Rightarrow> nat \<Rightarrow> nat \<Rightarrow> nat" where
  "fill_chunk rows cols workers =
     (let bytes_per_row = w32 (cols * 4);
          rows_per_cache_line = (if bytes_per_row > 0 then max 1 (128 div bytes_per_row) else 1);
          raw_chunk = w32 (w32 (rows + workers) + (2 ^ 32 - 1)) div workers in
      if rows_per_cache_line > 1
      then w32 (w32 (w32 (raw_chunk + rows_per_cache_line) + (2 ^ 32 - 1)) div rows_per_cache_line * rows_per_cache_line)
      else raw_chunk)"

definition FromSeedRect :: "noise_host \<Rightarrow> uint256 \<Rightarrow> nat \<Rightarrow> nat \<Rightarrow> Matrix option" where
  "FromSeedRect host seed rows cols =
     (if \<not> rows * cols \<le> 2 ^ 32 - 1 then None
      else
        let out = matrix_new rows cols; profile = ProbeNoiseGenerationProfile host rows cols in
        if worker_count profile \<le> 1 \<or> rows \<le> 1 then fill_rows seed cols 0 rows out
        else fill_workers seed rows cols (fill_chunk rows cols (worker_count profile)) 0 (worker_count profile) out)"

definition DeriveNoiseSeed :: "string \<Rightarrow> uint256 \<Rightarrow> uint256 option" where
  "DeriveNoiseSeed domain_tag sigma =
     (if length domain_tag \<noteq> 18 then None
      else
        let hasher = Write256 (Write256 CSHA256_init (str_bytes domain_tag)) (ToCanonicalBytes sigma) in
        Some (CanonicalBytesToUint256 (fst (Finalize256 hasher))))"

definition Generate :: "noise_host \<Rightarrow> uint256 \<Rightarrow> nat \<Rightarrow> nat \<Rightarrow> NoisePair option" where
  "Generate host sigma n r = do {
     tag_el \<leftarrow> DeriveNoiseSeed TAG_EL sigma;
     tag_er \<leftarrow> DeriveNoiseSeed TAG_ER sigma;
     tag_fl \<leftarrow> DeriveNoiseSeed TAG_FL sigma;
     tag_fr \<leftarrow> DeriveNoiseSeed TAG_FR sigma;
     el \<leftarrow> FromSeedRect host tag_el n r;
     er \<leftarrow> FromSeedRect host tag_er r n;
     fl \<leftarrow> FromSeedRect host tag_fl n r;
     fr \<leftarrow> FromSeedRect host tag_fr r n;
     Some \<lparr>E_L = el, E_R = er, F_L = fl, F_R = fr\<rparr>
   }"

section \<open>The expansion of a rectangle\<close>

text \<open>The matrix the seed determines, without workers.\<close>

definition seed_matrix :: "uint256 \<Rightarrow> nat \<Rightarrow> nat \<Rightarrow> Matrix" where
  "seed_matrix seed rows cols = \<lparr>m_rows = rows, m_cols = cols,
     m_data = map (\<lambda>k. from_oracle seed (of_nat k)) [0..<rows * cols]\<rparr>"

lemma seed_matrix_fmat: "r < 2 ^ 32 \<Longrightarrow> c < 2 ^ 32 \<Longrightarrow> fmat r c (seed_matrix seed r c)"
  by (auto simp: fmat_def wf_mat_def seed_matrix_def felems_def from_oracle_felem)

lemma seed_matrix_ment: "i < r \<Longrightarrow> j < c \<Longrightarrow> ment (seed_matrix seed r c) i j = from_oracle seed (of_nat (i * c + j))"
  by (simp add: ment_def seed_matrix_def idx_less)

lemma seed_matrix_at:
  assumes "i < r" "j < c" "r \<le> 2 ^ 30" "c \<le> 2 ^ 30"
  shows "matrix_at (seed_matrix seed r c) i j = Some (from_oracle seed (of_nat (i * c + j)))"
proof -
  have "shape r c (seed_matrix seed r c)" by (rule fmat_shape[OF seed_matrix_fmat]) (use assms in simp_all)
  then show ?thesis by (simp only: matrix_at_shape[OF _ assms(1,2)] seed_matrix_ment[OF assms(1,2)])
qed

definition rows_done :: "uint256 \<Rightarrow> nat \<Rightarrow> nat \<Rightarrow> nat \<Rightarrow> Matrix \<Rightarrow> bool" where
  "rows_done seed r c k m \<longleftrightarrow> shape r c m \<and>
     (\<forall>i < k. i < r \<longrightarrow> (\<forall>j < c. ment m i j = from_oracle seed (of_nat (i * c + j))))"

lemma for_opt_shift: "for_opt f i n s = for_opt (\<lambda>k. f (i + k)) 0 n s"
proof (induction n arbitrary: s)
  case (Suc n)
  then show ?case by (simp only: for_opt_Suc_end Suc.IH add_0)
qed simp

lemma fill_rows_done:
  assumes m: "rows_done seed r c b m" and be: "b \<le> e" "e \<le> r" and fit: "r * c < 2 ^ 32"
  obtains m' where "fill_rows seed c b e m = Some m'" "rows_done seed r c e m'"
proof -
  have s: "shape r c m" using m by (simp add: rows_done_def)
  let ?f = "\<lambda>i col out. matrix_set out (b + i) col (from_oracle seed (of_nat (w32 ((b + i) * c + col))))"
  let ?h = "\<lambda>i k. from_oracle seed (of_nat (w32 ((b + i) * c + k)))"
  obtain m' where m': "for_opt (\<lambda>i. for_opt (?f i) 0 c) 0 (e - b) m = Some m'" "shape r c m'"
    "\<And>i j. i < r \<Longrightarrow> j < c \<Longrightarrow> ment m' i j =
       (if b \<le> i \<and> i < b + (e - b) \<and> 0 \<le> j \<and> j < 0 + c then ?h (i - b) (j - 0) else ment m i j)"
    by (rule fill_rect[of r c m b "e - b" 0 c ?f ?h]) (use s be in auto)
  have "w32 (i * c + j) = i * c + j" if "i < r" "j < c" for i j
    using idx_less[OF that] fit by (intro w32_id) linarith
  then have "rows_done seed r c e m'"
    using m m'(2,3) be by (auto simp: rows_done_def)
  moreover have "fill_rows seed c b e m = Some m'"
    unfolding fill_rows_def by (subst for_opt_shift) (simp add: m'(1))
  ultimately show thesis by (rule that[rotated])
qed

lemma rows_done_all: "rows_done seed r c r m \<Longrightarrow> m = seed_matrix seed r c"
proof (rule matrix_eqI[of r c])
  assume d: "rows_done seed r c r m"
  then have "r < 2 ^ 32" "c < 2 ^ 32" by (auto simp: rows_done_def shape_def wf_mat_def)
  then show "shape r c (seed_matrix seed r c)" by (rule fmat_shape[OF seed_matrix_fmat])
  show "shape r c m" "\<And>i j. i < r \<Longrightarrow> j < c \<Longrightarrow> ment m i j = ment (seed_matrix seed r c) i j"
    using d by (simp_all add: rows_done_def seed_matrix_ment)
qed

lemma fill_workers_done:
  assumes "rows_done seed r c (min (worker * chunk) r) m" and "r * c < 2 ^ 32" and "0 < chunk"
    and "r + 2 * chunk < 2 ^ 32" and "worker * chunk < r + chunk" and "r \<le> (worker + left) * chunk"
  shows "fill_workers seed r c chunk worker left m = Some (seed_matrix seed r c)"
  using assms
proof (induction left arbitrary: worker m)
  case 0
  then show ?case by (simp add: rows_done_all min_absorb2)
next
  case (Suc left)
  have b: "w32 (worker * chunk) = worker * chunk" using Suc.prems(4,5) by (intro w32_id) simp
  have e: "w32 (worker * chunk + chunk) = worker * chunk + chunk" using Suc.prems(4,5) by (intro w32_id) simp
  show ?case
  proof (cases "worker * chunk \<ge> min (worker * chunk + chunk) r")
    case True
    then have "r \<le> worker * chunk" using Suc.prems(3) by simp
    then have "m = seed_matrix seed r c" using Suc.prems(1) by (intro rows_done_all) (simp add: min_absorb2)
    then show ?thesis using True by (simp add: b e)
  next
    case False
    obtain m' where m': "fill_rows seed c (worker * chunk) (min (worker * chunk + chunk) r) m = Some m'"
      "rows_done seed r c (min (worker * chunk + chunk) r) m'"
      by (rule fill_rows_done[of seed r c "worker * chunk" m "min (worker * chunk + chunk) r"])
         (use False Suc.prems in \<open>auto simp: min_absorb1\<close>)
    have "fill_workers seed r c chunk (Suc worker) left m' = Some (seed_matrix seed r c)"
      by (rule Suc.IH) (use m'(2) Suc.prems False in \<open>auto simp: add.commute\<close>)
    then show ?thesis using False m'(1) by (simp add: b e)
  qed
qed

lemma fill_chunk_bounds:
  assumes "0 < workers" "workers \<le> r" "r \<le> 2 ^ 30"
  shows "0 < fill_chunk r c workers" "r \<le> workers * fill_chunk r c workers" "fill_chunk r c workers \<le> r + 31"
proof -
  define raw where "raw = (r + workers - 1) div workers"
  have raw: "w32 (w32 (r + workers) + (2 ^ 32 - 1)) div workers = raw"
    unfolding raw_def using assms by (subst w32_pred) simp_all
  have raw_le: "raw \<le> r" unfolding raw_def by (rule ceil_tiles_le[OF assms(1)])
  have raw_pos: "0 < raw" unfolding raw_def using ceil_tiles[OF assms(1), of 0 r] assms by simp
  have raw_mul: "r \<le> workers * raw"
    using ceil_tiles[OF assms(1), of raw r] by (simp add: raw_def mult.commute)
  define line where "line = (if 0 < w32 (c * 4) then max 1 (128 div w32 (c * 4)) else 1)"
  have four: "w32 (c * 4) mod 4 = 0" by (simp add: w32_def mod_mod_cancel)
  have line: "1 \<le> line \<and> line \<le> 32"
  proof (cases "0 < w32 (c * 4)")
    case True
    with four have "4 \<le> w32 (c * 4)" by (metis mod_less not_le not_gr_zero)
    then have "128 div w32 (c * 4) \<le> 128 div 4" by (rule div_le_mono2[rotated]) simp
    then show ?thesis by (simp add: line_def)
  qed (simp add: line_def)
  have C: "fill_chunk r c workers = (if line > 1
      then w32 (w32 (w32 (raw + line) + (2 ^ 32 - 1)) div line * line) else raw)"
    by (simp only: fill_chunk_def Let_def raw line_def)
  have bounds: "raw \<le> fill_chunk r c workers \<and> fill_chunk r c workers \<le> raw + 31"
  proof (cases "line > 1")
    case True
    have p: "w32 (w32 (raw + line) + (2 ^ 32 - 1)) = raw + line - 1"
      using line raw_le assms(3) by (intro w32_pred) auto
    let ?k = "(raw + line - 1) div line * line"
    have up: "?k \<le> raw + 31" using line div_times_less_eq_dividend[of "raw + line - 1" line] by linarith
    have lo: "raw \<le> ?k" using ceil_tiles[of line "(raw + line - 1) div line" raw] line by simp
    have "w32 ?k = ?k" using up raw_le assms(3) by (intro w32_id) simp
    then show ?thesis using True up lo by (simp only: C p if_True)
  qed (simp add: C)
  show "0 < fill_chunk r c workers" "fill_chunk r c workers \<le> r + 31" using bounds raw_pos raw_le by auto
  show "r \<le> workers * fill_chunk r c workers"
    by (rule order_trans[OF raw_mul mult_le_mono2]) (use bounds in simp)
qed

lemma profile_workers: "worker_count (ProbeNoiseGenerationProfile host r c) \<le> max 1 r"
proof -
  have clamp: "ClampSolveWorkerThreads l w \<le> max 1 r" if "w \<le> max 1 r" for l w
    using that by (auto simp: ClampSolveWorkerThreads_def)
  have rows: "min r h \<le> max 1 r" "max 1 (min r h) \<le> max 1 r" for h by auto
  show ?thesis
    unfolding ProbeNoiseGenerationProfile_def Let_def
    by (simp only: NoiseGenerationProfile.simps if_distrib[of worker_count] clamp[OF rows(1)] clamp[OF rows(2)]
        clamp[OF max.cobounded1] split: if_split) simp
qed

lemma FromSeedRect_correct:
  assumes "r * c < 2 ^ 32" "r \<le> 2 ^ 30" "c < 2 ^ 32"
  shows "FromSeedRect host seed r c = Some (seed_matrix seed r c)"
proof -
  have start: "rows_done seed r c 0 (matrix_new r c)"
    using assms(2,3) by (simp add: rows_done_def matrix_new_shape)
  let ?w = "worker_count (ProbeNoiseGenerationProfile host r c)"
  have ok: "r * c \<le> 2 ^ 32 - 1" using assms(1) by simp
  show ?thesis
  proof (cases "?w \<le> 1 \<or> r \<le> 1")
    case True
    obtain m where "fill_rows seed c 0 r (matrix_new r c) = Some m" "rows_done seed r c r m"
      by (rule fill_rows_done[OF start, of r]) (use assms(1) in auto)
    then show ?thesis using True ok rows_done_all by (simp add: FromSeedRect_def Let_def)
  next
    case False
    then have w: "0 < ?w" "?w \<le> r" using profile_workers[of host r c] by auto
    note ch = fill_chunk_bounds[OF w assms(2), of c]
    have "fill_workers seed r c (fill_chunk r c ?w) 0 ?w (matrix_new r c) = Some (seed_matrix seed r c)"
      by (rule fill_workers_done) (use start assms ch in auto)
    then show ?thesis using False ok by (simp add: FromSeedRect_def Let_def)
  qed
qed

section \<open>The noise seeds and factors\<close>

lemma DeriveNoiseSeed_correct:
  "length tag = 18 \<Longrightarrow> DeriveNoiseSeed tag sigma = Some (rev (SHA256 (str_bytes tag @ rev sigma)))"
  using csha.final_write2[of "str_bytes tag" "rev sigma"]
  by (simp add: DeriveNoiseSeed_def ToCanonicalBytes_def CanonicalBytesToUint256_def)

abbreviation noise_seed :: "string \<Rightarrow> uint256 \<Rightarrow> uint256" where
  "noise_seed tag sigma \<equiv> rev (SHA256 (str_bytes tag @ rev sigma))"

definition noise_of :: "uint256 \<Rightarrow> nat \<Rightarrow> nat \<Rightarrow> NoisePair" where
  "noise_of sigma n r = \<lparr>E_L = seed_matrix (noise_seed TAG_EL sigma) n r, E_R = seed_matrix (noise_seed TAG_ER sigma) r n,
     F_L = seed_matrix (noise_seed TAG_FL sigma) n r, F_R = seed_matrix (noise_seed TAG_FR sigma) r n\<rparr>"

text \<open>The shapes the noise factors have for dimension \<open>n\<close> and rank \<open>r\<close>.\<close>

definition wf_noise :: "nat \<Rightarrow> nat \<Rightarrow> NoisePair \<Rightarrow> bool" where
  "wf_noise n r np \<longleftrightarrow> fmat n r (E_L np) \<and> fmat r n (E_R np) \<and> fmat n r (F_L np) \<and> fmat r n (F_R np)"

lemma Generate_correct:
  assumes "n * r < 2 ^ 32" "n \<le> 2 ^ 30" "r \<le> 2 ^ 30"
  shows "Generate host sigma n r = Some (noise_of sigma n r)" "wf_noise n r (noise_of sigma n r)"
proof -
  have f: "FromSeedRect host seed n r = Some (seed_matrix seed n r)"
    "FromSeedRect host seed r n = Some (seed_matrix seed r n)" for seed
    using assms by (auto intro!: FromSeedRect_correct simp: mult.commute)
  have t: "length TAG_EL = 18" "length TAG_ER = 18" "length TAG_FL = 18" "length TAG_FR = 18"
    by (simp_all add: TAG_EL_def TAG_ER_def TAG_FL_def TAG_FR_def)
  show "Generate host sigma n r = Some (noise_of sigma n r)"
    by (simp only: Generate_def DeriveNoiseSeed_correct[OF t(1)] DeriveNoiseSeed_correct[OF t(2)]
        DeriveNoiseSeed_correct[OF t(3)] DeriveNoiseSeed_correct[OF t(4)] f bind.bind_lunit noise_of_def)
  show "wf_noise n r (noise_of sigma n r)" using assms(2,3) by (simp add: wf_noise_def noise_of_def seed_matrix_fmat)
qed

section \<open>Properties\<close>

text \<open>C15: The noise is a function of the header alone. Whatever the platform, the environment variable, the
  number of hardware threads and the worker limit of the two hosts, \<open>Generate\<close> succeeds on both with the same
  four factors of the required shapes; entry \<open>(i, j)\<close> of each factor is the oracle value at index \<open>i * cols + j\<close>
  of the seed derived with the factor's own domain tag (\<open>E_L\<close>, \<open>F_L\<close> of shape \<open>n * r\<close> and \<open>E_R\<close>, \<open>F_R\<close> of
  shape \<open>r * n\<close>); a domain tag of another length than 18 bytes is refused.\<close>

theorem generate_host_independent:
  assumes "n * r < 2 ^ 32" "n \<le> 2 ^ 30" "r \<le> 2 ^ 30"
  shows "\<exists>np el er fl fr. Generate host1 sigma n r = Some np \<and> Generate host2 sigma n r = Some np \<and> wf_noise n r np \<and>
    DeriveNoiseSeed TAG_EL sigma = Some el \<and> DeriveNoiseSeed TAG_ER sigma = Some er \<and>
    DeriveNoiseSeed TAG_FL sigma = Some fl \<and> DeriveNoiseSeed TAG_FR sigma = Some fr \<and>
    (\<forall>i < n. \<forall>j < r. matrix_at (E_L np) i j = Some (from_oracle el (of_nat (i * r + j)))) \<and>
    (\<forall>i < r. \<forall>j < n. matrix_at (E_R np) i j = Some (from_oracle er (of_nat (i * n + j)))) \<and>
    (\<forall>i < n. \<forall>j < r. matrix_at (F_L np) i j = Some (from_oracle fl (of_nat (i * r + j)))) \<and>
    (\<forall>i < r. \<forall>j < n. matrix_at (F_R np) i j = Some (from_oracle fr (of_nat (i * n + j)))) \<and>
    (\<forall>tag. length tag \<noteq> 18 \<longrightarrow> DeriveNoiseSeed tag sigma = None)"
proof (intro exI conjI)
  show "Generate host1 sigma n r = Some (noise_of sigma n r)" "Generate host2 sigma n r = Some (noise_of sigma n r)"
    and wf: "wf_noise n r (noise_of sigma n r)"
    by (rule Generate_correct[OF assms])+
  show "DeriveNoiseSeed TAG_EL sigma = Some (noise_seed TAG_EL sigma)"
    "DeriveNoiseSeed TAG_ER sigma = Some (noise_seed TAG_ER sigma)"
    "DeriveNoiseSeed TAG_FL sigma = Some (noise_seed TAG_FL sigma)"
    "DeriveNoiseSeed TAG_FR sigma = Some (noise_seed TAG_FR sigma)"
    by (rule DeriveNoiseSeed_correct, simp add: TAG_EL_def TAG_ER_def TAG_FL_def TAG_FR_def)+
  show "\<forall>i < n. \<forall>j < r. matrix_at (E_L (noise_of sigma n r)) i j =
      Some (from_oracle (noise_seed TAG_EL sigma) (of_nat (i * r + j)))"
    "\<forall>i < r. \<forall>j < n. matrix_at (E_R (noise_of sigma n r)) i j =
      Some (from_oracle (noise_seed TAG_ER sigma) (of_nat (i * n + j)))"
    "\<forall>i < n. \<forall>j < r. matrix_at (F_L (noise_of sigma n r)) i j =
      Some (from_oracle (noise_seed TAG_FL sigma) (of_nat (i * r + j)))"
    "\<forall>i < r. \<forall>j < n. matrix_at (F_R (noise_of sigma n r)) i j =
      Some (from_oracle (noise_seed TAG_FR sigma) (of_nat (i * n + j)))"
    using assms(2,3) by (simp_all add: noise_of_def seed_matrix_at del: of_nat_add of_nat_mult)
  show "\<forall>tag. length tag \<noteq> 18 \<longrightarrow> DeriveNoiseSeed tag sigma = None" by (simp add: DeriveNoiseSeed_def)
qed

theorem generate_host_independent_witness:
  "\<exists>np. Generate \<lparr>apple = True, env_parallel = Some ''1'', hardware_concurrency = 8, solve_worker_limit = 3\<rparr>
       (replicate 32 1) 16 2 = Some np \<and>
     Generate \<lparr>apple = False, env_parallel = None, hardware_concurrency = 1, solve_worker_limit = 0\<rparr>
       (replicate 32 1) 16 2 = Some np"
  using generate_host_independent[of 16 2
      "\<lparr>apple = True, env_parallel = Some ''1'', hardware_concurrency = 8, solve_worker_limit = 3\<rparr>" "replicate 32 1"
      "\<lparr>apple = False, env_parallel = None, hardware_concurrency = 1, solve_worker_limit = 0\<rparr>"] by auto

end
