(* ===== verification/Transcript.thy ===== *)
theory Transcript
  imports Noise
begin

text \<open>The transcript of the canonical block multiplication, after src/matmul/transcript.cpp: the
  compression of a block to one field element, the transcript hasher, \<open>CanonicalMatMul\<close>, the replay that
  reuses the clean block products of \<open>A\<close> and \<open>B\<close>, and the digest that commits to the product only. The
  lemmas show that \<open>CanonicalMatMul\<close> computes the product and hashes the compressed prefixes in a fixed
  order, that the replay gives the same hash without forming the perturbed matrices, and that the digest
  computed from the factors is the digest of the product.\<close>

section \<open>Definitions\<close>

definition COMPRESS_TAG :: string where
  "COMPRESS_TAG = ''matmul-compress-v1''"

definition PRODUCT_DIGEST_TAG :: string where
  "PRODUCT_DIGEST_TAG = ''matmul-product-digest-v3''"

definition DeriveCompressionSeed :: "uint256 \<Rightarrow> uint256" where
  "DeriveCompressionSeed sigma =
     (let hasher = Write256 (Write256 CSHA256_init (str_bytes COMPRESS_TAG)) (ToCanonicalBytes sigma) in
      CanonicalBytesToUint256 (fst (Finalize256 hasher)))"

definition DeriveCompressionVector :: "uint256 \<Rightarrow> nat \<Rightarrow> Element list option" where
  "DeriveCompressionVector sigma b =
     (if b = 0 then None
      else Some (map (\<lambda>k. from_oracle (DeriveCompressionSeed sigma) (of_nat (w32 k))) [0..<b * b]))"

definition RowBlockAllCols :: "Matrix \<Rightarrow> nat \<Rightarrow> nat \<Rightarrow> ConstMatrixView" where
  "RowBlockAllCols matrix block_index block_rows =
     \<lparr>v_data = drop (block_index * block_rows * m_cols matrix) (m_data matrix),
      v_rows = block_rows, v_cols = m_cols matrix, v_stride = m_cols matrix\<rparr>"

definition AllRowsColBlock :: "Matrix \<Rightarrow> nat \<Rightarrow> nat \<Rightarrow> ConstMatrixView" where
  "AllRowsColBlock matrix block_index block_cols =
     \<lparr>v_data = drop (block_index * block_cols) (m_data matrix),
      v_rows = m_rows matrix, v_cols = block_cols, v_stride = m_cols matrix\<rparr>"

definition BlockProductIndex :: "nat \<Rightarrow> nat \<Rightarrow> nat \<Rightarrow> nat \<Rightarrow> nat" where
  "BlockProductIndex i j ell blocks_per_axis = (i * blocks_per_axis + j) * blocks_per_axis + ell"

text \<open>The accumulation \<open>acc = add(acc, mul(x, y))\<close> that the loops below repeat, and the assignment of every
  cell of a row-major scratch vector.\<close>

definition mac :: "Element option \<Rightarrow> Element option \<Rightarrow> Element \<Rightarrow> Element option" where
  "mac x y acc = do { a \<leftarrow> x; b \<leftarrow> y; p \<leftarrow> field_mul a b; field_add acc p }"

definition mac_loop :: "(nat \<Rightarrow> Element option) \<Rightarrow> (nat \<Rightarrow> Element option) \<Rightarrow> nat \<Rightarrow> Element option" where
  "mac_loop x y n = for_opt (\<lambda>k. mac (x k) (y k)) 0 n 0"

definition fill_cells :: "(nat \<Rightarrow> nat \<Rightarrow> Element option) \<Rightarrow> nat \<Rightarrow> nat \<Rightarrow> Element list option" where
  "fill_cells f rows cols =
     for_opt (\<lambda>x. for_opt (\<lambda>u out. do { acc \<leftarrow> f x u; Some (out[x * cols + u := acc]) }) 0 cols) 0 rows
       (replicate (rows * cols) 0)"

definition CompressAfBlock ::
    "ConstMatrixView \<Rightarrow> ConstMatrixView \<Rightarrow> ConstMatrixView \<Rightarrow> Element list \<Rightarrow> Element option" where
  "CompressAfBlock a_block f_l_block f_r_block v =
     (let b = v_rows a_block; r = v_cols f_l_block in do {
        weighted_v \<leftarrow> fill_cells (\<lambda>x u. mac_loop (\<lambda>y. nth_opt v (x * b + y)) (\<lambda>y. view_at f_r_block u y) b) b r;
        for_opt (\<lambda>t. for_opt (\<lambda>u scalar. do {
            acc \<leftarrow> mac_loop (\<lambda>x. view_at a_block x t) (\<lambda>x. nth_opt weighted_v (x * r + u)) b;
            mac (view_at f_l_block t u) (Some acc) scalar
          }) 0 r) 0 b 0
      })"

definition CompressEbBlock ::
    "ConstMatrixView \<Rightarrow> ConstMatrixView \<Rightarrow> ConstMatrixView \<Rightarrow> Element list \<Rightarrow> Element option" where
  "CompressEbBlock e_l_block e_r_block b_block v =
     (let b = v_rows e_l_block; r = v_cols e_l_block in do {
        weighted_v \<leftarrow> fill_cells (\<lambda>u y. mac_loop (\<lambda>x. view_at e_l_block x u) (\<lambda>x. nth_opt v (x * b + y)) b) r b;
        for_opt (\<lambda>u. for_opt (\<lambda>t scalar. do {
            acc \<leftarrow> mac_loop (\<lambda>y. nth_opt weighted_v (u * b + y)) (\<lambda>y. view_at b_block t y) b;
            mac (view_at e_r_block u t) (Some acc) scalar
          }) 0 b) 0 r 0
      })"

definition CompressEfBlock ::
    "ConstMatrixView \<Rightarrow> ConstMatrixView \<Rightarrow> ConstMatrixView \<Rightarrow> ConstMatrixView \<Rightarrow> Element list \<Rightarrow> Element option" where
  "CompressEfBlock e_l_block e_r_block f_l_block f_r_block v =
     (let b = v_rows e_l_block; r = v_cols e_l_block in do {
        weighted_v \<leftarrow> fill_cells (\<lambda>u y. mac_loop (\<lambda>x. view_at e_l_block x u) (\<lambda>x. nth_opt v (x * b + y)) b) r b;
        weighted_fr \<leftarrow> fill_cells (\<lambda>u v_idx. mac_loop (\<lambda>y. nth_opt weighted_v (u * b + y))
          (\<lambda>y. view_at f_r_block v_idx y) b) r r;
        for_opt (\<lambda>t. for_opt (\<lambda>v_idx scalar. do {
            acc \<leftarrow> mac_loop (\<lambda>u. view_at e_r_block u t) (\<lambda>u. nth_opt weighted_fr (u * r + v_idx)) r;
            mac (Some acc) (view_at f_l_block t v_idx) scalar
          }) 0 r) 0 b 0
      })"

definition CompressBlock :: "bool \<Rightarrow> Matrix \<Rightarrow> Element list \<Rightarrow> Element option" where
  "CompressBlock neon block_bb v =
     (let len = m_rows block_bb * m_cols block_bb in
      if len \<noteq> length v then None
      else if len > 2 ^ 32 - 1 then None
      else field_dot neon (m_data block_bb) v len)"

definition CompressBlock_view :: "bool \<Rightarrow> ConstMatrixView \<Rightarrow> Element list \<Rightarrow> Element option" where
  "CompressBlock_view neon block_bb v =
     (if v_rows block_bb * v_cols block_bb \<noteq> length v then None
      else for_opt (\<lambda>row acc. do {
             row_ptr \<leftarrow> view_row_ptr block_bb row;
             d \<leftarrow> field_dot neon row_ptr (drop (row * v_cols block_bb) v) (v_cols block_bb);
             field_add acc d
           }) 0 (v_rows block_bb) 0)"

record TranscriptHasher =
  th_b :: nat
  th_hasher :: CSHA256
  th_compress_vec :: "Element list"

definition TranscriptHasher_new :: "uint256 \<Rightarrow> nat \<Rightarrow> TranscriptHasher option" where
  "TranscriptHasher_new sigma b = do {
     v \<leftarrow> DeriveCompressionVector sigma b;
     Some \<lparr>th_b = b, th_hasher = CSHA256_init, th_compress_vec = v\<rparr>
   }"

definition AddIntermediate_view :: "bool \<Rightarrow> ConstMatrixView \<Rightarrow> TranscriptHasher \<Rightarrow> TranscriptHasher option" where
  "AddIntermediate_view neon block_bb th =
     (if v_rows block_bb \<noteq> th_b th \<or> v_cols block_bb \<noteq> th_b th then None
      else do {
        compressed \<leftarrow> CompressBlock_view neon block_bb (th_compress_vec th);
        Some (th\<lparr>th_hasher := Write256 (th_hasher th) (WriteLE32 compressed)\<rparr>)
      })"

definition AddIntermediate :: "bool \<Rightarrow> Matrix \<Rightarrow> TranscriptHasher \<Rightarrow> TranscriptHasher option" where
  "AddIntermediate neon block_bb =
     AddIntermediate_view neon \<lparr>v_data = m_data block_bb, v_rows = m_rows block_bb,
       v_cols = m_cols block_bb, v_stride = m_cols block_bb\<rparr>"

definition TranscriptHasher_Finalize :: "TranscriptHasher \<Rightarrow> uint256" where
  "TranscriptHasher_Finalize th =
     (let inner = fst (Finalize256 (th_hasher th)) in fst (Finalize256 (Write256 CSHA256_init inner)))"

definition canonical_step :: "bool \<Rightarrow> Matrix \<Rightarrow> Matrix \<Rightarrow> nat \<Rightarrow> nat \<Rightarrow> nat \<Rightarrow> nat \<Rightarrow>
    Matrix \<times> TranscriptHasher \<Rightarrow> (Matrix \<times> TranscriptHasher) option" where
  "canonical_step neon A_prime B_prime b i j ell = (\<lambda>(C_prime, hasher). do {
     a_block \<leftarrow> matrix_block A_prime i ell b;
     b_block \<leftarrow> matrix_block B_prime ell j b;
     product \<leftarrow> matrix_mul neon a_block b_block;
     c_block \<leftarrow> matrix_block C_prime i j b;
     c_block' \<leftarrow> matrix_add c_block product;
     C_prime' \<leftarrow> matrix_set_block C_prime i j b c_block';
     hasher' \<leftarrow> AddIntermediate neon c_block' hasher;
     Some (C_prime', hasher')
   })"

definition square_blocks :: "Matrix \<Rightarrow> Matrix \<Rightarrow> nat \<Rightarrow> bool" where
  "square_blocks A B b \<longleftrightarrow> m_rows A = m_cols A \<and> m_rows B = m_cols B \<and> m_rows A = m_rows B \<and>
     b \<noteq> 0 \<and> m_rows A mod b = 0"

definition CanonicalMatMul :: "bool \<Rightarrow> Matrix \<Rightarrow> Matrix \<Rightarrow> nat \<Rightarrow> uint256 \<Rightarrow> (Matrix \<times> uint256) option" where
  "CanonicalMatMul neon A_prime B_prime b sigma =
     (if \<not> square_blocks A_prime B_prime b then None
      else let n = m_rows A_prime; N = n div b in do {
        hasher \<leftarrow> TranscriptHasher_new sigma b;
        (C_prime, hasher') \<leftarrow> for_opt (\<lambda>i. for_opt (\<lambda>j. for_opt (\<lambda>ell.
            canonical_step neon A_prime B_prime b i j ell) 0 N) 0 N) 0 N (matrix_new n n, hasher);
        Some (C_prime, TranscriptHasher_Finalize hasher')
      })"

definition PrecomputeCleanBlockProducts :: "bool \<Rightarrow> Matrix \<Rightarrow> Matrix \<Rightarrow> nat \<Rightarrow> Matrix list option" where
  "PrecomputeCleanBlockProducts neon A B b =
     (if \<not> square_blocks A B b then None
      else let N = m_rows A div b in
        for_opt (\<lambda>i. for_opt (\<lambda>j. for_opt (\<lambda>ell out. do {
            x \<leftarrow> matrix_block A i ell b;
            y \<leftarrow> matrix_block B ell j b;
            p \<leftarrow> matrix_mul neon x y;
            Some (out @ [p])
          }) 0 N) 0 N) 0 N [])"

definition replay_step :: "bool \<Rightarrow> Matrix \<Rightarrow> Matrix \<Rightarrow> Matrix list \<Rightarrow> NoisePair \<Rightarrow> nat \<Rightarrow> nat \<Rightarrow> Element list \<Rightarrow>
    nat \<Rightarrow> nat \<Rightarrow> nat \<Rightarrow> Element \<times> CSHA256 \<Rightarrow> (Element \<times> CSHA256) option" where
  "replay_step neon A B clean_block_products noise b N compress_vec i j ell = (\<lambda>(compressed_prefix, hasher). do {
     let e_l_block = RowBlockAllCols (E_L noise) i b;
     let f_r_block = AllRowsColBlock (F_R noise) j b;
     clean_block \<leftarrow> nth_opt clean_block_products (BlockProductIndex i j ell N);
     clean_compressed \<leftarrow> CompressBlock neon clean_block compress_vec;
     a_block \<leftarrow> matrix_block_view A i ell b;
     b_block \<leftarrow> matrix_block_view B ell j b;
     let e_r_block = AllRowsColBlock (E_R noise) ell b;
     let f_l_block = RowBlockAllCols (F_L noise) ell b;
     af_compressed \<leftarrow> CompressAfBlock a_block f_l_block f_r_block compress_vec;
     eb_compressed \<leftarrow> CompressEbBlock e_l_block e_r_block b_block compress_vec;
     ef_compressed \<leftarrow> CompressEfBlock e_l_block e_r_block f_l_block f_r_block compress_vec;
     s1 \<leftarrow> field_add eb_compressed ef_compressed;
     s2 \<leftarrow> field_add af_compressed s1;
     s3 \<leftarrow> field_add clean_compressed s2;
     compressed_prefix' \<leftarrow> field_add compressed_prefix s3;
     Some (compressed_prefix', Write256 hasher (WriteLE32 compressed_prefix'))
   })"

definition ReplayCanonicalHashWithReusableCleanProducts ::
    "bool \<Rightarrow> Matrix \<Rightarrow> Matrix \<Rightarrow> Matrix list \<Rightarrow> NoisePair \<Rightarrow> nat \<Rightarrow> uint256 \<Rightarrow> uint256 option" where
  "ReplayCanonicalHashWithReusableCleanProducts neon A B clean_block_products noise b sigma =
     (if \<not> square_blocks A B b then None
      else let n = m_rows A; N = n div b in
        if length clean_block_products \<noteq> N * N * N then None
        else if m_rows (E_L noise) \<noteq> n \<or> m_cols (E_L noise) \<noteq> m_rows (E_R noise) \<or> m_cols (E_R noise) \<noteq> n \<or>
            m_rows (F_L noise) \<noteq> n \<or> m_cols (F_L noise) \<noteq> m_rows (F_R noise) \<or> m_cols (F_R noise) \<noteq> n then None
        else do {
          compress_vec \<leftarrow> DeriveCompressionVector sigma b;
          hasher \<leftarrow> for_opt (\<lambda>i. for_opt (\<lambda>j hasher. do {
              (_, hasher') \<leftarrow> for_opt (\<lambda>ell. replay_step neon A B clean_block_products noise b N compress_vec i j ell)
                0 N (0, hasher);
              Some hasher'
            }) 0 N) 0 N CSHA256_init;
          Some (CHash256_Finalize hasher)
        })"

text \<open>On a little-endian host the words are hashed as one span of memory, elsewhere byte by byte.\<close>

definition HashMatrixWords :: "bool \<Rightarrow> Element list \<Rightarrow> uint256" where
  "HashMatrixWords little_endian words =
     CHash256_Finalize
       (if little_endian
        then (if words \<noteq> [] then Write256 CSHA256_init (concat (map WriteLE32 words)) else CSHA256_init)
        else fold (\<lambda>value hasher. Write256 hasher [ucast value, ucast (drop_bit 8 value),
               ucast (drop_bit 16 value), ucast (drop_bit 24 value)]) words CSHA256_init)"

definition FinalizeTranscriptDigestFromWords :: "bool \<Rightarrow> Element list \<Rightarrow> uint256" where
  "FinalizeTranscriptDigestFromWords little_endian words = HashMatrixWords little_endian words"

definition FinalizeProductCommittedDigestFromHash :: "uint256 \<Rightarrow> uint256 \<Rightarrow> nat \<Rightarrow> nat \<Rightarrow> uint256 option" where
  "FinalizeProductCommittedDigestFromHash c_prime_hash sigma dim b =
     (if dim = 0 \<or> b = 0 then None
      else if dim mod b \<noteq> 0 then None
      else
        let le = \<lambda>x :: u32. [ucast x, ucast (drop_bit 8 x), ucast (drop_bit 16 x), ucast (drop_bit 24 x)];
            outer = Write256 CSHA256_init (str_bytes PRODUCT_DIGEST_TAG);
            outer = Write256 outer (take 32 sigma);
            outer = Write256 outer (take 32 c_prime_hash);
            outer = Write256 outer (le (of_nat dim));
            outer = Write256 outer (le (of_nat b));
            inner = fst (Finalize256 outer) in
        Some (fst (Finalize256 (Write256 CSHA256_init inner))))"

definition ComputeProductCommittedDigestFromWords ::
    "bool \<Rightarrow> Element list \<Rightarrow> uint256 \<Rightarrow> nat \<Rightarrow> nat \<Rightarrow> uint256 option" where
  "ComputeProductCommittedDigestFromWords little_endian c_prime_words sigma dim b =
     (if dim = 0 \<or> b = 0 \<or> dim mod b \<noteq> 0 then None
      else if length c_prime_words \<noteq> (dim div b) * (dim div b) then None
      else FinalizeProductCommittedDigestFromHash (HashMatrixWords little_endian c_prime_words) sigma dim b)"

definition ComputeProductCommittedDigest :: "bool \<Rightarrow> bool \<Rightarrow> Matrix \<Rightarrow> nat \<Rightarrow> uint256 \<Rightarrow> uint256 option" where
  "ComputeProductCommittedDigest neon little_endian C_prime b sigma =
     (if m_rows C_prime \<noteq> m_cols C_prime then None
      else if b = 0 \<or> m_rows C_prime mod b \<noteq> 0 then None
      else let blocks_per_axis = m_rows C_prime div b in do {
        compress_vec \<leftarrow> DeriveCompressionVector sigma b;
        compressed_blocks \<leftarrow> for_opt (\<lambda>i. for_opt (\<lambda>j out. do {
            blk \<leftarrow> matrix_block_view C_prime i j b;
            w \<leftarrow> CompressBlock_view neon blk compress_vec;
            Some (out @ [w])
          }) 0 blocks_per_axis) 0 blocks_per_axis [];
        ComputeProductCommittedDigestFromWords little_endian compressed_blocks sigma (m_rows C_prime) b
      })"

definition ComputeProductCommittedDigestFromPerturbed ::
    "bool \<Rightarrow> bool \<Rightarrow> Matrix \<Rightarrow> Matrix \<Rightarrow> nat \<Rightarrow> uint256 \<Rightarrow> uint256 option" where
  "ComputeProductCommittedDigestFromPerturbed neon little_endian A_prime B_prime b sigma =
     (if \<not> square_blocks A_prime B_prime b then None
      else let n = m_rows A_prime; blocks_per_axis = n div b in do {
        compress_vec \<leftarrow> DeriveCompressionVector sigma b;
        compressed_blocks \<leftarrow> for_opt (\<lambda>i. for_opt (\<lambda>j out. do {
            compressed_acc \<leftarrow> for_opt (\<lambda>ell acc. do {
                x \<leftarrow> matrix_block A_prime i ell b;
                y \<leftarrow> matrix_block B_prime ell j b;
                product \<leftarrow> matrix_mul neon x y;
                w \<leftarrow> CompressBlock neon product compress_vec;
                field_add acc w
              }) 0 blocks_per_axis 0;
            Some (out @ [compressed_acc])
          }) 0 blocks_per_axis) 0 blocks_per_axis [];
        ComputeProductCommittedDigestFromWords little_endian compressed_blocks sigma n b
      })"

section \<open>Checked field computations\<close>

text \<open>\<open>evals e z\<close>: the computation \<open>e\<close> succeeds with a reduced element that stands for \<open>z\<close>.\<close>

definition evals :: "Element option \<Rightarrow> Z31 \<Rightarrow> bool" where
  "evals e z \<longleftrightarrow> (\<exists>x. e = Some x \<and> felem x \<and> fval x = z)"

lemma evalsI: "e = Some x \<Longrightarrow> felem x \<Longrightarrow> fval x = z \<Longrightarrow> evals e z"
  by (auto simp: evals_def)

lemma evalsE: assumes "evals e z" obtains x where "e = Some x" "felem x" "fval x = z"
  using assms by (auto simp: evals_def)

lemma evals_Some: "felem x \<Longrightarrow> evals (Some x) (fval x)"
  by (simp add: evals_def)

lemma evals_bind: "evals e z \<Longrightarrow> (\<And>x. e = Some x \<Longrightarrow> felem x \<Longrightarrow> fval x = z \<Longrightarrow> evals (f x) w) \<Longrightarrow> evals (Option.bind e f) w"
  by (auto simp: evals_def)

lemma evals_unique: "evals e z \<Longrightarrow> evals e' z \<Longrightarrow> e = e'"
  by (auto simp: evals_def intro: fval_inj)

lemma evals_add: "felem a \<Longrightarrow> felem b \<Longrightarrow> evals (field_add a b) (fval a + fval b)"
  by (rule field_add_fval[of a b]) (auto intro: evalsI)

lemma evals_mac:
  assumes "evals x X" "evals y Y" "felem acc"
  shows "evals (mac x y acc) (fval acc + X * Y)"
proof -
  obtain a b where a: "x = Some a" "felem a" "fval a = X" and b: "y = Some b" "felem b" "fval b = Y"
    using assms(1,2) by (auto simp: evals_def)
  obtain p where p: "field_mul a b = Some p" "fval p = fval a * fval b" "felem p"
    by (rule field_mul_fval[OF a(2) b(2)])
  show ?thesis using evals_add[OF assms(3) p(3)] by (simp add: mac_def a b p(1,2))
qed

lemma evals_for:
  assumes "\<And>k acc. k < n \<Longrightarrow> felem acc \<Longrightarrow> evals (f k acc) (fval acc + g k)" "felem a0"
  shows "evals (for_opt f 0 n a0) (fval a0 + (\<Sum>k<n. g k))"
proof -
  have "\<exists>t. for_opt f 0 n a0 = Some t \<and> (felem t \<and> fval t = fval a0 + (\<Sum>k<0 + n. g k))"
  proof (rule for_opt_rule)
    fix j t assume "j < 0 + n" and t: "felem t \<and> fval t = fval a0 + (\<Sum>k<j. g k)"
    with assms(1)[of j t] obtain u where "f j t = Some u" "felem u" "fval u = fval t + g j"
      by (auto simp: evals_def)
    then show "\<exists>u. f j t = Some u \<and> felem u \<and> fval u = fval a0 + (\<Sum>k<Suc j. g k)"
      using t by (simp add: add.assoc)
  qed (use assms(2) in simp)
  then show ?thesis by (auto simp: evals_def)
qed

lemma evals_for0:
  assumes "\<And>k acc. k < n \<Longrightarrow> felem acc \<Longrightarrow> evals (f k acc) (fval acc + g k)"
  shows "evals (for_opt f 0 n 0) (\<Sum>k<n. g k)"
  using evals_for[of n f g 0, OF assms] by simp

lemma evals_mac_loop:
  assumes "\<And>k. k < n \<Longrightarrow> evals (x k) (X k)" "\<And>k. k < n \<Longrightarrow> evals (y k) (Y k)"
  shows "evals (mac_loop x y n) (\<Sum>k<n. X k * Y k)"
  unfolding mac_loop_def by (rule evals_for0) (rule evals_mac[OF assms])

lemma fill_cells_correct:
  assumes f: "\<And>x u. x < rows \<Longrightarrow> u < cols \<Longrightarrow> evals (f x u) (h x u)"
  obtains w where "fill_cells f rows cols = Some w"
    "\<And>x u. x < rows \<Longrightarrow> u < cols \<Longrightarrow> evals (nth_opt w (x * cols + u)) (h x u)"
proof -
  let ?ok = "\<lambda>w x u. evals (nth_opt w (x * cols + u)) (h x u)"
  let ?row = "\<lambda>x k w. length w = rows * cols \<and> (\<forall>x' < x. \<forall>u < cols. ?ok w x' u) \<and> (\<forall>u < k. ?ok w x u)"
  let ?f = "\<lambda>x u out. do { acc \<leftarrow> f x u; Some (out[x * cols + u := acc]) }"
  have "\<exists>w. for_opt (\<lambda>x. for_opt (?f x) 0 cols) 0 rows (replicate (rows * cols) 0) = Some w \<and> ?row (0 + rows) 0 w"
  proof (rule for_opt_rule)
    fix x w assume "0 \<le> x" and x: "x < 0 + rows" and w: "?row x 0 w"
    have "\<exists>w'. for_opt (?f x) 0 cols w = Some w' \<and> ?row x (0 + cols) w'"
    proof (rule for_opt_rule)
      fix u out assume "0 \<le> u" and u: "u < 0 + cols" and out: "?row x u out"
      obtain acc where acc: "f x u = Some acc" "felem acc" "fval acc = h x u"
        by (rule evalsE[OF f[of x u]]) (use x u in auto)
      have lt: "x' * cols + u' < length out" if "x' < rows" "u' < cols" for x' u'
        using out idx_less[OF that] by simp
      have other: "nth_opt (out[x * cols + u := acc]) (x' * cols + u') = nth_opt out (x' * cols + u')"
        if "x' < rows" "u' < cols" "(x', u') \<noteq> (x, u)" for x' u'
        using that lt[OF that(1,2)] idx_eq_iff[of u' cols u x' x] u by (auto simp: nth_opt_def)
      have "?row x (Suc u) (out[x * cols + u := acc])"
        using out x u other acc lt[of x u] by (auto simp: less_Suc_eq evals_def)
      then show "\<exists>v. ?f x u out = Some v \<and> ?row x (Suc u) v" using acc(1) by simp
    qed (use w in simp)
    then show "\<exists>v. for_opt (?f x) 0 cols w = Some v \<and> ?row (Suc x) 0 v" by (auto simp: less_Suc_eq)
  qed simp
  then show thesis using that by (auto simp: fill_cells_def)
qed

section \<open>Compression\<close>

definition view_ok :: "ConstMatrixView \<Rightarrow> nat \<Rightarrow> nat \<Rightarrow> (nat \<Rightarrow> nat \<Rightarrow> Z31) \<Rightarrow> bool" where
  "view_ok v r c V \<longleftrightarrow> v_rows v = r \<and> v_cols v = c \<and> felems (v_data v) \<and>
     (\<forall>i < r. \<forall>j < c. evals (view_at v i j) (V i j))"

definition compress_sum :: "nat \<Rightarrow> Element list \<Rightarrow> (nat \<Rightarrow> nat \<Rightarrow> Z31) \<Rightarrow> Z31" where
  "compress_sum b v X = (\<Sum>x<b. \<Sum>y<b. X x y * fval (v ! (x * b + y)))"

definition vec_ok :: "nat \<Rightarrow> Element list \<Rightarrow> bool" where
  "vec_ok b v \<longleftrightarrow> length v = b * b \<and> felems v"

lemma vec_ok_nth: "vec_ok b v \<Longrightarrow> x < b \<Longrightarrow> y < b \<Longrightarrow> evals (nth_opt v (x * b + y)) (fval (v ! (x * b + y)))"
  using idx_less[of x b y b] by (auto simp: vec_ok_def intro!: evalsI felems_nth)

lemma DeriveCompressionVector_ok:
  assumes "0 < b" obtains v where "DeriveCompressionVector sigma b = Some v" "vec_ok b v"
  using assms by (auto simp: DeriveCompressionVector_def vec_ok_def felems_def from_oracle_felem)

lemma sum_lessThan_add: "(\<Sum>k<a + c. f k) = (\<Sum>k<a. f k) + (\<Sum>j<c. f (a + j))" for f :: "nat \<Rightarrow> Z31"
  by (induction c) (simp_all add: add.assoc)

lemma sum_idx: "(\<Sum>k<r * c. f k) = (\<Sum>i<r. \<Sum>j<c. f (i * c + j))" for f :: "nat \<Rightarrow> Z31"
proof (induction r)
  case (Suc r)
  have "(\<Sum>k<Suc r * c. f k) = (\<Sum>k<r * c + c. f k)" by (simp add: add.commute)
  also have "\<dots> = (\<Sum>k<r * c. f k) + (\<Sum>j<c. f (r * c + j))" by (rule sum_lessThan_add)
  finally show ?case using Suc by simp
qed simp

lemma dot_fits_block: "b * b < 2 ^ 32 \<Longrightarrow> dot_fits neon b \<and> dot_fits neon (b * b)"
proof -
  assume b: "b * b < 2 ^ 32"
  have "b < 2 ^ 16"
  proof (rule ccontr)
    assume "\<not> b < 2 ^ 16"
    then have "2 ^ 16 * 2 ^ 16 \<le> b * b" by (intro mult_le_mono) simp_all
    with b show False by simp
  qed
  then have le: "b \<le> 65535" by simp
  then have "b * b \<le> 65535 * 65535" by (intro mult_le_mono)
  with le show ?thesis by (simp add: dot_fits_def)
qed

lemma CompressBlock_correct:
  assumes m: "fmat b b m" and v: "vec_ok b v" and b: "b * b < 2 ^ 32"
  shows "evals (CompressBlock neon m v) (compress_sum b v (mval m))"
proof -
  have s: "m_rows m = b" "m_cols m = b" "length (m_data m) = b * b" "felems (m_data m)"
    using m by (auto simp: fmat_def wf_mat_def)
  obtain d where d: "field_dot neon (m_data m) v (b * b) = Some d"
    "fval d = (\<Sum>k<b * b. fval (m_data m ! k) * fval (v ! k))" "felem d"
    by (rule field_dot_fval[of "m_data m" v "b * b" neon])
      (use s v dot_fits_block[OF b] in \<open>auto simp: vec_ok_def\<close>)
  have "CompressBlock neon m v = Some d" using s v b d(1) by (simp add: CompressBlock_def vec_ok_def Let_def)
  moreover have "fval d = compress_sum b v (mval m)"
    unfolding d(2) sum_idx compress_sum_def by (simp add: mval_def ment_def s)
  ultimately show ?thesis using d(3) by (intro evalsI)
qed

lemma CompressBlock_view_correct:
  assumes m: "view_ok m b b X" and v: "vec_ok b v" and fb: "dot_fits neon b"
  shows "evals (CompressBlock_view neon m v) (compress_sum b v X)"
proof -
  have s: "v_rows m = b" "v_cols m = b" "felems (v_data m)" using m by (auto simp: view_ok_def)
  have len: "i * v_stride m + j < length (v_data m) \<and> fval (v_data m ! (i * v_stride m + j)) = X i j" if "i < b" "j < b" for i j
    using m that by (auto simp: view_ok_def view_at_def evals_def nth_opt_def split: if_splits)
  have "evals (for_opt (\<lambda>row acc. do {
             row_ptr \<leftarrow> view_row_ptr m row;
             d \<leftarrow> field_dot neon row_ptr (drop (row * b) v) b;
             field_add acc d
           }) 0 b 0) (\<Sum>x<b. \<Sum>y<b. X x y * fval (v ! (x * b + y)))"
  proof (rule evals_for0)
    fix i acc assume i: "i < b" and acc: "felem acc"
    have l1: "i * v_stride m + b \<le> length (v_data m)" using len[OF i, of "b - 1"] i by linarith
    have l2: "i * b + b \<le> b * b" using idx_less[of i b "b - 1" b] i by simp
    obtain d where d: "field_dot neon (drop (i * v_stride m) (v_data m)) (drop (i * b) v) b = Some d"
      "fval d = (\<Sum>k<b. fval (drop (i * v_stride m) (v_data m) ! k) * fval (drop (i * b) v ! k))" "felem d"
      by (rule field_dot_fval[of "drop (i * v_stride m) (v_data m)" "drop (i * b) v" b neon])
         (use s v l1 l2 fb in \<open>auto simp: vec_ok_def felems_drop\<close>)
    have "fval d = (\<Sum>y<b. X i y * fval (v ! (i * b + y)))"
    proof -
      have "i * b \<le> length v" "i * v_stride m \<le> length (v_data m)" using l1 i v by (auto simp: vec_ok_def)
      then show ?thesis unfolding d(2) by (intro sum.cong) (use len[OF i] in \<open>auto simp: nth_drop\<close>)
    qed
    then show "evals (do {
             row_ptr \<leftarrow> view_row_ptr m i;
             d \<leftarrow> field_dot neon row_ptr (drop (i * b) v) b;
             field_add acc d
           }) (fval acc + (\<Sum>y<b. X i y * fval (v ! (i * b + y))))"
      using evals_add[OF acc d(3)] i s(1) d(1) by (simp add: view_row_ptr_def)
  qed
  then show ?thesis using v s by (simp add: CompressBlock_view_def compress_sum_def vec_ok_def)
qed

text \<open>The three cross terms. Each is the compression of a product of blocks, computed without forming the
  product.\<close>

lemma CompressAfBlock_correct:
  assumes a: "view_ok a b b A" and fl: "view_ok fl b r FL" and fr: "view_ok fr r b FR" and v: "vec_ok b v"
  shows "evals (CompressAfBlock a fl fr v)
    (\<Sum>t<b. \<Sum>u<r. FL t u * (\<Sum>x<b. A x t * (\<Sum>y<b. fval (v ! (x * b + y)) * FR u y)))"
proof -
  have s: "v_rows a = b" "v_cols fl = r" using a fl by (auto simp: view_ok_def)
  obtain w where w: "fill_cells (\<lambda>x u. mac_loop (\<lambda>y. nth_opt v (x * b + y)) (\<lambda>y. view_at fr u y) b) b r = Some w"
    "\<And>x u. x < b \<Longrightarrow> u < r \<Longrightarrow> evals (nth_opt w (x * r + u)) (\<Sum>y<b. fval (v ! (x * b + y)) * FR u y)"
    by (rule fill_cells_correct[of b r "\<lambda>x u. mac_loop (\<lambda>y. nth_opt v (x * b + y)) (\<lambda>y. view_at fr u y) b"
          "\<lambda>x u. \<Sum>y<b. fval (v ! (x * b + y)) * FR u y"], rule evals_mac_loop)
       (use v fr in \<open>auto simp: vec_ok_nth view_ok_def\<close>)
  have "evals (for_opt (\<lambda>t. for_opt (\<lambda>u scalar. do {
            acc \<leftarrow> mac_loop (\<lambda>x. view_at a x t) (\<lambda>x. nth_opt w (x * r + u)) b;
            mac (view_at fl t u) (Some acc) scalar
          }) 0 r) 0 b 0)
      (\<Sum>t<b. \<Sum>u<r. FL t u * (\<Sum>x<b. A x t * (\<Sum>y<b. fval (v ! (x * b + y)) * FR u y)))"
  proof (rule evals_for0, rule evals_for)
    fix t u acc assume t: "t < b" and u: "u < r" and acc: "felem acc"
    have inner: "evals (mac_loop (\<lambda>x. view_at a x t) (\<lambda>x. nth_opt w (x * r + u)) b)
        (\<Sum>x<b. A x t * (\<Sum>y<b. fval (v ! (x * b + y)) * FR u y))"
      by (rule evals_mac_loop) (use t u a w(2) in \<open>auto simp: view_ok_def\<close>)
    show "evals (do {
            acc' \<leftarrow> mac_loop (\<lambda>x. view_at a x t) (\<lambda>x. nth_opt w (x * r + u)) b;
            mac (view_at fl t u) (Some acc') acc
          }) (fval acc + FL t u * (\<Sum>x<b. A x t * (\<Sum>y<b. fval (v ! (x * b + y)) * FR u y)))"
      by (rule evals_bind[OF inner], rule evals_mac[OF _ _ acc])
         (use fl t u in \<open>auto simp: view_ok_def intro: evalsI\<close>)
  qed
  then show ?thesis using w(1) by (simp add: CompressAfBlock_def s)
qed

lemma CompressEbBlock_correct:
  assumes el: "view_ok el b r EL" and er: "view_ok er r b ER" and bv: "view_ok bv b b B" and v: "vec_ok b v"
  shows "evals (CompressEbBlock el er bv v)
    (\<Sum>u<r. \<Sum>t<b. ER u t * (\<Sum>y<b. (\<Sum>x<b. EL x u * fval (v ! (x * b + y))) * B t y))"
proof -
  have s: "v_rows el = b" "v_cols el = r" using el by (auto simp: view_ok_def)
  obtain w where w: "fill_cells (\<lambda>u y. mac_loop (\<lambda>x. view_at el x u) (\<lambda>x. nth_opt v (x * b + y)) b) r b = Some w"
    "\<And>u y. u < r \<Longrightarrow> y < b \<Longrightarrow> evals (nth_opt w (u * b + y)) (\<Sum>x<b. EL x u * fval (v ! (x * b + y)))"
    by (rule fill_cells_correct[of r b "\<lambda>u y. mac_loop (\<lambda>x. view_at el x u) (\<lambda>x. nth_opt v (x * b + y)) b"
          "\<lambda>u y. \<Sum>x<b. EL x u * fval (v ! (x * b + y))"], rule evals_mac_loop)
       (use v el in \<open>auto simp: vec_ok_nth view_ok_def\<close>)
  have "evals (for_opt (\<lambda>u. for_opt (\<lambda>t scalar. do {
            acc \<leftarrow> mac_loop (\<lambda>y. nth_opt w (u * b + y)) (\<lambda>y. view_at bv t y) b;
            mac (view_at er u t) (Some acc) scalar
          }) 0 b) 0 r 0)
      (\<Sum>u<r. \<Sum>t<b. ER u t * (\<Sum>y<b. (\<Sum>x<b. EL x u * fval (v ! (x * b + y))) * B t y))"
  proof (rule evals_for0, rule evals_for)
    fix u t acc assume u: "u < r" and t: "t < b" and acc: "felem acc"
    have inner: "evals (mac_loop (\<lambda>y. nth_opt w (u * b + y)) (\<lambda>y. view_at bv t y) b)
        (\<Sum>y<b. (\<Sum>x<b. EL x u * fval (v ! (x * b + y))) * B t y)"
      by (rule evals_mac_loop) (use t u bv w(2) in \<open>auto simp: view_ok_def\<close>)
    show "evals (do {
            acc' \<leftarrow> mac_loop (\<lambda>y. nth_opt w (u * b + y)) (\<lambda>y. view_at bv t y) b;
            mac (view_at er u t) (Some acc') acc
          }) (fval acc + ER u t * (\<Sum>y<b. (\<Sum>x<b. EL x u * fval (v ! (x * b + y))) * B t y))"
      by (rule evals_bind[OF inner], rule evals_mac[OF _ _ acc])
         (use er t u in \<open>auto simp: view_ok_def intro: evalsI\<close>)
  qed
  then show ?thesis using w(1) by (simp add: CompressEbBlock_def s)
qed

lemma CompressEfBlock_correct:
  assumes el: "view_ok el b r EL" and er: "view_ok er r b ER" and fl: "view_ok fl b r FL" and fr: "view_ok fr r b FR"
    and v: "vec_ok b v"
  shows "evals (CompressEfBlock el er fl fr v)
    (\<Sum>t<b. \<Sum>q<r. (\<Sum>u<r. ER u t * (\<Sum>y<b. (\<Sum>x<b. EL x u * fval (v ! (x * b + y))) * FR q y)) * FL t q)"
proof -
  have s: "v_rows el = b" "v_cols el = r" using el by (auto simp: view_ok_def)
  obtain w where w: "fill_cells (\<lambda>u y. mac_loop (\<lambda>x. view_at el x u) (\<lambda>x. nth_opt v (x * b + y)) b) r b = Some w"
    "\<And>u y. u < r \<Longrightarrow> y < b \<Longrightarrow> evals (nth_opt w (u * b + y)) (\<Sum>x<b. EL x u * fval (v ! (x * b + y)))"
    by (rule fill_cells_correct[of r b "\<lambda>u y. mac_loop (\<lambda>x. view_at el x u) (\<lambda>x. nth_opt v (x * b + y)) b"
          "\<lambda>u y. \<Sum>x<b. EL x u * fval (v ! (x * b + y))"], rule evals_mac_loop)
       (use v el in \<open>auto simp: vec_ok_nth view_ok_def\<close>)
  obtain g where g: "fill_cells (\<lambda>u q. mac_loop (\<lambda>y. nth_opt w (u * b + y)) (\<lambda>y. view_at fr q y) b) r r = Some g"
    "\<And>u q. u < r \<Longrightarrow> q < r \<Longrightarrow> evals (nth_opt g (u * r + q)) (\<Sum>y<b. (\<Sum>x<b. EL x u * fval (v ! (x * b + y))) * FR q y)"
    by (rule fill_cells_correct[of r r "\<lambda>u q. mac_loop (\<lambda>y. nth_opt w (u * b + y)) (\<lambda>y. view_at fr q y) b"
          "\<lambda>u q. \<Sum>y<b. (\<Sum>x<b. EL x u * fval (v ! (x * b + y))) * FR q y"], rule evals_mac_loop)
       (use w(2) fr in \<open>auto simp: view_ok_def\<close>)
  have "evals (for_opt (\<lambda>t. for_opt (\<lambda>q scalar. do {
            acc \<leftarrow> mac_loop (\<lambda>u. view_at er u t) (\<lambda>u. nth_opt g (u * r + q)) r;
            mac (Some acc) (view_at fl t q) scalar
          }) 0 r) 0 b 0)
      (\<Sum>t<b. \<Sum>q<r. (\<Sum>u<r. ER u t * (\<Sum>y<b. (\<Sum>x<b. EL x u * fval (v ! (x * b + y))) * FR q y)) * FL t q)"
  proof (rule evals_for0, rule evals_for)
    fix t q acc assume t: "t < b" and q: "q < r" and acc: "felem acc"
    have inner: "evals (mac_loop (\<lambda>u. view_at er u t) (\<lambda>u. nth_opt g (u * r + q)) r)
        (\<Sum>u<r. ER u t * (\<Sum>y<b. (\<Sum>x<b. EL x u * fval (v ! (x * b + y))) * FR q y))"
      by (rule evals_mac_loop) (use t q er g(2) in \<open>auto simp: view_ok_def\<close>)
    show "evals (do {
            acc' \<leftarrow> mac_loop (\<lambda>u. view_at er u t) (\<lambda>u. nth_opt g (u * r + q)) r;
            mac (Some acc') (view_at fl t q) acc
          }) (fval acc + (\<Sum>u<r. ER u t * (\<Sum>y<b. (\<Sum>x<b. EL x u * fval (v ! (x * b + y))) * FR q y)) * FL t q)"
      by (rule evals_bind[OF inner], rule evals_mac[OF _ _ acc])
         (use fl t q in \<open>auto simp: view_ok_def intro: evalsI\<close>)
  qed
  then show ?thesis using w(1) g(1) by (simp add: CompressEfBlock_def s)
qed

text \<open>The same sums as compressions of the block products \<open>A * (FL * FR)\<close>, \<open>(EL * ER) * B\<close> and
  \<open>(EL * ER) * (FL * FR)\<close>.\<close>

lemma af_sum:
  "(\<Sum>t<b. \<Sum>u<r. FL t u * (\<Sum>x<b. A x t * (\<Sum>y<b. fval (v ! (x * b + y)) * FR u y))) =
    compress_sum b v (\<lambda>x y. \<Sum>t<b. A x t * (\<Sum>u<r. FL t u * FR u y))"
proof -
  let ?g = "\<lambda>t u x y. FL t u * A x t * fval (v ! (x * b + y)) * FR u y"
  have "(\<Sum>t<b. \<Sum>u<r. FL t u * (\<Sum>x<b. A x t * (\<Sum>y<b. fval (v ! (x * b + y)) * FR u y))) =
      (\<Sum>t<b. \<Sum>u<r. \<Sum>x<b. \<Sum>y<b. ?g t u x y)"
    by (simp add: sum_distrib_left mult.assoc)
  also have "\<dots> = (\<Sum>t<b. \<Sum>x<b. \<Sum>u<r. \<Sum>y<b. ?g t u x y)" by (intro sum.cong refl sum.swap)
  also have "\<dots> = (\<Sum>t<b. \<Sum>x<b. \<Sum>y<b. \<Sum>u<r. ?g t u x y)" by (intro sum.cong refl sum.swap)
  also have "\<dots> = (\<Sum>x<b. \<Sum>t<b. \<Sum>y<b. \<Sum>u<r. ?g t u x y)" by (rule sum.swap)
  also have "\<dots> = (\<Sum>x<b. \<Sum>y<b. \<Sum>t<b. \<Sum>u<r. ?g t u x y)" by (intro sum.cong refl sum.swap)
  also have "\<dots> = compress_sum b v (\<lambda>x y. \<Sum>t<b. A x t * (\<Sum>u<r. FL t u * FR u y))"
    by (simp add: compress_sum_def sum_distrib_left sum_distrib_right mult_ac)
  finally show ?thesis .
qed

lemma eb_sum:
  "(\<Sum>u<r. \<Sum>t<b. ER u t * (\<Sum>y<b. (\<Sum>x<b. EL x u * fval (v ! (x * b + y))) * B t y)) =
    compress_sum b v (\<lambda>x y. \<Sum>t<b. (\<Sum>u<r. EL x u * ER u t) * B t y)"
proof -
  let ?g = "\<lambda>u t y x. ER u t * EL x u * fval (v ! (x * b + y)) * B t y"
  have "(\<Sum>u<r. \<Sum>t<b. ER u t * (\<Sum>y<b. (\<Sum>x<b. EL x u * fval (v ! (x * b + y))) * B t y)) =
      (\<Sum>u<r. \<Sum>t<b. \<Sum>y<b. \<Sum>x<b. ?g u t y x)"
    by (simp add: sum_distrib_left sum_distrib_right mult.assoc)
  also have "\<dots> = (\<Sum>u<r. \<Sum>t<b. \<Sum>x<b. \<Sum>y<b. ?g u t y x)" by (intro sum.cong refl sum.swap)
  also have "\<dots> = (\<Sum>t<b. \<Sum>u<r. \<Sum>x<b. \<Sum>y<b. ?g u t y x)" by (rule sum.swap)
  also have "\<dots> = (\<Sum>t<b. \<Sum>x<b. \<Sum>u<r. \<Sum>y<b. ?g u t y x)" by (intro sum.cong refl sum.swap)
  also have "\<dots> = (\<Sum>t<b. \<Sum>x<b. \<Sum>y<b. \<Sum>u<r. ?g u t y x)" by (intro sum.cong refl sum.swap)
  also have "\<dots> = (\<Sum>x<b. \<Sum>t<b. \<Sum>y<b. \<Sum>u<r. ?g u t y x)" by (rule sum.swap)
  also have "\<dots> = (\<Sum>x<b. \<Sum>y<b. \<Sum>t<b. \<Sum>u<r. ?g u t y x)" by (intro sum.cong refl sum.swap)
  also have "\<dots> = compress_sum b v (\<lambda>x y. \<Sum>t<b. (\<Sum>u<r. EL x u * ER u t) * B t y)"
    by (simp add: compress_sum_def sum_distrib_left sum_distrib_right mult_ac)
  finally show ?thesis .
qed

lemma ef_sum:
  "(\<Sum>t<b. \<Sum>q<r. (\<Sum>u<r. ER u t * (\<Sum>y<b. (\<Sum>x<b. EL x u * fval (v ! (x * b + y))) * FR q y)) * FL t q) =
    compress_sum b v (\<lambda>x y. \<Sum>t<b. (\<Sum>u<r. EL x u * ER u t) * (\<Sum>q<r. FL t q * FR q y))"
proof -
  let ?F = "\<lambda>t y. \<Sum>q<r. FL t q * FR q y"
  define w where "w = (\<lambda>u y. \<Sum>x<b. EL x u * fval (v ! (x * b + y)))"
  have "(\<Sum>q<r. (\<Sum>u<r. ER u t * (\<Sum>y<b. w u y * FR q y)) * FL t q) =
      (\<Sum>u<r. ER u t * (\<Sum>y<b. w u y * ?F t y))" for t
  proof -
    have "(\<Sum>q<r. (\<Sum>u<r. ER u t * (\<Sum>y<b. w u y * FR q y)) * FL t q) =
        (\<Sum>q<r. \<Sum>u<r. \<Sum>y<b. ER u t * w u y * FL t q * FR q y)"
      by (simp add: sum_distrib_left sum_distrib_right mult_ac)
    also have "\<dots> = (\<Sum>u<r. \<Sum>q<r. \<Sum>y<b. ER u t * w u y * FL t q * FR q y)" by (rule sum.swap)
    also have "\<dots> = (\<Sum>u<r. \<Sum>y<b. \<Sum>q<r. ER u t * w u y * FL t q * FR q y)"
      by (intro sum.cong refl sum.swap)
    also have "\<dots> = (\<Sum>u<r. ER u t * (\<Sum>y<b. w u y * ?F t y))" by (simp add: sum_distrib_left mult_ac)
    finally show ?thesis .
  qed
  then have "(\<Sum>t<b. \<Sum>q<r. (\<Sum>u<r. ER u t * (\<Sum>y<b. w u y * FR q y)) * FL t q) =
      (\<Sum>t<b. \<Sum>u<r. ER u t * (\<Sum>y<b. w u y * ?F t y))" by simp
  also have "\<dots> = (\<Sum>u<r. \<Sum>t<b. ER u t * (\<Sum>y<b. w u y * ?F t y))" by (rule sum.swap)
  also have "\<dots> = compress_sum b v (\<lambda>x y. \<Sum>t<b. (\<Sum>u<r. EL x u * ER u t) * ?F t y)"
    unfolding w_def by (rule eb_sum)
  finally show ?thesis by (simp only: w_def)
qed

section \<open>Words of the transcript\<close>

text \<open>The reduced element that stands for a field value, and the value of a word: the compression of the
  product of \<open>A\<close> and \<open>B\<close> summed over the first \<open>ell + 1\<close> inner blocks.\<close>

definition enc :: "Z31 \<Rightarrow> Element" where
  "enc z = (THE x. felem x \<and> fval x = z)"

lemma enc_eq: "felem x \<Longrightarrow> fval x = z \<Longrightarrow> enc z = x"
  unfolding enc_def by (rule the_equality) (auto intro: fval_inj)

lemma evals_enc: "evals e z \<Longrightarrow> e = Some (enc z)"
  by (auto simp: evals_def enc_eq)

definition pblock :: "Matrix \<Rightarrow> Matrix \<Rightarrow> nat \<Rightarrow> nat \<Rightarrow> nat \<Rightarrow> nat \<Rightarrow> nat \<Rightarrow> nat \<Rightarrow> Z31" where
  "pblock A B b i j ell x y = (\<Sum>k<ell * b. mval A (i * b + x) k * mval B k (j * b + y))"

definition tword :: "Matrix \<Rightarrow> Matrix \<Rightarrow> nat \<Rightarrow> Element list \<Rightarrow> nat \<Rightarrow> nat \<Rightarrow> nat \<Rightarrow> Element" where
  "tword A B b v i j ell = enc (compress_sum b v (pblock A B b i j (Suc ell)))"

definition twords :: "Matrix \<Rightarrow> Matrix \<Rightarrow> nat \<Rightarrow> nat \<Rightarrow> Element list \<Rightarrow> Element list" where
  "twords A B b N v = concat (map (\<lambda>i. concat (map (\<lambda>j. map (tword A B b v i j) [0..<N]) [0..<N])) [0..<N])"

abbreviation feed :: "Element list \<Rightarrow> CSHA256 \<Rightarrow> CSHA256" where
  "feed ws h \<equiv> fold (\<lambda>w h. Write256 h (WriteLE32 w)) ws h"

section \<open>CanonicalMatMul\<close>

text \<open>How many inner indices block \<open>(p, q)\<close> has summed up before round \<open>(i, j, ell)\<close>.\<close>

definition summed :: "nat \<Rightarrow> nat \<Rightarrow> nat \<Rightarrow> nat \<Rightarrow> nat \<Rightarrow> nat \<Rightarrow> nat \<Rightarrow> nat" where
  "summed n b i j ell p q = (if p < i \<or> p = i \<and> q < j then n else if p = i \<and> q = j then ell * b else 0)"

definition canon_inv :: "Matrix \<Rightarrow> Matrix \<Rightarrow> nat \<Rightarrow> nat \<Rightarrow> Element list \<Rightarrow> nat \<Rightarrow> nat \<Rightarrow> nat \<Rightarrow> Element list \<Rightarrow>
    Matrix \<times> TranscriptHasher \<Rightarrow> bool" where
  "canon_inv A B n b v i j ell ws s \<longleftrightarrow> fmat n n (fst s) \<and>
     snd s = \<lparr>th_b = b, th_hasher = feed ws CSHA256_init, th_compress_vec = v\<rparr> \<and>
     (\<forall>x < n. \<forall>y < n. mval (fst s) x y =
        (\<Sum>k < summed n b i j ell (x div b) (y div b). mval A x k * mval B k y))"

lemma block_fits: "i < N \<Longrightarrow> Suc i * b \<le> N * (b::nat)"
  by (intro mult_le_mono1) simp

lemma block_div: "x < b \<Longrightarrow> (i * b + x) div b = (i::nat)"
  by simp

lemma block_div_iff: "0 < b \<Longrightarrow> x div b = i \<longleftrightarrow> i * b \<le> x \<and> x < i * b + (b::nat)"
  by (metis add.commute div_nat_eqI dividend_less_div_times mult.commute mult_Suc times_div_less_eq_dividend)

lemma AddIntermediate_correct:
  assumes m: "fmat b b m" and v: "vec_ok b v" and fb: "dot_fits neon b"
  shows "AddIntermediate neon m \<lparr>th_b = b, th_hasher = h, th_compress_vec = v\<rparr> =
    Some \<lparr>th_b = b, th_hasher = Write256 h (WriteLE32 (enc (compress_sum b v (mval m)))), th_compress_vec = v\<rparr>"
proof -
  let ?w = "\<lparr>v_data = m_data m, v_rows = m_rows m, v_cols = m_cols m, v_stride = m_cols m\<rparr>"
  have s: "m_rows m = b" "m_cols m = b" "length (m_data m) = b * b" "felems (m_data m)"
    using m by (auto simp: fmat_def wf_mat_def)
  have "view_ok ?w b b (mval m)"
    using s by (auto simp: view_ok_def view_at_def mval_def ment_def idx_less intro!: evalsI felems_nth)
  from evals_enc[OF CompressBlock_view_correct[OF this v fb]] show ?thesis
    by (simp add: AddIntermediate_def AddIntermediate_view_def s)
qed

lemma pblock_Suc:
  "pblock A B b i j (Suc ell) x y = pblock A B b i j ell x y +
    (\<Sum>k<b. mval A (i * b + x) (ell * b + k) * mval B (ell * b + k) (j * b + y))"
  unfolding pblock_def
  using sum_lessThan_add[of "\<lambda>k. mval A (i * b + x) k * mval B k (j * b + y)" "ell * b" b] by (simp add: add.commute)

lemma block_product:
  assumes A: "fmat n n A" and B: "fmat n n B" and n: "n = N * b" and b: "0 < b" and ij: "i < N" "j < N" "ell < N"
    and fb: "dot_fits neon b"
  obtains x y p where "matrix_block A i ell b = Some x" "matrix_block B ell j b = Some y"
    "matrix_mul neon x y = Some p" "fmat b b p"
    "\<And>r c. r < b \<Longrightarrow> c < b \<Longrightarrow> mval p r c =
       (\<Sum>k<b. mval A (i * b + r) (ell * b + k) * mval B (ell * b + k) (j * b + c))"
proof -
  note fits = block_fits[of _ N b, folded n]
  obtain x where x: "matrix_block A i ell b = Some x" "fmat b b x"
    "\<And>r c. r < b \<Longrightarrow> c < b \<Longrightarrow> mval x r c = mval A (i * b + r) (ell * b + c)"
    by (rule matrix_block_fmat[OF A b fits[OF ij(1)] fits[OF ij(3)]]) blast
  obtain y where y: "matrix_block B ell j b = Some y" "fmat b b y"
    "\<And>r c. r < b \<Longrightarrow> c < b \<Longrightarrow> mval y r c = mval B (ell * b + r) (j * b + c)"
    by (rule matrix_block_fmat[OF B b fits[OF ij(3)] fits[OF ij(2)]]) blast
  obtain p where p: "matrix_mul neon x y = Some p" "fmat b b p"
    "\<And>r c. r < b \<Longrightarrow> c < b \<Longrightarrow> mval p r c = mprod b x y r c"
    by (rule matrix_mul_correct[OF x(2) y(2) fb]) blast
  show thesis by (rule that[OF x(1) y(1) p(1,2)]) (simp add: p(3) mprod_def x(3) y(3))
qed

lemma canonical_step_inv:
  assumes A: "fmat n n A" and B: "fmat n n B" and n: "n = N * b" and b: "0 < b" and ij: "i < N" "j < N" "ell < N"
    and v: "vec_ok b v" and fb: "dot_fits neon b" and I: "canon_inv A B n b v i j ell ws s"
  shows "\<exists>t. canonical_step neon A B b i j ell s = Some t \<and>
    canon_inv A B n b v i j (Suc ell) (ws @ [tword A B b v i j ell]) t"
proof -
  obtain C th where s: "s = (C, th)" by (cases s)
  have C: "fmat n n C" and th: "th = \<lparr>th_b = b, th_hasher = feed ws CSHA256_init, th_compress_vec = v\<rparr>"
    and ent: "\<And>x y. x < n \<Longrightarrow> y < n \<Longrightarrow> mval C x y =
      (\<Sum>k < summed n b i j ell (x div b) (y div b). mval A x k * mval B k y)"
    using I by (auto simp: canon_inv_def s)
  note fits = block_fits[of _ N b, folded n]
  have in_n: "p * b + x < n" if "p < N" "x < b" for p x using idx_less[OF that] n by simp
  obtain x y p where xyp: "matrix_block A i ell b = Some x" "matrix_block B ell j b = Some y"
    "matrix_mul neon x y = Some p" "fmat b b p"
    "\<And>r c. r < b \<Longrightarrow> c < b \<Longrightarrow> mval p r c =
       (\<Sum>k<b. mval A (i * b + r) (ell * b + k) * mval B (ell * b + k) (j * b + c))"
    by (rule block_product[OF A B n b ij fb]) blast
  obtain c0 where c0: "matrix_block C i j b = Some c0" "fmat b b c0"
    "\<And>r c. r < b \<Longrightarrow> c < b \<Longrightarrow> mval c0 r c = mval C (i * b + r) (j * b + c)"
    by (rule matrix_block_fmat[OF C b fits[OF ij(1)] fits[OF ij(2)]]) blast
  obtain c1 where c1: "matrix_add c0 p = Some c1" "fmat b b c1"
    "\<And>r c. r < b \<Longrightarrow> c < b \<Longrightarrow> mval c1 r c = mval c0 r c + mval p r c"
    by (rule matrix_add_correct[OF c0(2) xyp(4)]) blast
  have sum: "mval c1 r c = pblock A B b i j (Suc ell) r c" if "r < b" "c < b" for r c
  proof -
    have "mval C (i * b + r) (j * b + c) = pblock A B b i j ell r c"
      using that in_n[OF ij(1) that(1)] in_n[OF ij(2) that(2)] by (simp add: ent summed_def pblock_def)
    then show ?thesis using that by (simp add: c1(3) c0(3) xyp(5) pblock_Suc)
  qed
  obtain C' where C': "matrix_set_block C i j b c1 = Some C'" "shape n n C'"
    "\<And>x y. x < n \<Longrightarrow> y < n \<Longrightarrow> ment C' x y =
       (if i * b \<le> x \<and> x < i * b + b \<and> j * b \<le> y \<and> y < j * b + b
        then ment c1 (x - i * b) (y - j * b) else ment C x y)"
    by (rule matrix_set_block_correct[OF fmat_shape[OF C] fmat_shape[OF c1(2)] fits[OF ij(1)] fits[OF ij(2)] b]) blast
  have sub: "x - p * b < b" if "x < p * b + b" for x p using that b by linarith
  have "fmat n n C'" using C'(2,3) C c1(2) sub by (auto simp: fmat_iff)
  moreover have "mval C' x y = (\<Sum>k < summed n b i j (Suc ell) (x div b) (y div b). mval A x k * mval B k y)"
    if xy: "x < n" "y < n" for x y
  proof (cases "x div b = i \<and> y div b = j")
    case True
    then have blk: "i * b \<le> x" "x < i * b + b" "j * b \<le> y" "y < j * b + b" using block_div_iff[OF b] by auto
    then have "mval C' x y = mval c1 (x - i * b) (y - j * b)" using C'(3)[OF xy] by (simp add: mval_def)
    also have "\<dots> = (\<Sum>k<Suc ell * b. mval A x k * mval B k y)"
      using sum[OF sub[OF blk(2)] sub[OF blk(4)]] blk by (simp add: pblock_def)
    finally show ?thesis using True by (simp add: summed_def)
  next
    case False
    then have "\<not> (i * b \<le> x \<and> x < i * b + b \<and> j * b \<le> y \<and> y < j * b + b)" using block_div_iff[OF b] by blast
    then have "mval C' x y = mval C x y" using C'(3)[OF xy] by (simp only: mval_def if_False)
    then show ?thesis using ent[OF xy] False by (auto simp: summed_def)
  qed
  moreover have "compress_sum b v (mval c1) = compress_sum b v (pblock A B b i j (Suc ell))"
    unfolding compress_sum_def by (intro sum.cong refl) (simp add: sum)
  then have "AddIntermediate neon c1 th = Some \<lparr>th_b = b,
      th_hasher = feed (ws @ [tword A B b v i j ell]) CSHA256_init, th_compress_vec = v\<rparr>"
    by (simp add: th AddIntermediate_correct[OF c1(2) v fb] tword_def)
  ultimately show ?thesis
    by (simp add: canonical_step_def s xyp(1-3) c0(1) c1(1) C'(1) canon_inv_def)
qed

lemma canon_inv_cong:
  assumes "canon_inv A B n b v i j ell ws s" "0 < b" "n = N * b"
    and "\<And>p q. p < N \<Longrightarrow> q < N \<Longrightarrow> summed n b i j ell p q = summed n b i' j' ell' p q"
  shows "canon_inv A B n b v i' j' ell' ws s"
proof -
  have "x div b < N" if "x < n" for x using that assms(2,3) by (simp add: less_mult_imp_div_less)
  then show ?thesis using assms(1,4) by (simp add: canon_inv_def)
qed

lemma canonical_inner:
  assumes A: "fmat n n A" and B: "fmat n n B" and n: "n = N * b" and b: "0 < b" and ij: "i < N" "j < N"
    and v: "vec_ok b v" and fb: "dot_fits neon b" and I: "canon_inv A B n b v i j 0 ws s"
  shows "\<exists>t. for_opt (\<lambda>ell. canonical_step neon A B b i j ell) 0 N s = Some t \<and>
    canon_inv A B n b v i (Suc j) 0 (ws @ map (tword A B b v i j) [0..<N]) t"
proof -
  have "\<exists>t. for_opt (\<lambda>ell. canonical_step neon A B b i j ell) 0 N s = Some t \<and>
      canon_inv A B n b v i j (0 + N) (ws @ map (tword A B b v i j) [0..<0 + N]) t"
  proof (rule for_opt_rule)
    fix ell t assume "ell < 0 + N" "canon_inv A B n b v i j ell (ws @ map (tword A B b v i j) [0..<ell]) t"
    then show "\<exists>u. canonical_step neon A B b i j ell t = Some u \<and>
        canon_inv A B n b v i j (Suc ell) (ws @ map (tword A B b v i j) [0..<Suc ell]) u"
      using canonical_step_inv[OF A B n b ij _ v fb, of ell "ws @ map (tword A B b v i j) [0..<ell]" t] by simp
  qed (use I in simp)
  then obtain t where t: "for_opt (\<lambda>ell. canonical_step neon A B b i j ell) 0 N s = Some t"
    "canon_inv A B n b v i j N (ws @ map (tword A B b v i j) [0..<N]) t" by auto
  have "canon_inv A B n b v i (Suc j) 0 (ws @ map (tword A B b v i j) [0..<N]) t"
    by (rule canon_inv_cong[OF t(2) b n]) (auto simp: summed_def n less_Suc_eq)
  with t(1) show ?thesis by blast
qed

lemma canonical_middle:
  assumes A: "fmat n n A" and B: "fmat n n B" and n: "n = N * b" and b: "0 < b" and i: "i < N"
    and v: "vec_ok b v" and fb: "dot_fits neon b" and I: "canon_inv A B n b v i 0 0 ws s"
  shows "\<exists>t. for_opt (\<lambda>j. for_opt (\<lambda>ell. canonical_step neon A B b i j ell) 0 N) 0 N s = Some t \<and>
    canon_inv A B n b v (Suc i) 0 0 (ws @ concat (map (\<lambda>j. map (tword A B b v i j) [0..<N]) [0..<N])) t"
proof -
  let ?W = "\<lambda>k. concat (map (\<lambda>j. map (tword A B b v i j) [0..<N]) [0..<k])"
  have "\<exists>t. for_opt (\<lambda>j. for_opt (\<lambda>ell. canonical_step neon A B b i j ell) 0 N) 0 N s = Some t \<and>
      canon_inv A B n b v i (0 + N) 0 (ws @ ?W (0 + N)) t"
  proof (rule for_opt_rule)
    fix j t assume "j < 0 + N" "canon_inv A B n b v i j 0 (ws @ ?W j) t"
    then show "\<exists>u. for_opt (\<lambda>ell. canonical_step neon A B b i j ell) 0 N t = Some u \<and>
        canon_inv A B n b v i (Suc j) 0 (ws @ ?W (Suc j)) u"
      using canonical_inner[OF A B n b i _ v fb, of j "ws @ ?W j" t] by simp
  qed (use I in simp)
  then obtain t where t: "for_opt (\<lambda>j. for_opt (\<lambda>ell. canonical_step neon A B b i j ell) 0 N) 0 N s = Some t"
    "canon_inv A B n b v i N 0 (ws @ ?W N) t" by auto
  have "canon_inv A B n b v (Suc i) 0 0 (ws @ ?W N) t"
    by (rule canon_inv_cong[OF t(2) b n]) (auto simp: summed_def less_Suc_eq)
  with t(1) show ?thesis by blast
qed

lemma CanonicalMatMul_correct:
  assumes A: "fmat n n A" and B: "fmat n n B" and n: "n = N * b" and b: "0 < b"
    and v: "DeriveCompressionVector sigma b = Some v" and fb: "0 < N \<Longrightarrow> dot_fits neon b"
  obtains C where "CanonicalMatMul neon A B b sigma = Some (C, SHA256 (SHA256 (concat (map WriteLE32 (twords A B b N v)))))"
    "fmat n n C" "dot_fits neon n \<Longrightarrow> matrix_mul neon A B = Some C"
proof -
  have s: "m_rows A = n" "m_cols A = n" "m_rows B = n" "m_cols B = n" "n < 2 ^ 32"
    using A B by (auto simp: fmat_def wf_mat_def)
  have vok: "vec_ok b v" using DeriveCompressionVector_ok[OF b, of sigma] v by auto
  let ?W = "\<lambda>k. concat (map (\<lambda>i. concat (map (\<lambda>j. map (tword A B b v i j) [0..<N]) [0..<N])) [0..<k])"
  let ?loop = "\<lambda>i. for_opt (\<lambda>j. for_opt (\<lambda>ell. canonical_step neon A B b i j ell) 0 N) 0 N"
  let ?th = "\<lambda>h. \<lparr>th_b = b, th_hasher = h, th_compress_vec = v\<rparr>"
  have "\<exists>t. for_opt ?loop 0 N (matrix_new n n, ?th CSHA256_init) = Some t \<and> canon_inv A B n b v (0 + N) 0 0 (?W (0 + N)) t"
  proof (rule for_opt_rule)
    show "canon_inv A B n b v 0 0 0 (?W 0) (matrix_new n n, ?th CSHA256_init)"
      using s(5) by (auto simp: canon_inv_def summed_def fmat_iff matrix_new_shape ment_new mval_def)
    fix i t assume "i < 0 + N" "canon_inv A B n b v i 0 0 (?W i) t"
    then show "\<exists>u. ?loop i t = Some u \<and> canon_inv A B n b v (Suc i) 0 0 (?W (Suc i)) u"
      using canonical_middle[OF A B n b _ vok fb, of i "?W i" t] by simp
  qed
  then obtain C where C: "for_opt ?loop 0 N (matrix_new n n, ?th CSHA256_init) = Some (C, ?th (feed (twords A B b N v) CSHA256_init))"
    "fmat n n C" "\<And>x y. x < n \<Longrightarrow> y < n \<Longrightarrow> mval C x y = (\<Sum>k < summed n b N 0 0 (x div b) (y div b). mval A x k * mval B k y)"
    by (auto simp: canon_inv_def twords_def)
  have "matrix_mul neon A B = Some C" if fits: "dot_fits neon n"
  proof -
    obtain P where P: "matrix_mul neon A B = Some P" "fmat n n P"
      "\<And>x y. x < n \<Longrightarrow> y < n \<Longrightarrow> mval P x y = mprod n A B x y"
      by (rule matrix_mul_correct[OF A B fits]) blast
    have "x div b < N" if "x < n" for x using that b n by (simp add: less_mult_imp_div_less)
    then have "C = P" by (intro fmat_eqI[OF C(2) P(2)]) (simp add: C(3) P(3) summed_def mprod_def)
    with P(1) show ?thesis by simp
  qed
  moreover have "square_blocks A B b" "n div b = N" using s b n by (simp_all add: square_blocks_def)
  then have "CanonicalMatMul neon A B b sigma = Some (C, TranscriptHasher_Finalize (?th (feed (twords A B b N v) CSHA256_init)))"
    using C(1) v by (simp add: CanonicalMatMul_def TranscriptHasher_new_def s Let_def)
  moreover have "TranscriptHasher_Finalize (?th (feed (twords A B b N v) CSHA256_init)) =
      SHA256 (SHA256 (concat (map WriteLE32 (twords A B b N v))))"
    using csha.final_writes[of "map WriteLE32 (twords A B b N v)"] csha.final_write1
    by (simp add: TranscriptHasher_Finalize_def Let_def fold_map comp_def)
  ultimately show thesis using that C(2) by simp
qed

section \<open>Replay with reusable clean products\<close>

lemma for_append:
  assumes "\<And>k out. k < n \<Longrightarrow> f k out = Some (out @ W k)"
  shows "for_opt f 0 n out = Some (out @ concat (map W [0..<n]))"
proof -
  have "\<exists>t. for_opt f 0 n out = Some t \<and> t = out @ concat (map W [0..<0 + n])"
    by (rule for_opt_rule) (use assms in auto)
  then show ?thesis by simp
qed

lemma concat_uniform:
  assumes "\<And>i. i < n \<Longrightarrow> length (f i) = c"
  shows "length (concat (map f [0..<n])) = n * c"
    and "\<And>i k. i < n \<Longrightarrow> k < c \<Longrightarrow> concat (map f [0..<n]) ! (i * c + k) = f i ! k"
proof -
  have len: "m \<le> n \<Longrightarrow> length (concat (map f [0..<m])) = m * c" for m
    by (induction m) (simp_all add: assms)
  then show "length (concat (map f [0..<n])) = n * c" by simp
  show "concat (map f [0..<n]) ! (i * c + k) = f i ! k" if "i < n" "k < c" for i k
  proof -
    have split: "[0..<n] = [0..<i] @ i # [Suc i..<n]"
      using that(1) by (metis less_imp_le_nat upt_add_eq_append le_add_diff_inverse upt_conv_Cons le0)
    have "concat (map f [0..<n]) ! (i * c + k) = (f i @ concat (map f [Suc i..<n])) ! k"
      using len[of i] that(1) unfolding split by (simp add: nth_append)
    then show ?thesis using that assms by (simp add: nth_append)
  qed
qed

lemma Precompute_correct:
  assumes A: "fmat n n A" and B: "fmat n n B" and n: "n = N * b" and b: "0 < b" and fb: "dot_fits neon b"
  obtains ps where "PrecomputeCleanBlockProducts neon A B b = Some ps" "length ps = N * N * N"
    "\<And>i j ell. i < N \<Longrightarrow> j < N \<Longrightarrow> ell < N \<Longrightarrow> \<exists>p. nth_opt ps (BlockProductIndex i j ell N) = Some p \<and> fmat b b p \<and>
       (\<forall>r < b. \<forall>c < b. mval p r c = (\<Sum>k<b. mval A (i * b + r) (ell * b + k) * mval B (ell * b + k) (j * b + c)))"
proof -
  have s: "m_rows A = n" "m_cols A = n" "m_rows B = n" "m_cols B = n" using A B by (auto simp: fmat_def)
  define p where "p = (\<lambda>i j ell. the (do { x \<leftarrow> matrix_block A i ell b; y \<leftarrow> matrix_block B ell j b; matrix_mul neon x y }))"
  let ?f = "\<lambda>i j ell out. do { x \<leftarrow> matrix_block A i ell b; y \<leftarrow> matrix_block B ell j b; q \<leftarrow> matrix_mul neon x y; Some (out @ [q]) }"
  have p: "?f i j ell out = Some (out @ [p i j ell]) \<and> fmat b b (p i j ell) \<and>
      (\<forall>r < b. \<forall>c < b. mval (p i j ell) r c = (\<Sum>k<b. mval A (i * b + r) (ell * b + k) * mval B (ell * b + k) (j * b + c)))"
    if "i < N" "j < N" "ell < N" for i j ell out
    by (rule block_product[OF A B n b that fb]) (simp add: p_def)
  define L1 where "L1 = (\<lambda>i j. concat (map (\<lambda>ell. [p i j ell]) [0..<N]))"
  define L2 where "L2 = (\<lambda>i. concat (map (L1 i) [0..<N]))"
  have l1: "length (L1 i j) = N" for i j
    using concat_uniform(1)[of N "\<lambda>ell. [p i j ell]" 1] by (simp add: L1_def)
  have l2: "length (L2 i) = N * N" for i using concat_uniform(1)[of N "L1 i" N] l1 by (simp add: L2_def)
  let ?ps = "concat (map L2 [0..<N])"
  have "for_opt (\<lambda>i. for_opt (\<lambda>j. for_opt (?f i j) 0 N) 0 N) 0 N [] = Some ([] @ ?ps)"
    unfolding L2_def L1_def by (intro for_append) (use p in simp)
  moreover have "square_blocks A B b" "n div b = N" using s b n by (simp_all add: square_blocks_def)
  ultimately have P: "PrecomputeCleanBlockProducts neon A B b = Some ?ps"
    by (simp add: PrecomputeCleanBlockProducts_def s Let_def)
  have len: "length ?ps = N * N * N" using concat_uniform(1)[of N L2 "N * N"] l2 by (simp add: mult.assoc)
  have nth: "nth_opt ?ps (BlockProductIndex i j ell N) = Some (p i j ell)" if "i < N" "j < N" "ell < N" for i j ell
  proof -
    have ix: "BlockProductIndex i j ell N = i * (N * N) + (j * N + ell)"
      by (simp add: BlockProductIndex_def algebra_simps)
    have lt: "j * N + ell < N * N" by (rule idx_less[OF that(2,3)])
    have "?ps ! (i * (N * N) + (j * N + ell)) = L2 i ! (j * N + ell)"
      by (rule concat_uniform(2)[of N L2 "N * N"]) (use l2 that lt in auto)
    also have "\<dots> = L1 i j ! ell" unfolding L2_def
      by (rule concat_uniform(2)[of N "L1 i" N]) (use l1 that in auto)
    also have "\<dots> = p i j ell"
      using concat_uniform(2)[of N "\<lambda>ell. [p i j ell]" 1 ell 0] that by (simp add: L1_def)
    finally show ?thesis using idx_less[OF that(1) lt] len by (simp add: ix mult.assoc nth_opt_def)
  qed
  show thesis by (rule that[OF P len]) (use nth p in blast)
qed

lemma compress_sum_add: "compress_sum b v X + compress_sum b v Y = compress_sum b v (\<lambda>x y. X x y + Y x y)"
  by (simp add: compress_sum_def sum.distrib distrib_right)

lemma nth_opt_drop: "d + k = i \<Longrightarrow> i < length xs \<Longrightarrow> nth_opt (drop d xs) k = Some (xs ! i)"
  by (auto simp: nth_opt_def)

lemma view_ok_block:
  assumes A: "fmat n n A" and n: "n = N * b" and b: "0 < b" and ij: "i < N" "j < N"
  obtains w where "matrix_block_view A i j b = Some w" "view_ok w b b (\<lambda>x y. mval A (i * b + x) (j * b + y))"
proof -
  note fits = block_fits[of _ N b, folded n]
  obtain w where w: "matrix_block_view A i j b = Some w" "v_rows w = b" "v_cols w = b"
    "v_data w = drop (i * b * n + j * b) (m_data A)"
    "\<And>x y. x < b \<Longrightarrow> y < b \<Longrightarrow> view_at w x y = Some (ment A (i * b + x) (j * b + y))"
    by (rule matrix_block_view_correct[OF fmat_shape[OF A] b fits[OF ij(1)] fits[OF ij(2)]]) blast
  have "felem (ment A (i * b + x) (j * b + y))" if "x < b" "y < b" for x y
    using A idx_less[OF ij(1) that(1)] idx_less[OF ij(2) that(2)] n by (simp add: fmat_iff)
  moreover have "felems (v_data w)" using A by (simp add: w(4) fmat_def felems_drop)
  ultimately have "view_ok w b b (\<lambda>x y. mval A (i * b + x) (j * b + y))"
    by (auto simp: view_ok_def w(2,3,5) mval_def intro!: evalsI)
  with w(1) show thesis by (rule that)
qed

lemma view_ok_rows:
  assumes m: "fmat n r m" and n: "n = N * b" and i: "i < N"
  shows "view_ok (RowBlockAllCols m i b) b r (\<lambda>x u. mval m (i * b + x) u)"
proof -
  have s: "m_cols m = r" "length (m_data m) = n * r" "felems (m_data m)" using m by (auto simp: fmat_def wf_mat_def)
  have "view_at (RowBlockAllCols m i b) x u = Some (ment m (i * b + x) u) \<and> felem (ment m (i * b + x) u)"
    if "x < b" "u < r" for x u
  proof -
    have x: "i * b + x < n" using idx_less[OF i that(1)] n by simp
    have "nth_opt (drop (i * b * r) (m_data m)) (x * r + u) = Some (m_data m ! ((i * b + x) * r + u))"
      by (rule nth_opt_drop) (use idx_less[OF x that(2)] s in \<open>simp_all add: algebra_simps\<close>)
    then show ?thesis using m x that s by (simp add: view_at_def RowBlockAllCols_def ment_def fmat_iff)
  qed
  then show ?thesis using s by (auto simp: view_ok_def RowBlockAllCols_def felems_drop mval_def intro!: evalsI)
qed

lemma view_ok_cols:
  assumes m: "fmat r n m" and n: "n = N * b" and j: "j < N"
  shows "view_ok (AllRowsColBlock m j b) r b (\<lambda>u y. mval m u (j * b + y))"
proof -
  have s: "m_cols m = n" "m_rows m = r" "length (m_data m) = r * n" "felems (m_data m)"
    using m by (auto simp: fmat_def wf_mat_def)
  have "view_at (AllRowsColBlock m j b) u y = Some (ment m u (j * b + y)) \<and> felem (ment m u (j * b + y))"
    if "u < r" "y < b" for u y
  proof -
    have y: "j * b + y < n" using idx_less[OF j that(2)] n by simp
    have "nth_opt (drop (j * b) (m_data m)) (u * n + y) = Some (m_data m ! (u * n + (j * b + y)))"
      by (rule nth_opt_drop) (use idx_less[OF that(1) y] s in simp_all)
    then show ?thesis using m y that s by (simp add: view_at_def AllRowsColBlock_def ment_def fmat_iff)
  qed
  then show ?thesis using s by (auto simp: view_ok_def AllRowsColBlock_def felems_drop mval_def intro!: evalsI)
qed

text \<open>The matrices \<open>A + E_L * E_R\<close> and \<open>B + F_L * F_R\<close> entry by entry.\<close>

definition perturbed :: "nat \<Rightarrow> nat \<Rightarrow> Matrix \<Rightarrow> Matrix \<Rightarrow> Matrix \<Rightarrow> Matrix \<Rightarrow> bool" where
  "perturbed n r A L R A' \<longleftrightarrow> fmat n n A' \<and> (\<forall>x < n. \<forall>y < n. mval A' x y = mval A x y + (\<Sum>u<r. mval L x u * mval R u y))"

lemma perturbed_product:
  assumes A': "perturbed n r A EL ER A'" and B': "perturbed n r B FL FR B'" and n: "n = N * b"
    and ij: "i < N" "j < N" "ell < N" and xy: "x < b" "y < b"
  shows "(\<Sum>k<b. mval A' (i * b + x) (ell * b + k) * mval B' (ell * b + k) (j * b + y)) =
    (\<Sum>k<b. mval A (i * b + x) (ell * b + k) * mval B (ell * b + k) (j * b + y)) +
    ((\<Sum>k<b. mval A (i * b + x) (ell * b + k) * (\<Sum>u<r. mval FL (ell * b + k) u * mval FR u (j * b + y))) +
    ((\<Sum>k<b. (\<Sum>u<r. mval EL (i * b + x) u * mval ER u (ell * b + k)) * mval B (ell * b + k) (j * b + y)) +
     (\<Sum>k<b. (\<Sum>u<r. mval EL (i * b + x) u * mval ER u (ell * b + k)) *
        (\<Sum>q<r. mval FL (ell * b + k) q * mval FR q (j * b + y)))))"
proof -
  have in_n: "p * b + z < n" if "p < N" "z < b" for p z using idx_less[OF that] n by simp
  show ?thesis
    unfolding sum.distrib[symmetric]
    by (rule sum.cong) (use A' B' in_n ij xy in \<open>simp_all add: perturbed_def distrib_left distrib_right\<close>)
qed

lemma replay_step_correct:
  assumes A: "fmat n n A" and B: "fmat n n B" and np: "wf_noise n r noise" and n: "n = N * b" and b: "0 < b"
    and A': "perturbed n r A (E_L noise) (E_R noise) A'" and B': "perturbed n r B (F_L noise) (F_R noise) B'"
    and bb: "b * b < 2 ^ 32" and v: "vec_ok b v" and ij: "i < N" "j < N" "ell < N"
    and clean: "\<And>i j ell. i < N \<Longrightarrow> j < N \<Longrightarrow> ell < N \<Longrightarrow> \<exists>p. nth_opt ps (BlockProductIndex i j ell N) = Some p \<and> fmat b b p \<and>
       (\<forall>r < b. \<forall>c < b. mval p r c = (\<Sum>k<b. mval A (i * b + r) (ell * b + k) * mval B (ell * b + k) (j * b + c)))"
    and prefix: "felem acc" "fval acc = compress_sum b v (pblock A' B' b i j ell)"
  shows "\<exists>acc'. replay_step neon A B ps noise b N v i j ell (acc, h) = Some (acc', Write256 h (WriteLE32 (tword A' B' b v i j ell))) \<and>
    felem acc' \<and> fval acc' = compress_sum b v (pblock A' B' b i j (Suc ell))"
proof -
  have f: "fmat n r (E_L noise)" "fmat r n (E_R noise)" "fmat n r (F_L noise)" "fmat r n (F_R noise)"
    using np by (auto simp: wf_noise_def)
  obtain p where p: "nth_opt ps (BlockProductIndex i j ell N) = Some p" "fmat b b p"
    "\<And>r c. r < b \<Longrightarrow> c < b \<Longrightarrow> mval p r c = (\<Sum>k<b. mval A (i * b + r) (ell * b + k) * mval B (ell * b + k) (j * b + c))"
    using clean[OF ij] by blast
  obtain a where a: "matrix_block_view A i ell b = Some a" "view_ok a b b (\<lambda>x y. mval A (i * b + x) (ell * b + y))"
    by (rule view_ok_block[OF A n b ij(1,3)])
  obtain c where c: "matrix_block_view B ell j b = Some c" "view_ok c b b (\<lambda>x y. mval B (ell * b + x) (j * b + y))"
    by (rule view_ok_block[OF B n b ij(3,2)])
  note el = view_ok_rows[OF f(1) n ij(1)] and er = view_ok_cols[OF f(2) n ij(3)]
    and fl = view_ok_rows[OF f(3) n ij(3)] and fr = view_ok_cols[OF f(4) n ij(2)]
  obtain c0 where c0: "CompressBlock neon p v = Some c0" "felem c0" "fval c0 = compress_sum b v (mval p)"
    by (rule evalsE[OF CompressBlock_correct[OF p(2) v bb]])
  obtain c1 where c1: "CompressAfBlock a (RowBlockAllCols (F_L noise) ell b) (AllRowsColBlock (F_R noise) j b) v = Some c1"
    "felem c1" "fval c1 = compress_sum b v (\<lambda>x y. \<Sum>t<b. mval A (i * b + x) (ell * b + t) *
      (\<Sum>u<r. mval (F_L noise) (ell * b + t) u * mval (F_R noise) u (j * b + y)))"
    by (rule evalsE[OF CompressAfBlock_correct[OF a(2) fl fr v, unfolded af_sum]])
  obtain c2 where c2: "CompressEbBlock (RowBlockAllCols (E_L noise) i b) (AllRowsColBlock (E_R noise) ell b) c v = Some c2"
    "felem c2" "fval c2 = compress_sum b v (\<lambda>x y. \<Sum>t<b. (\<Sum>u<r. mval (E_L noise) (i * b + x) u * mval (E_R noise) u (ell * b + t)) *
      mval B (ell * b + t) (j * b + y))"
    by (rule evalsE[OF CompressEbBlock_correct[OF el er c(2) v, unfolded eb_sum]])
  obtain c3 where c3: "CompressEfBlock (RowBlockAllCols (E_L noise) i b) (AllRowsColBlock (E_R noise) ell b)
      (RowBlockAllCols (F_L noise) ell b) (AllRowsColBlock (F_R noise) j b) v = Some c3"
    "felem c3" "fval c3 = compress_sum b v (\<lambda>x y. \<Sum>t<b. (\<Sum>u<r. mval (E_L noise) (i * b + x) u * mval (E_R noise) u (ell * b + t)) *
      (\<Sum>q<r. mval (F_L noise) (ell * b + t) q * mval (F_R noise) q (j * b + y)))"
    by (rule evalsE[OF CompressEfBlock_correct[OF el er fl fr v, unfolded ef_sum]])
  obtain s1 where s1: "field_add c2 c3 = Some s1" "fval s1 = fval c2 + fval c3" "felem s1" by (rule field_add_fval[OF c2(2) c3(2)])
  obtain s2 where s2: "field_add c1 s1 = Some s2" "fval s2 = fval c1 + fval s1" "felem s2" by (rule field_add_fval[OF c1(2) s1(3)])
  obtain s3 where s3: "field_add c0 s2 = Some s3" "fval s3 = fval c0 + fval s2" "felem s3" by (rule field_add_fval[OF c0(2) s2(3)])
  obtain s4 where s4: "field_add acc s3 = Some s4" "fval s4 = fval acc + fval s3" "felem s4" by (rule field_add_fval[OF prefix(1) s3(3)])
  have val: "fval s4 = compress_sum b v (pblock A' B' b i j (Suc ell))"
    unfolding s4(2) s3(2) s2(2) s1(2) c0(3) c1(3) c2(3) c3(3) prefix(2) compress_sum_add
    unfolding compress_sum_def
    by (intro sum.cong refl) (simp add: pblock_Suc p(3) perturbed_product[OF A' B' n ij])
  then have "enc (compress_sum b v (pblock A' B' b i j (Suc ell))) = s4" by (rule enc_eq[OF s4(3)])
  then show ?thesis
    using val s4(3) by (simp add: replay_step_def p(1) c0(1) a(1) c(1) c1(1) c2(1) c3(1) s1(1) s2(1) s3(1) s4(1) tword_def)
qed

lemma feed_append: "feed ys (feed xs h) = feed (xs @ ys) h"
  by simp

lemma for_feed_words:
  assumes "\<And>k h. k < n \<Longrightarrow> f k h = Some (feed (W k) h)"
  shows "for_opt f 0 n h = Some (feed (concat (map W [0..<n])) h)"
proof -
  have "\<exists>t. for_opt f 0 n h = Some t \<and> t = feed (concat (map W [0..<0 + n])) h"
    by (rule for_opt_rule) (use assms in auto)
  then show ?thesis by simp
qed

lemma Replay_correct:
  assumes A: "fmat n n A" and B: "fmat n n B" and np: "wf_noise n r noise" and n: "n = N * b" and b: "0 < b"
    and A': "perturbed n r A (E_L noise) (E_R noise) A'" and B': "perturbed n r B (F_L noise) (F_R noise) B'"
    and bb: "b * b < 2 ^ 32" and v: "DeriveCompressionVector sigma b = Some v" and len: "length ps = N * N * N"
    and clean: "\<And>i j ell. i < N \<Longrightarrow> j < N \<Longrightarrow> ell < N \<Longrightarrow> \<exists>p. nth_opt ps (BlockProductIndex i j ell N) = Some p \<and> fmat b b p \<and>
       (\<forall>r < b. \<forall>c < b. mval p r c = (\<Sum>k<b. mval A (i * b + r) (ell * b + k) * mval B (ell * b + k) (j * b + c)))"
  shows "ReplayCanonicalHashWithReusableCleanProducts neon A B ps noise b sigma =
    Some (SHA256 (SHA256 (concat (map WriteLE32 (twords A' B' b N v)))))"
proof -
  have vok: "vec_ok b v" using DeriveCompressionVector_ok[OF b, of sigma] v by auto
  let ?step = "\<lambda>i j ell. replay_step neon A B ps noise b N v i j ell"
  have inner: "\<exists>acc. for_opt (?step i j) 0 N (0, h) = Some (acc, feed (map (tword A' B' b v i j) [0..<N]) h)"
    if "i < N" "j < N" for i j h
  proof -
    let ?I = "\<lambda>ell s. felem (fst s) \<and> fval (fst s) = compress_sum b v (pblock A' B' b i j ell) \<and>
      snd s = feed (map (tword A' B' b v i j) [0..<ell]) h"
    have "\<exists>s. for_opt (?step i j) 0 N (0, h) = Some s \<and> ?I (0 + N) s"
    proof (rule for_opt_rule)
      fix ell s assume e: "ell < 0 + N" and I: "?I ell s"
      obtain acc g where s: "s = (acc, g)" by (cases s)
      from replay_step_correct[OF A B np n b A' B' bb vok that _ clean, of ell acc neon g] e I
      show "\<exists>u. ?step i j ell s = Some u \<and> ?I (Suc ell) u" by (auto simp: s)
    qed (simp add: compress_sum_def pblock_def)
    then show ?thesis by auto
  qed
  let ?mid = "\<lambda>i j hasher. do { (_, hasher') \<leftarrow> for_opt (?step i j) 0 N (0, hasher); Some hasher' }"
  have mid: "?mid i j h = Some (feed (map (tword A' B' b v i j) [0..<N]) h)" if "i < N" "j < N" for i j h
    using inner[OF that, of h] by auto
  have "for_opt (\<lambda>i. for_opt (?mid i) 0 N) 0 N CSHA256_init = Some (feed (twords A' B' b N v) CSHA256_init)"
    unfolding twords_def by (intro for_feed_words mid)
  moreover have "square_blocks A B b" "m_rows A div b = N" using A B b n by (auto simp: square_blocks_def fmat_def)
  ultimately show ?thesis
    using v len np A chash.final_writes[of "map WriteLE32 (twords A' B' b N v)"]
    by (auto simp: ReplayCanonicalHashWithReusableCleanProducts_def Let_def wf_noise_def fmat_def fold_map comp_def)
qed

lemma perturb_correct:
  assumes "fmat n n A" "fmat n r L" "fmat r n R" "dot_fits neon r"
  obtains E A' where "matrix_mul neon L R = Some E" "matrix_add A E = Some A'" "perturbed n r A L R A'"
proof -
  obtain E where E: "matrix_mul neon L R = Some E" "fmat n n E"
    "\<And>i j. i < n \<Longrightarrow> j < n \<Longrightarrow> mval E i j = mprod r L R i j"
    by (rule matrix_mul_correct[OF assms(2,3,4)]) blast
  obtain A' where "matrix_add A E = Some A'" "fmat n n A'"
    "\<And>i j. i < n \<Longrightarrow> j < n \<Longrightarrow> mval A' i j = mval A i j + mval E i j"
    by (rule matrix_add_correct[OF assms(1) E(2)]) blast
  then show thesis using that E(1,3) by (simp add: perturbed_def mprod_def)
qed

section \<open>The product-committed digest\<close>

lemma enc_fval: "fval (enc z) = z" "felem (enc z)"
proof -
  obtain k where k: "z = of_nat k" "k < q31" by (rule Z31_nat)
  have "unat (of_nat k :: Element) = k" unfolding unat_of_nat using k(2) by (intro mod_less) simp
  then have "felem (of_nat k)" "fval (of_nat k) = z" using k by (simp_all add: fval_def)
  then show "fval (enc z) = z" "felem (enc z)" using enc_eq by auto
qed

lemma ucast_drop_byte: "(ucast (drop_bit n (x :: u32)) :: u8) = of_nat (unat x div 2 ^ n)"
  by (rule word_unat_eq_iff[THEN iffD2], simp only: unsigned_ucast_eq unat_drop_bit_eq)
     (simp only: drop_bit_eq_div take_bit_eq_mod unat_of_nat)

lemma le_bytes_4: "le_bytes 4 u = [of_nat u, of_nat (u div 2 ^ 8), of_nat (u div 2 ^ 16), of_nat (u div 2 ^ 24)]"
proof -
  have "le_bytes (Suc (Suc (Suc (Suc 0)))) u = [of_nat u, of_nat (u div 256), of_nat (u div 256 div 256),
      of_nat (u div 256 div 256 div 256)]" by (simp only: le_bytes.simps)
  moreover have "u div 256 div 256 = u div 2 ^ 16" "u div 256 div 256 div 256 = u div 2 ^ 24" "u div 256 = u div 2 ^ 8"
    by (simp_all add: div_mult2_eq[symmetric])
  moreover have "(4::nat) = Suc (Suc (Suc (Suc 0)))" by simp
  ultimately show ?thesis by (simp only:)
qed

lemma bytes_WriteLE32: "[ucast x, ucast (drop_bit 8 x), ucast (drop_bit 16 x), ucast (drop_bit 24 x)] = WriteLE32 x"
  for x :: u32
proof -
  have "(ucast x :: u8) = of_nat (unat x)" using ucast_drop_byte[of 0 x] by (simp only: drop_bit_0 id_apply power_0 div_by_1)
  then show ?thesis by (simp only: WriteLE32_def le_bytes_4 ucast_drop_byte)
qed

lemma HashMatrixWords_correct:
  "HashMatrixWords little_endian ws = SHA256 (SHA256 (concat (map WriteLE32 ws)))"
proof (cases little_endian)
  case True
  then show ?thesis using chash.final_write1[of "concat (map WriteLE32 ws)"] chash.final_writes[of "[]"]
    by (simp add: HashMatrixWords_def)
next
  case False
  then show ?thesis using chash.final_writes[of "map WriteLE32 ws"]
    by (simp only: HashMatrixWords_def if_False bytes_WriteLE32 fold_map comp_def)
qed

definition dwords :: "nat \<Rightarrow> nat \<Rightarrow> Element list \<Rightarrow> (nat \<Rightarrow> nat \<Rightarrow> Z31) \<Rightarrow> Element list" where
  "dwords b N v X = concat (map (\<lambda>i. concat (map (\<lambda>j. [enc (compress_sum b v (\<lambda>x y. X (i * b + x) (j * b + y)))]) [0..<N])) [0..<N])"

lemma ComputeProductCommittedDigest_words:
  assumes C: "fmat n n C" and n: "n = N * b" and b: "0 < b" and v: "DeriveCompressionVector sigma b = Some v"
    and fb: "dot_fits neon b"
  shows "ComputeProductCommittedDigest neon le C b sigma =
    ComputeProductCommittedDigestFromWords le (dwords b N v (mval C)) sigma n b"
proof -
  have vok: "vec_ok b v" using DeriveCompressionVector_ok[OF b, of sigma] v by auto
  let ?f = "\<lambda>i j out. do { blk \<leftarrow> matrix_block_view C i j b; w \<leftarrow> CompressBlock_view neon blk v; Some (out @ [w]) }"
  have "?f i j out = Some (out @ [enc (compress_sum b v (\<lambda>x y. mval C (i * b + x) (j * b + y)))])"
    if "i < N" "j < N" for i j out
    by (rule view_ok_block[OF C n b that]) (simp add: evals_enc[OF CompressBlock_view_correct[OF _ vok fb]])
  then have "for_opt (\<lambda>i. for_opt (?f i) 0 N) 0 N [] = Some ([] @ dwords b N v (mval C))"
    unfolding dwords_def by (intro for_append)
  moreover have "m_rows C = n" "m_cols C = n" "n mod b = 0" "n div b = N" using C b n by (auto simp: fmat_def)
  ultimately show ?thesis using b v by (simp add: ComputeProductCommittedDigest_def Let_def)
qed

lemma ComputeProductCommittedDigestFromPerturbed_words:
  assumes A: "fmat n n A" and B: "fmat n n B" and n: "n = N * b" and b: "0 < b" and bb: "b * b < 2 ^ 32"
    and v: "DeriveCompressionVector sigma b = Some v"
  shows "ComputeProductCommittedDigestFromPerturbed neon le A B b sigma =
    ComputeProductCommittedDigestFromWords le (dwords b N v (mprod n A B)) sigma n b"
proof -
  have vok: "vec_ok b v" using DeriveCompressionVector_ok[OF b, of sigma] v by auto
  let ?g = "\<lambda>i j ell acc. do { x \<leftarrow> matrix_block A i ell b; y \<leftarrow> matrix_block B ell j b;
    product \<leftarrow> matrix_mul neon x y; w \<leftarrow> CompressBlock neon product v; field_add acc w }"
  let ?P = "\<lambda>i j ell x y. \<Sum>k<b. mval A (i * b + x) (ell * b + k) * mval B (ell * b + k) (j * b + y)"
  have g: "evals (?g i j ell acc) (fval acc + compress_sum b v (?P i j ell))"
    if ij: "i < N" "j < N" "ell < N" and acc: "felem acc" for i j ell acc
  proof -
    obtain x y p where p: "matrix_block A i ell b = Some x" "matrix_block B ell j b = Some y"
      "matrix_mul neon x y = Some p" "fmat b b p" "\<And>r c. r < b \<Longrightarrow> c < b \<Longrightarrow> mval p r c = ?P i j ell r c"
      by (rule block_product[OF A B n b ij, where neon = neon]) (use dot_fits_block[OF bb] in blast)+
    obtain w where w: "CompressBlock neon p v = Some w" "felem w" "fval w = compress_sum b v (mval p)"
      by (rule evalsE[OF CompressBlock_correct[OF p(4) vok bb]])
    have "compress_sum b v (mval p) = compress_sum b v (?P i j ell)"
      unfolding compress_sum_def by (intro sum.cong refl) (simp add: p(5))
    then show ?thesis using evals_add[OF acc w(2)] by (simp add: p(1-3) w(1,3))
  qed
  have val: "(\<Sum>ell<N. compress_sum b v (?P i j ell)) = compress_sum b v (\<lambda>x y. mprod n A B (i * b + x) (j * b + y))" for i j
  proof -
    have sums: "(\<Sum>ell<m. compress_sum b v (?P i j ell)) = compress_sum b v (pblock A B b i j m)" for m
      by (induction m) (simp_all add: compress_sum_add pblock_Suc, simp add: compress_sum_def pblock_def)
    show ?thesis unfolding sums by (simp add: compress_sum_def pblock_def mprod_def n)
  qed
  let ?f = "\<lambda>i j out. do { acc \<leftarrow> for_opt (?g i j) 0 N 0; Some (out @ [acc]) }"
  have "?f i j out = Some (out @ [enc (compress_sum b v (\<lambda>x y. mprod n A B (i * b + x) (j * b + y)))])"
    if "i < N" "j < N" for i j out
    using evals_enc[OF evals_for0[of N "?g i j" "\<lambda>ell. compress_sum b v (?P i j ell)", OF g[OF that]]] by (simp add: val)
  then have "for_opt (\<lambda>i. for_opt (?f i) 0 N) 0 N [] = Some ([] @ dwords b N v (mprod n A B))"
    unfolding dwords_def by (intro for_append)
  moreover have "square_blocks A B b" "m_rows A = n" "n div b = N" using A B b n by (auto simp: fmat_def square_blocks_def)
  ultimately show ?thesis using v by (simp add: ComputeProductCommittedDigestFromPerturbed_def Let_def)
qed

lemma twords_nth:
  assumes "i < N" "j < N" "ell < N"
  shows "length (twords A B b N v) = N * N * N"
    "twords A B b N v ! BlockProductIndex i j ell N = tword A B b v i j ell"
proof -
  let ?L1 = "\<lambda>i j. map (tword A B b v i j) [0..<N]" and ?L2 = "\<lambda>i. concat (map (\<lambda>j. map (tword A B b v i j) [0..<N]) [0..<N])"
  have l2: "length (?L2 i) = N * N" for i by (rule concat_uniform(1)) simp
  show "length (twords A B b N v) = N * N * N"
    using concat_uniform(1)[of N ?L2 "N * N"] l2 by (simp add: twords_def mult.assoc)
  have ix: "BlockProductIndex i j ell N = i * (N * N) + (j * N + ell)" by (simp add: BlockProductIndex_def algebra_simps)
  have "twords A B b N v ! (i * (N * N) + (j * N + ell)) = ?L2 i ! (j * N + ell)" unfolding twords_def
    by (rule concat_uniform(2)[of N ?L2 "N * N"]) (use l2 assms idx_less[OF assms(2,3)] in auto)
  also have "\<dots> = ?L1 i j ! ell" by (rule concat_uniform(2)) (use assms in auto)
  finally show "twords A B b N v ! BlockProductIndex i j ell N = tword A B b v i j ell" using assms(3) by (simp add: ix)
qed

section \<open>Properties\<close>

text \<open>C16: \<open>CanonicalMatMul\<close> on square field matrices whose size is a multiple of the block size never fails (on NEON
  the size is below \<open>2^32 - 4\<close>, where the counter of the dot product does not wrap). Its
  matrix is the product of \<open>operator*\<close>, and its hash is the double SHA-256 of one little-endian word per round
  \<open>(i, j, ell)\<close> in loop order, each the compression of the prefix of the product block \<open>(i, j)\<close> over the first
  \<open>ell + 1\<close> inner blocks. It is refused when the matrices are not square of equal size or the block size does
  not divide it.\<close>

theorem canonical_matmul_correct:
  assumes "fmat n n A" "fmat n n B" "n = N * b" "0 < b" "dot_fits neon n"
  shows "\<exists>C v W. CanonicalMatMul neon A B b sigma = Some (C, SHA256 (SHA256 (concat (map WriteLE32 W)))) \<and>
    matrix_mul neon A B = Some C \<and> DeriveCompressionVector sigma b = Some v \<and>
    (0 < N \<longrightarrow> length W = N * N * N) \<and>
    (\<forall>i < N. \<forall>j < N. \<forall>ell < N. fval (W ! BlockProductIndex i j ell N) =
       (\<Sum>x<b. \<Sum>y<b. (\<Sum>k<Suc ell * b. mval A (i * b + x) k * mval B k (j * b + y)) * fval (v ! (x * b + y)))) \<and>
    (\<forall>X Y b'. m_rows X \<noteq> m_cols X \<or> m_rows Y \<noteq> m_cols Y \<or> m_rows X \<noteq> m_rows Y \<or> b' = 0 \<or> m_rows X mod b' \<noteq> 0 \<longrightarrow>
       CanonicalMatMul neon X Y b' sigma = None)"
proof -
  obtain v where v: "DeriveCompressionVector sigma b = Some v" by (rule DeriveCompressionVector_ok[OF assms(4)])
  obtain C where C: "CanonicalMatMul neon A B b sigma = Some (C, SHA256 (SHA256 (concat (map WriteLE32 (twords A B b N v)))))"
    "matrix_mul neon A B = Some C"
  proof (rule CanonicalMatMul_correct[OF assms(1-4) v, where neon = neon])
    show "dot_fits neon b" if "0 < N"
      by (rule dot_fits_mono[OF assms(5)]) (use that assms(3) in simp)
  qed (use assms(5) in blast)
  have "fval (twords A B b N v ! BlockProductIndex i j ell N) =
      (\<Sum>x<b. \<Sum>y<b. (\<Sum>k<Suc ell * b. mval A (i * b + x) k * mval B k (j * b + y)) * fval (v ! (x * b + y)))"
    if "i < N" "j < N" "ell < N" for i j ell
    by (simp add: twords_nth(2)[OF that] tword_def enc_fval compress_sum_def pblock_def)
  moreover have "CanonicalMatMul neon X Y b' sigma = None"
    if "m_rows X \<noteq> m_cols X \<or> m_rows Y \<noteq> m_cols Y \<or> m_rows X \<noteq> m_rows Y \<or> b' = 0 \<or> m_rows X mod b' \<noteq> 0" for X Y b'
    using that by (auto simp: CanonicalMatMul_def square_blocks_def)
  moreover have "0 < N \<longrightarrow> length (twords A B b N v) = N * N * N" using twords_nth(1)[of 0 N 0 0] by simp
  ultimately show ?thesis using C v by blast
qed

theorem canonical_matmul_correct_witness:
  "\<exists>C h. CanonicalMatMul True \<lparr>m_rows = 2, m_cols = 2, m_data = [1, 2, 3, 4]\<rparr>
     \<lparr>m_rows = 2, m_cols = 2, m_data = [5, 6, 7, 8]\<rparr> 1 (replicate 32 9) = Some (C, h)"
proof -
  have "fmat 2 2 \<lparr>m_rows = 2, m_cols = 2, m_data = [1, 2, 3, 4]\<rparr>" "fmat 2 2 \<lparr>m_rows = 2, m_cols = 2, m_data = [5, 6, 7, 8]\<rparr>"
    by (simp_all add: fmat_def wf_mat_def felems_def)
  from canonical_matmul_correct[OF this, of 2 1 True "replicate 32 9"] show ?thesis by (auto simp: dot_fits_def)
qed

text \<open>C17: The replay that reuses the clean block products of \<open>A\<close> and \<open>B\<close> and folds the low-rank noise in by
  compressing its three cross terms gives exactly the transcript hash of \<open>CanonicalMatMul\<close> on the perturbed
  matrices \<open>A + E_L * E_R\<close> and \<open>B + F_L * F_R\<close>, and neither computation fails
  (on NEON for a noise rank below \<open>2^32 - 4\<close>).\<close>

theorem replay_equals_canonical:
  assumes "fmat n n A" "fmat n n B" "wf_noise n r noise" "n = N * b" "0 < b" "b * b < 2 ^ 32"
    and fits: "dot_fits neon r"
  shows "\<exists>hash.
    do { E \<leftarrow> matrix_mul neon (E_L noise) (E_R noise); F \<leftarrow> matrix_mul neon (F_L noise) (F_R noise);
         A' \<leftarrow> matrix_add A E; B' \<leftarrow> matrix_add B F;
         (C', h) \<leftarrow> CanonicalMatMul neon A' B' b sigma; Some h } = Some hash \<and>
    do { clean \<leftarrow> PrecomputeCleanBlockProducts neon A B b;
         ReplayCanonicalHashWithReusableCleanProducts neon A B clean noise b sigma } = Some hash"
proof -
  have f: "fmat n r (E_L noise)" "fmat r n (E_R noise)" "fmat n r (F_L noise)" "fmat r n (F_R noise)"
    using assms(3) by (auto simp: wf_noise_def)
  obtain v where v: "DeriveCompressionVector sigma b = Some v" by (rule DeriveCompressionVector_ok[OF assms(5)])
  obtain E A' where A': "matrix_mul neon (E_L noise) (E_R noise) = Some E" "matrix_add A E = Some A'"
    "perturbed n r A (E_L noise) (E_R noise) A'" by (rule perturb_correct[OF assms(1) f(1,2) fits])
  obtain F B' where B': "matrix_mul neon (F_L noise) (F_R noise) = Some F" "matrix_add B F = Some B'"
    "perturbed n r B (F_L noise) (F_R noise) B'" by (rule perturb_correct[OF assms(2) f(3,4) fits])
  obtain C where "CanonicalMatMul neon A' B' b sigma = Some (C, SHA256 (SHA256 (concat (map WriteLE32 (twords A' B' b N v)))))"
    by (rule CanonicalMatMul_correct[OF _ _ assms(4,5) v, of A' B' neon])
      (use A'(3) B'(3) dot_fits_block[OF assms(6)] in \<open>auto simp: perturbed_def\<close>)
  moreover obtain ps where ps: "PrecomputeCleanBlockProducts neon A B b = Some ps" "length ps = N * N * N"
    "\<And>i j ell. i < N \<Longrightarrow> j < N \<Longrightarrow> ell < N \<Longrightarrow> \<exists>p. nth_opt ps (BlockProductIndex i j ell N) = Some p \<and> fmat b b p \<and>
       (\<forall>r < b. \<forall>c < b. mval p r c = (\<Sum>k<b. mval A (i * b + r) (ell * b + k) * mval B (ell * b + k) (j * b + c)))"
    by (rule Precompute_correct[OF assms(1,2,4,5) conjunct1[OF dot_fits_block[OF assms(6)]]]) blast
  ultimately show ?thesis
    using A' B' Replay_correct[OF assms(1-5) A'(3) B'(3) assms(6) v ps(2,3), of neon] by simp
qed

theorem replay_equals_canonical_witness:
  "\<exists>hash. do { clean \<leftarrow> PrecomputeCleanBlockProducts False (matrix_new 2 2) (matrix_new 2 2) 1;
     ReplayCanonicalHashWithReusableCleanProducts False (matrix_new 2 2) (matrix_new 2 2) clean
       \<lparr>E_L = \<lparr>m_rows = 2, m_cols = 1, m_data = [1, 2]\<rparr>, E_R = \<lparr>m_rows = 1, m_cols = 2, m_data = [3, 4]\<rparr>,
        F_L = \<lparr>m_rows = 2, m_cols = 1, m_data = [5, 6]\<rparr>, F_R = \<lparr>m_rows = 1, m_cols = 2, m_data = [7, 8]\<rparr>\<rparr> 1 (replicate 32 9) } = Some hash"
proof -
  let ?np = "\<lparr>E_L = \<lparr>m_rows = 2, m_cols = 1, m_data = [1, 2]\<rparr>, E_R = \<lparr>m_rows = 1, m_cols = 2, m_data = [3, 4]\<rparr>,
        F_L = \<lparr>m_rows = 2, m_cols = 1, m_data = [5, 6]\<rparr>, F_R = \<lparr>m_rows = 1, m_cols = 2, m_data = [7, 8]\<rparr>\<rparr>"
  have f: "fmat 2 2 (matrix_new 2 2)" by (simp add: fmat_def wf_mat_def felems_def matrix_new_def)
  have "wf_noise 2 1 ?np" by (simp add: wf_noise_def fmat_def wf_mat_def felems_def)
  from replay_equals_canonical[OF f f this, of 2 1 False "replicate 32 9"] show ?thesis by (auto simp: dot_fits_def)
qed

text \<open>C18: The product-committed digest can be computed from the two factors block by block, without forming the
  product: it equals the digest of the product matrix, whatever dot kernel and byte order either host has, and
  it exists whenever the block size divides a non-zero dimension.\<close>

theorem product_digest_from_factors:
  assumes "fmat n n A" "fmat n n B" "n = N * b" "0 < b" "0 < N" "b * b < 2 ^ 32" "matrix_mul neon3 A B = Some C"
  shows "ComputeProductCommittedDigestFromPerturbed neon1 le1 A B b sigma = ComputeProductCommittedDigest neon2 le2 C b sigma \<and>
    ComputeProductCommittedDigest neon2 le2 C b sigma \<noteq> None"
proof -
  obtain v where v: "DeriveCompressionVector sigma b = Some v" by (rule DeriveCompressionVector_ok[OF assms(4)])
  obtain C' where C': "matrix_mul neon3 A B = Some C'" "fmat n n C'"
    "\<And>i j. i < n \<Longrightarrow> j < n \<Longrightarrow> mval C' i j = mprod n A B i j"
    by (rule matrix_mul_correct[OF assms(1,2), where neon = neon3],
        erule (1) matrix_mul_fits[OF assms(1,2) _ _ assms(7)], blast)
  have in_n: "p * b + z < n" if "p < N" "z < b" for p z using idx_less[OF that] assms(3) by simp
  have "compress_sum b v (\<lambda>x y. mval C' (i * b + x) (j * b + y)) = compress_sum b v (\<lambda>x y. mprod n A B (i * b + x) (j * b + y))"
    if "i < N" "j < N" for i j
    unfolding compress_sum_def using that by (intro sum.cong refl) (simp add: C'(3) in_n)
  then have w: "dwords b N v (mval C') = dwords b N v (mprod n A B)"
    unfolding dwords_def by (intro arg_cong[where f = concat] map_cong refl) simp
  have "length (concat (map (\<lambda>j. [f j :: Element]) [0..<N])) = N * 1" for f by (rule concat_uniform(1)) simp
  then have "length (dwords b N v (mprod n A B)) = N * N" unfolding dwords_def by (intro concat_uniform(1)) simp
  then have "ComputeProductCommittedDigestFromWords le (dwords b N v (mprod n A B)) sigma n b \<noteq> None" for le
    using assms(3-5) by (simp add: ComputeProductCommittedDigestFromWords_def FinalizeProductCommittedDigestFromHash_def Let_def)
  moreover have "ComputeProductCommittedDigestFromWords le1 ws sigma n b = ComputeProductCommittedDigestFromWords le2 ws sigma n b" for ws
    by (simp add: ComputeProductCommittedDigestFromWords_def HashMatrixWords_correct)
  ultimately show ?thesis
    using assms(7) C'(1) ComputeProductCommittedDigest_words[OF C'(2) assms(3,4) v conjunct1[OF dot_fits_block[OF assms(6)]]]
      ComputeProductCommittedDigestFromPerturbed_words[OF assms(1-4,6) v] w by simp
qed

theorem product_digest_from_factors_witness:
  "\<exists>C. matrix_mul False (matrix_new 2 2) (matrix_new 2 2) = Some C \<and>
     ComputeProductCommittedDigestFromPerturbed True True (matrix_new 2 2) (matrix_new 2 2) 1 (replicate 32 3) =
       ComputeProductCommittedDigest False False C 1 (replicate 32 3)"
proof -
  have f: "fmat 2 2 (matrix_new 2 2)" by (simp add: fmat_def wf_mat_def felems_def matrix_new_def)
  obtain C where C: "matrix_mul False (matrix_new 2 2) (matrix_new 2 2) = Some C"
    by (rule matrix_mul_correct[OF f f, where neon = False]) (simp add: dot_fits_def)
  from product_digest_from_factors[OF f f _ _ _ _ C, of 2 1] C show ?thesis by auto
qed

end
