(* ===== verification/Arith256.thy ===== *)
theory Arith256
  imports Hash
begin

text \<open>The 256-bit integers of src/arith_uint256.h and src/arith_uint256.cpp: eight 32-bit digits, least
  significant first, and the loops of the source on them. \<open>uval\<close> reads the digits as a number; every
  operation is shown to compute the operation on numbers modulo \<open>2 ^ 256\<close>, the division loop included, and
  the compact encoding of difficulty targets is shown to be a normal form. The floating-point and hexadecimal
  conversions are left out.\<close>

unbundle bit_operations_syntax

section \<open>Definitions\<close>

type_synonym arith_uint256 = "u32 list"

definition WIDTH :: nat where
  "WIDTH = 8"

definition uint_zero :: arith_uint256 where
  "uint_zero = replicate WIDTH 0"

definition uint_of_u64 :: "u64 \<Rightarrow> arith_uint256" where
  "uint_of_u64 b = ucast b # ucast (drop_bit 32 b) # replicate (WIDTH - 2) 0"

definition uint_not :: "arith_uint256 \<Rightarrow> arith_uint256" where
  "uint_not pn = map (\<lambda>d. NOT d) pn"

text \<open>\<open>operator++\<close> and \<open>operator--\<close>: the carry runs on while a digit wraps.\<close>

fun uint_inc :: "arith_uint256 \<Rightarrow> arith_uint256" where
  "uint_inc [] = []"
| "uint_inc (d # ds) = (if d + 1 = 0 then (d + 1) # uint_inc ds else (d + 1) # ds)"

fun uint_dec :: "arith_uint256 \<Rightarrow> arith_uint256" where
  "uint_dec [] = []"
| "uint_dec (d # ds) = (if d - 1 = 0xffffffff then (d - 1) # uint_dec ds else (d - 1) # ds)"

definition uint_neg :: "arith_uint256 \<Rightarrow> arith_uint256" where
  "uint_neg pn = uint_inc (map (\<lambda>d. NOT d) pn)"

fun add_loop :: "u64 \<Rightarrow> u32 list \<Rightarrow> u32 list \<Rightarrow> u32 list" where
  "add_loop carry (x # xs) (y # ys) =
     (let n = carry + ucast x + ucast y in ucast (n AND 0xffffffff) # add_loop (drop_bit 32 n) xs ys)"
| "add_loop carry _ _ = []"

definition uint_add :: "arith_uint256 \<Rightarrow> arith_uint256 \<Rightarrow> arith_uint256" where
  "uint_add a b = add_loop 0 a b"

definition uint_sub :: "arith_uint256 \<Rightarrow> arith_uint256 \<Rightarrow> arith_uint256" where
  "uint_sub a b = uint_add a (uint_neg b)"

fun mul32_loop :: "u64 \<Rightarrow> u32 \<Rightarrow> u32 list \<Rightarrow> u32 list" where
  "mul32_loop carry b32 (x # xs) =
     (let n = carry + ucast b32 * ucast x in ucast (n AND 0xffffffff) # mul32_loop (drop_bit 32 n) b32 xs)"
| "mul32_loop carry b32 [] = []"

definition uint_mul32 :: "arith_uint256 \<Rightarrow> u32 \<Rightarrow> arith_uint256" where
  "uint_mul32 a b32 = mul32_loop 0 b32 a"

text \<open>Row \<open>j\<close> of the schoolbook product adds \<open>pn[j] * b\<close> into the digits from \<open>j\<close> on.\<close>

fun mul_row :: "u64 \<Rightarrow> u32 \<Rightarrow> u32 list \<Rightarrow> u32 list \<Rightarrow> u32 list" where
  "mul_row carry pj (a # as) (b # bs) =
     (let n = carry + ucast a + ucast pj * ucast b in ucast (n AND 0xffffffff) # mul_row (drop_bit 32 n) pj as bs)"
| "mul_row carry pj as _ = as"

definition uint_mul :: "arith_uint256 \<Rightarrow> arith_uint256 \<Rightarrow> arith_uint256" where
  "uint_mul pn b = fold (\<lambda>j a. take j a @ mul_row 0 (pn ! j) (drop j a) b) [0..<WIDTH] uint_zero"

definition shl_digit :: "arith_uint256 \<Rightarrow> nat \<Rightarrow> nat \<Rightarrow> nat \<Rightarrow> arith_uint256 \<Rightarrow> arith_uint256" where
  "shl_digit a k s i pn =
     (let pn1 = (if i + k + 1 < WIDTH \<and> s \<noteq> 0
                 then pn[i + k + 1 := pn ! (i + k + 1) OR drop_bit (32 - s) (a ! i)] else pn) in
      if i + k < WIDTH then pn1[i + k := pn1 ! (i + k) OR push_bit s (a ! i)] else pn1)"

definition uint_shl :: "arith_uint256 \<Rightarrow> nat \<Rightarrow> arith_uint256" where
  "uint_shl a shift = fold (shl_digit a (shift div 32) (shift mod 32)) [0..<WIDTH] uint_zero"

definition shr_digit :: "arith_uint256 \<Rightarrow> nat \<Rightarrow> nat \<Rightarrow> nat \<Rightarrow> arith_uint256 \<Rightarrow> arith_uint256" where
  "shr_digit a k s i pn =
     (let pn1 = (if k + 1 \<le> i \<and> s \<noteq> 0
                 then pn[i - k - 1 := pn ! (i - k - 1) OR push_bit (32 - s) (a ! i)] else pn) in
      if k \<le> i then pn1[i - k := pn1 ! (i - k) OR drop_bit s (a ! i)] else pn1)"

definition uint_shr :: "arith_uint256 \<Rightarrow> nat \<Rightarrow> arith_uint256" where
  "uint_shr a shift = fold (shr_digit a (shift div 32) (shift mod 32)) [0..<WIDTH] uint_zero"

text \<open>\<open>CompareTo\<close> and \<open>bits\<close> scan the digits from the most significant one; \<open>ds\<close> is the reversed number.\<close>

fun compare_digits :: "u32 list \<Rightarrow> u32 list \<Rightarrow> int" where
  "compare_digits (x # xs) (y # ys) = (if x < y then - 1 else if x > y then 1 else compare_digits xs ys)"
| "compare_digits _ _ = 0"

definition uint_CompareTo :: "arith_uint256 \<Rightarrow> arith_uint256 \<Rightarrow> int" where
  "uint_CompareTo a b = compare_digits (rev a) (rev b)"

text \<open>The comparison operators, and \<open>std::min\<close> on them.\<close>

definition uint_gt :: "arith_uint256 \<Rightarrow> arith_uint256 \<Rightarrow> bool" where
  "uint_gt a b \<longleftrightarrow> uint_CompareTo a b > 0"

definition uint_lt :: "arith_uint256 \<Rightarrow> arith_uint256 \<Rightarrow> bool" where
  "uint_lt a b \<longleftrightarrow> uint_CompareTo a b < 0"

definition uint_ge :: "arith_uint256 \<Rightarrow> arith_uint256 \<Rightarrow> bool" where
  "uint_ge a b \<longleftrightarrow> uint_CompareTo a b \<ge> 0"

definition uint_le :: "arith_uint256 \<Rightarrow> arith_uint256 \<Rightarrow> bool" where
  "uint_le a b \<longleftrightarrow> uint_CompareTo a b \<le> 0"

definition uint_min :: "arith_uint256 \<Rightarrow> arith_uint256 \<Rightarrow> arith_uint256" where
  "uint_min a b = (if uint_lt b a then b else a)"

definition uint_EqualTo :: "arith_uint256 \<Rightarrow> u64 \<Rightarrow> bool" where
  "uint_EqualTo pn b =
     (if \<exists>d \<in> set (drop 2 pn). d \<noteq> 0 then False
      else if ucast (pn ! 1) \<noteq> drop_bit 32 b then False
      else if ucast (pn ! 0) \<noteq> b AND 0xffffffff then False
      else True)"

fun digit_bits :: "u32 \<Rightarrow> nat \<Rightarrow> nat" where
  "digit_bits d 0 = 1"
| "digit_bits d (Suc n) = (if d AND push_bit (Suc n) 1 \<noteq> 0 then Suc n + 1 else digit_bits d n)"

fun bits_loop :: "u32 list \<Rightarrow> nat" where
  "bits_loop [] = 0"
| "bits_loop (d # ds) = (if d \<noteq> 0 then 32 * length ds + digit_bits d 31 else bits_loop ds)"

definition uint_bits :: "arith_uint256 \<Rightarrow> nat" where
  "uint_bits pn = bits_loop (rev pn)"

text \<open>The loop of \<open>operator/=\<close> for \<open>shift\<close> down to zero: remainder, shifted divisor and quotient.\<close>

fun div_loop :: "nat \<Rightarrow> arith_uint256 \<Rightarrow> arith_uint256 \<Rightarrow> arith_uint256 \<Rightarrow> arith_uint256" where
  "div_loop 0 num dv pn = pn"
| "div_loop (Suc shift) num dv pn =
     (if uint_CompareTo num dv \<ge> 0
      then div_loop shift (uint_sub num dv) (uint_shr dv 1)
             (pn[shift div 32 := pn ! (shift div 32) OR push_bit (shift mod 32) 1])
      else div_loop shift num (uint_shr dv 1) pn)"

definition uint_div :: "arith_uint256 \<Rightarrow> arith_uint256 \<Rightarrow> arith_uint256 option" where
  "uint_div a b =
     (let num_bits = uint_bits a; div_bits = uint_bits b in
      if div_bits = 0 then None
      else if div_bits > num_bits then Some uint_zero
      else let shift = num_bits - div_bits in
        Some (div_loop (Suc shift) a (uint_shl b shift) uint_zero))"

definition uint_GetLow64 :: "arith_uint256 \<Rightarrow> u64" where
  "uint_GetLow64 pn = ucast (pn ! 0) OR push_bit 32 (ucast (pn ! 1))"

record compact_result =
  cr_value :: arith_uint256
  cr_negative :: bool
  cr_overflow :: bool

definition SetCompact :: "u32 \<Rightarrow> compact_result" where
  "SetCompact nCompact =
     (let nSize = unat (drop_bit 24 nCompact);
          nWord = nCompact AND 0x007fffff;
          nWord' = (if nSize \<le> 3 then drop_bit (8 * (3 - nSize)) nWord else nWord);
          v = (if nSize \<le> 3 then uint_of_u64 (ucast nWord')
               else uint_shl (uint_of_u64 (ucast nWord')) (8 * (nSize - 3))) in
      \<lparr>cr_value = v,
       cr_negative = (nWord' \<noteq> 0 \<and> nCompact AND 0x00800000 \<noteq> 0),
       cr_overflow = (nWord' \<noteq> 0 \<and> (nSize > 34 \<or> nWord' > 0xff \<and> nSize > 33 \<or> nWord' > 0xffff \<and> nSize > 32))\<rparr>)"

definition GetCompact :: "arith_uint256 \<Rightarrow> bool \<Rightarrow> u32 option" where
  "GetCompact pn fNegative =
     (let nSize = (uint_bits pn + 7) div 8;
          nCompact = (if nSize \<le> 3 then ucast (push_bit (8 * (3 - nSize)) (uint_GetLow64 pn))
                      else ucast (uint_GetLow64 (uint_shr pn (8 * (nSize - 3)))));
          (nCompact, nSize) = (if nCompact AND 0x00800000 \<noteq> 0 then (drop_bit 8 nCompact, nSize + 1)
                               else (nCompact, nSize)) in
      if nCompact AND NOT 0x007fffff \<noteq> 0 then None
      else if \<not> nSize < 256 then None
      else
        let nCompact = nCompact OR push_bit 24 (of_nat nSize) in
        Some (nCompact OR (if fNegative \<and> nCompact AND 0x007fffff \<noteq> 0 then 0x00800000 else 0)))"

definition ArithToUint256 :: "arith_uint256 \<Rightarrow> uint256" where
  "ArithToUint256 a = concat (map WriteLE32 a)"

definition UintToArith256 :: "uint256 \<Rightarrow> arith_uint256" where
  "UintToArith256 a = map (\<lambda>x. ReadLE32 (drop (4 * x) a)) [0..<WIDTH]"

section \<open>The number the digits stand for\<close>

fun uval :: "u32 list \<Rightarrow> nat" where
  "uval [] = 0"
| "uval (d # ds) = unat d + 2 ^ 32 * uval ds"

definition wf256 :: "arith_uint256 \<Rightarrow> bool" where
  "wf256 pn \<longleftrightarrow> length pn = WIDTH"

lemma unat_u32: "unat (d :: u32) < 2 ^ 32"
  using unat_lt[of d] by simp

lemma pow32_Suc: "2 ^ (32 * Suc k) = 2 ^ 32 * (2 :: nat) ^ (32 * k)"
  by (simp only: mult_Suc_right power_add)

lemma uval_less: "uval ds < 2 ^ (32 * length ds)"
proof (induction ds)
  case (Cons d ds)
  have "uval (d # ds) < 2 ^ 32 * Suc (uval ds)" using unat_u32[of d] by (simp only: uval.simps) simp
  also have "\<dots> \<le> 2 ^ 32 * 2 ^ (32 * length ds)" using Cons by (intro mult_le_mono2) simp
  finally show ?case by (simp only: list.size(4) add_Suc_right add_0_right pow32_Suc)
qed simp

lemma uval_256: "wf256 pn \<Longrightarrow> uval pn < 2 ^ 256"
  using uval_less[of pn] by (simp add: wf256_def WIDTH_def)

lemma uval_append: "uval (xs @ ys) = uval xs + 2 ^ (32 * length xs) * uval ys"
proof (induction xs)
  case (Cons x xs)
  then show ?case by (simp only: append_Cons uval.simps list.size(4) add_Suc_right add_0_right pow32_Suc distrib_left mult.assoc add.assoc)
qed simp

lemma uval_replicate_0: "uval (replicate n 0) = 0"
  by (induction n) simp_all

lemma uval_zero: "uval uint_zero = 0" "wf256 uint_zero"
  by (simp_all add: uint_zero_def uval_replicate_0 wf256_def)

lemma uval_inj: "length xs = length ys \<Longrightarrow> uval xs = uval ys \<Longrightarrow> xs = ys"
proof (induction xs ys rule: list_induct2)
  case (Cons x xs y ys)
  have d: "uval (z # zs) mod 2 ^ 32 = unat z" "uval (z # zs) div 2 ^ 32 = uval zs" for z zs
    using unat_u32[of z] by (simp_all only: uval.simps mod_mult_self2 mod_less div_mult_self2 div_less)
  have "unat x = unat y" "uval xs = uval ys"
    by (simp_all only: d(1)[of x xs, symmetric] d(1)[of y ys, symmetric] d(2)[of x xs, symmetric] d(2)[of y ys, symmetric] Cons.prems)
  then show ?case using Cons.IH by (simp add: word_unat_eq_iff)
qed simp

section \<open>Carry loops\<close>

text \<open>One step of a carry loop: the low half of the 64-bit sum is the digit, the high half the carry.\<close>

lemma low_half: "unat (ucast (n AND 0xffffffff :: u64) :: u32) = unat n mod 2 ^ 32"
proof -
  have "(0xffffffff :: u64) = mask 32" by (simp add: mask_eq_exp_minus_1)
  then have "n AND 0xffffffff = take_bit 32 n" by (simp only: take_bit_eq_mask)
  then have "unat (ucast (n AND 0xffffffff) :: u32) = take_bit 32 (take_bit LENGTH(32) (unat n))"
    by (simp only: unsigned_ucast_eq unsigned_take_bit_eq)
  then show ?thesis by (simp add: take_bit_eq_mod)
qed

lemma high_half: "unat (drop_bit 32 (n :: u64)) = unat n div 2 ^ 32"
  by (simp only: unat_drop_bit_eq) (simp only: drop_bit_eq_div)

lemma carry_step:
  "(N :: nat) mod 2 ^ 32 + 2 ^ 32 * ((N div 2 ^ 32 + r) mod 2 ^ (32 * k)) = (N + 2 ^ 32 * r) mod 2 ^ (32 * Suc k)"
proof -
  have "(N + 2 ^ 32 * r) mod (2 ^ 32 * 2 ^ (32 * k)) =
      2 ^ 32 * ((N + 2 ^ 32 * r) div 2 ^ 32 mod 2 ^ (32 * k)) + (N + 2 ^ 32 * r) mod 2 ^ 32"
    by (rule mod_mult2_eq)
  then show ?thesis by (simp only: pow32_Suc mod_mult_self2 div_mult_self2 add.commute) simp
qed

lemma unat_ucast_u64: "unat (ucast (x :: u32) :: u64) = unat x"
  by (simp add: unsigned_ucast_eq take_bit_nat_eq_self unat_lt less_trans[OF unat_u32])

lemma sum_no_wrap: "unat a + unat b < 2 ^ 64 \<Longrightarrow> unat (a + b :: u64) = unat a + unat b"
  by (simp add: unat_word_ariths)

lemma mult_no_wrap: "unat a * unat b < 2 ^ 64 \<Longrightarrow> unat (a * b :: u64) = unat a * unat b"
  by (simp add: unat_word_ariths)

lemma add_loop_correct:
  "length xs = length ys \<Longrightarrow> unat c \<le> 1 \<Longrightarrow>
    uval (add_loop c xs ys) = (unat c + uval xs + uval ys) mod 2 ^ (32 * length xs) \<and> length (add_loop c xs ys) = length xs"
proof (induction xs ys arbitrary: c rule: list_induct2)
  case (Cons x xs y ys)
  let ?n = "c + ucast x + ucast y"
  have b: "unat x < 2 ^ 32" "unat y < 2 ^ 32" by (rule unat_u32)+
  have "unat (c + ucast x) = unat c + unat x" using b Cons.prems by (subst sum_no_wrap) (simp_all add: unat_ucast_u64)
  then have n: "unat ?n = unat c + unat x + unat y" using b Cons.prems by (subst sum_no_wrap) (simp_all add: unat_ucast_u64)
  then have "unat (drop_bit 32 ?n) \<le> 1" using b Cons.prems by (simp only: high_half) simp
  from Cons.IH[OF this] have IH: "uval (add_loop (drop_bit 32 ?n) xs ys) =
      (unat ?n div 2 ^ 32 + (uval xs + uval ys)) mod 2 ^ (32 * length xs)" "length (add_loop (drop_bit 32 ?n) xs ys) = length xs"
    by (simp_all only: high_half add.assoc)
  have "uval (add_loop c (x # xs) (y # ys)) = (unat ?n + 2 ^ 32 * (uval xs + uval ys)) mod 2 ^ (32 * Suc (length xs))"
    by (simp only: add_loop.simps Let_def uval.simps low_half IH(1) carry_step)
  also have "unat ?n + 2 ^ 32 * (uval xs + uval ys) = unat c + uval (x # xs) + uval (y # ys)"
    unfolding n uval.simps distrib_left by simp
  finally show ?case using IH(2) by (simp add: Let_def)
qed simp

lemma uint_add_correct:
  assumes "wf256 a" "wf256 b"
  shows "uval (uint_add a b) = (uval a + uval b) mod 2 ^ 256" "wf256 (uint_add a b)"
  using add_loop_correct[of a b 0] assms by (simp_all add: uint_add_def wf256_def WIDTH_def)

lemma uint_inc_correct: "uval (uint_inc xs) = (uval xs + 1) mod 2 ^ (32 * length xs) \<and> length (uint_inc xs) = length xs"
proof (induction xs)
  case (Cons d ds)
  have step: "(uval (d # ds) + 1) mod 2 ^ (32 * length (d # ds)) =
      (unat d + 1) mod 2 ^ 32 + 2 ^ 32 * (((unat d + 1) div 2 ^ 32 + uval ds) mod 2 ^ (32 * length ds))"
    unfolding carry_step by simp
  have S: "unat (d + 1) = (unat d + 1) mod 2 ^ 32" by (simp add: unat_word_ariths)
  show ?case
  proof (cases "d + 1 = 0")
    case True
    then have "d = - 1" by (simp add: eq_neg_iff_add_eq_0)
    then have "unat d = 2 ^ 32 - 1" by (simp add: unsigned_minus_1_eq_mask mask_eq_exp_minus_1)
    then have "(unat d + 1) div 2 ^ 32 = 1" by simp
    then show ?thesis using True Cons S unfolding step by (simp add: add.commute)
  next
    case False
    then have "unat (d + 1) \<noteq> 0" by (simp add: unat_eq_zero)
    then have "unat d + 1 < 2 ^ 32" using S unat_u32[of d] by (cases "unat d + 1 = 2 ^ 32") simp_all
    then have "unat (d + 1) = unat d + 1" "(unat d + 1) div 2 ^ 32 = 0" using S by simp_all
    then show ?thesis using False uval_less[of ds] S unfolding step by simp
  qed
qed simp

lemma uint_not_correct: "uval (map (\<lambda>d. NOT d) xs) + uval xs + 1 = 2 ^ (32 * length xs)"
proof (induction xs)
  case (Cons d ds)
  have "NOT d = - 1 - d" by (simp add: not_eq_complement)
  then have "unat (NOT d) = unat (- 1 :: u32) - unat d" by (simp only: unat_sub[OF word_order.extremum])
  then have n: "unat (NOT d) + unat d + 1 = 2 ^ 32"
    using unat_u32[of d] by (simp add: unsigned_minus_1_eq_mask mask_eq_exp_minus_1)
  have "uval (map (\<lambda>d. NOT d) (d # ds)) + uval (d # ds) + 1 =
      (unat (NOT d) + unat d + 1) + 2 ^ 32 * (uval (map (\<lambda>d. NOT d) ds) + uval ds)"
    by (simp only: list.map uval.simps distrib_left add_ac)
  also have "\<dots> = 2 ^ 32 * (uval (map (\<lambda>d. NOT d) ds) + uval ds + 1)" unfolding n by simp
  finally show ?case unfolding Cons by (simp only: list.size(4) add_Suc_right add_0_right pow32_Suc)
qed simp

lemma uint_neg_correct:
  assumes "wf256 b" shows "uval (uint_neg b) = (2 ^ 256 - uval b) mod 2 ^ 256" "wf256 (uint_neg b)"
proof -
  have "uval (map (\<lambda>d. NOT d) b) + 1 = 2 ^ 256 - uval b"
    using uint_not_correct[of b] assms by (simp add: wf256_def WIDTH_def)
  then show "uval (uint_neg b) = (2 ^ 256 - uval b) mod 2 ^ 256" "wf256 (uint_neg b)"
    using uint_inc_correct[of "map (\<lambda>d. NOT d) b"] assms by (simp_all add: uint_neg_def wf256_def WIDTH_def)
qed

lemma uint_sub_correct:
  assumes "wf256 a" "wf256 b"
  shows "uval (uint_sub a b) = (uval a + (2 ^ 256 - uval b)) mod 2 ^ 256" "wf256 (uint_sub a b)"
    "uval b \<le> uval a \<Longrightarrow> uval (uint_sub a b) = uval a - uval b"
proof -
  show S: "uval (uint_sub a b) = (uval a + (2 ^ 256 - uval b)) mod 2 ^ 256"
    unfolding uint_sub_def uint_add_correct(1)[OF assms(1) uint_neg_correct(2)[OF assms(2)]]
      uint_neg_correct(1)[OF assms(2)] by (rule mod_add_right_eq)
  show "wf256 (uint_sub a b)"
    unfolding uint_sub_def by (rule uint_add_correct(2)[OF assms(1) uint_neg_correct(2)[OF assms(2)]])
  assume le: "uval b \<le> uval a"
  have "uval a + (2 ^ 256 - uval b) = uval a - uval b + 2 ^ 256" using le uval_256[OF assms(2)] by simp
  then show "uval (uint_sub a b) = uval a - uval b"
    unfolding S using uval_256[OF assms(1)] by (simp only: mod_add_self2) simp
qed

lemma mod_split: "x < 2 ^ m \<Longrightarrow> x + 2 ^ m * (y mod 2 ^ k) = (x + 2 ^ m * y) mod (2 :: nat) ^ (m + k)"
proof -
  assume x: "x < 2 ^ m"
  have "(x + 2 ^ m * y) mod (2 ^ m * 2 ^ k) = 2 ^ m * ((x + 2 ^ m * y) div 2 ^ m mod 2 ^ k) + (x + 2 ^ m * y) mod 2 ^ m"
    by (rule mod_mult2_eq)
  then show ?thesis using x by (simp add: power_add)
qed

lemma uint_dec_correct:
  "uval (uint_dec xs) = (uval xs + (2 ^ (32 * length xs) - 1)) mod 2 ^ (32 * length xs) \<and> length (uint_dec xs) = length xs"
proof (induction xs)
  case (Cons d ds)
  let ?k = "32 * length ds"
  have pos: "0 < (2 :: nat) ^ ?k" by simp
  have max: "unat (0xffffffff :: u32) = 2 ^ 32 - 1" by simp
  show ?case
  proof (cases "d = 0")
    case True
    have z: "d - 1 = 0xffffffff" unfolding True by simp
    have "uval (uint_dec (d # ds)) = (2 ^ 32 - 1) + 2 ^ 32 * ((uval ds + (2 ^ ?k - 1)) mod 2 ^ ?k)"
      using z Cons by (simp add: max)
    also have "\<dots> = ((2 ^ 32 - 1) + 2 ^ 32 * (uval ds + (2 ^ ?k - 1))) mod 2 ^ (32 + ?k)" by (rule mod_split) simp
    also have "(2 ^ 32 - 1) + 2 ^ 32 * (uval ds + (2 ^ ?k - 1)) = uval (d # ds) + (2 ^ 32 * 2 ^ ?k - 1)"
    proof -
      obtain q where "(2 :: nat) ^ ?k = Suc q" using pos gr0_implies_Suc by blast
      then show ?thesis using True by simp
    qed
    finally show ?thesis using z Cons True by (simp add: power_add)
  next
    case False
    then have "0 < unat d" by (simp add: unat_gt_0)
    then have u: "unat (d - 1) = unat d - 1" using unat_minus_one[OF False] by simp
    have nz: "d - 1 \<noteq> 0xffffffff"
    proof
      assume "d - 1 = 0xffffffff"
      then have "unat d - 1 = 2 ^ 32 - 1" using u max by simp
      then show False using unat_u32[of d] \<open>0 < unat d\<close> by simp
    qed
    have "uval (d # ds) + (2 ^ (32 * length (d # ds)) - 1) = uval ((d - 1) # ds) + 2 ^ (32 * length (d # ds))"
      using \<open>0 < unat d\<close> by (simp add: u)
    then show ?thesis using nz uval_less[of "(d - 1) # ds"] by simp
  qed
qed simp

lemma mul_bound: "a \<le> 2 ^ 32 - 1 \<Longrightarrow> b \<le> 2 ^ 32 - 1 \<Longrightarrow> c \<le> 2 ^ 33 - 2 \<Longrightarrow> c + a * b < (2 ^ 64 :: nat)"
proof -
  assume "a \<le> 2 ^ 32 - 1" "b \<le> 2 ^ 32 - 1" and c: "c \<le> 2 ^ 33 - 2"
  then have "a * b \<le> (2 ^ 32 - 1) * (2 ^ 32 - 1)" by (intro mult_le_mono)
  then show ?thesis using c by simp
qed

lemma mul32_loop_correct:
  "unat c \<le> 2 ^ 32 - 1 \<Longrightarrow> uval (mul32_loop c b xs) = (unat c + unat b * uval xs) mod 2 ^ (32 * length xs) \<and>
    length (mul32_loop c b xs) = length xs"
proof (induction xs arbitrary: c)
  case (Cons x xs)
  let ?n = "c + ucast b * ucast x"
  have le: "unat b \<le> 2 ^ 32 - 1" "unat x \<le> 2 ^ 32 - 1" using unat_u32[of b] unat_u32[of x] by simp_all
  have lt: "unat c + unat b * unat x < 2 ^ 64" by (rule mul_bound[OF le]) (use Cons.prems in simp)
  have "unat (ucast b * ucast x :: u64) = unat b * unat x" using lt by (subst mult_no_wrap) (simp_all add: unat_ucast_u64)
  then have n: "unat ?n = unat c + unat b * unat x" using lt by (subst sum_no_wrap) simp_all
  have "unat (drop_bit 32 ?n) \<le> 2 ^ 32 - 1" unfolding high_half n using lt by simp
  from Cons.IH[OF this] have IH: "uval (mul32_loop (drop_bit 32 ?n) b xs) = (unat ?n div 2 ^ 32 + unat b * uval xs) mod 2 ^ (32 * length xs)"
    "length (mul32_loop (drop_bit 32 ?n) b xs) = length xs" by (simp_all only: high_half)
  have "uval (mul32_loop c b (x # xs)) = (unat ?n + 2 ^ 32 * (unat b * uval xs)) mod 2 ^ (32 * Suc (length xs))"
    by (simp only: mul32_loop.simps Let_def uval.simps low_half IH(1) carry_step)
  also have "unat ?n + 2 ^ 32 * (unat b * uval xs) = unat c + unat b * uval (x # xs)"
    unfolding n uval.simps distrib_left by simp
  finally show ?case using IH(2) by (simp add: Let_def)
qed simp

lemma uint_mul32_correct:
  assumes "wf256 a"
  shows "uval (uint_mul32 a b) = (uval a * unat b) mod 2 ^ 256" "wf256 (uint_mul32 a b)"
  using mul32_loop_correct[of 0 b a] assms by (simp_all add: uint_mul32_def wf256_def WIDTH_def mult.commute)

lemma mul_row_correct:
  "length as \<le> length bs \<Longrightarrow> unat c \<le> 2 ^ 32 - 1 \<Longrightarrow>
    uval (mul_row c p as bs) = (unat c + uval as + unat p * uval bs) mod 2 ^ (32 * length as) \<and>
    length (mul_row c p as bs) = length as"
proof (induction as arbitrary: bs c)
  case (Cons a as)
  then obtain b bs' where bs: "bs = b # bs'" by (cases bs) auto
  let ?n = "c + ucast a + ucast p * ucast b"
  have le: "unat p \<le> 2 ^ 32 - 1" "unat b \<le> 2 ^ 32 - 1" "unat a \<le> 2 ^ 32 - 1"
    using unat_u32[of p] unat_u32[of b] unat_u32[of a] by simp_all
  have lt: "unat c + unat a + unat p * unat b < 2 ^ 64" by (rule mul_bound[OF le(1,2)]) (use Cons.prems le(3) in simp)
  have "unat (ucast p * ucast b :: u64) = unat p * unat b" using lt by (subst mult_no_wrap) (simp_all add: unat_ucast_u64)
  moreover have "unat (c + ucast a) = unat c + unat a" using lt by (subst sum_no_wrap) (simp_all add: unat_ucast_u64)
  ultimately have n: "unat ?n = unat c + unat a + unat p * unat b" using lt by (subst sum_no_wrap) simp_all
  have "unat (drop_bit 32 ?n) \<le> 2 ^ 32 - 1" unfolding high_half n using lt by simp
  from Cons.IH[OF _ this, of bs'] have IH: "uval (mul_row (drop_bit 32 ?n) p as bs') =
      (unat ?n div 2 ^ 32 + (uval as + unat p * uval bs')) mod 2 ^ (32 * length as)"
    "length (mul_row (drop_bit 32 ?n) p as bs') = length as" using Cons.prems(1) by (simp_all only: high_half bs add.assoc) simp_all
  have "uval (mul_row c p (a # as) bs) = (unat ?n + 2 ^ 32 * (uval as + unat p * uval bs')) mod 2 ^ (32 * Suc (length as))"
    by (simp only: bs mul_row.simps Let_def uval.simps low_half IH(1) carry_step)
  also have "unat ?n + 2 ^ 32 * (uval as + unat p * uval bs') = unat c + uval (a # as) + unat p * uval bs"
    unfolding n bs uval.simps distrib_left by simp
  finally show ?case using IH(2) by (simp add: Let_def bs)
qed simp

lemma uint_mul_correct:
  assumes a: "wf256 pn" and b: "wf256 b"
  shows "uval (uint_mul pn b) = (uval pn * uval b) mod 2 ^ 256" "wf256 (uint_mul pn b)"
proof -
  let ?f = "\<lambda>j a. take j a @ mul_row 0 (pn ! j) (drop j a) b"
  have "uval (fold ?f [0..<n] uint_zero) = (uval (take n pn) * uval b) mod 2 ^ 256 \<and> wf256 (fold ?f [0..<n] uint_zero)"
    if "n \<le> WIDTH" for n
    using that
  proof (induction n)
    case 0
    show ?case by (simp add: uval_zero)
  next
    case (Suc n)
    let ?a = "fold ?f [0..<n] uint_zero"
    from Suc have IH: "uval ?a = (uval (take n pn) * uval b) mod 2 ^ 256" and wf: "wf256 ?a" by simp_all
    have len: "length ?a = 8" "length b = 8" "length pn = 8" "n < 8" using wf a b Suc.prems by (simp_all add: wf256_def WIDTH_def)
    have row: "uval (mul_row 0 (pn ! n) (drop n ?a) b) = (uval (drop n ?a) + unat (pn ! n) * uval b) mod 2 ^ (32 * (8 - n))"
      "length (mul_row 0 (pn ! n) (drop n ?a) b) = 8 - n"
      using mul_row_correct[of "drop n ?a" b 0 "pn ! n"] len by simp_all
    have whole: "uval (take n ?a) + 2 ^ (32 * n) * uval (drop n ?a) = uval ?a"
      using uval_append[of "take n ?a" "drop n ?a"] len by simp
    have "uval (?f n ?a) = uval (take n ?a) + 2 ^ (32 * n) * ((uval (drop n ?a) + unat (pn ! n) * uval b) mod 2 ^ (32 * (8 - n)))"
      using row len by (simp add: uval_append)
    also have "\<dots> = (uval (take n ?a) + 2 ^ (32 * n) * (uval (drop n ?a) + unat (pn ! n) * uval b)) mod 2 ^ (32 * n + 32 * (8 - n))"
      by (rule mod_split) (use uval_less[of "take n ?a"] len in simp)
    also have "32 * n + 32 * (8 - n) = 256" using len by simp
    also have "uval (take n ?a) + 2 ^ (32 * n) * (uval (drop n ?a) + unat (pn ! n) * uval b) =
        uval ?a + 2 ^ (32 * n) * unat (pn ! n) * uval b" using whole by (simp only: distrib_left mult.assoc add.assoc)
    also have "\<dots> mod 2 ^ 256 = (uval (take n pn) * uval b + 2 ^ (32 * n) * unat (pn ! n) * uval b) mod 2 ^ 256"
      unfolding IH by (rule mod_add_left_eq)
    also have "uval (take n pn) * uval b + 2 ^ (32 * n) * unat (pn ! n) * uval b = uval (take (Suc n) pn) * uval b"
      using len by (simp add: take_Suc_conv_app_nth uval_append distrib_right)
    finally have "uval (?f n ?a) = (uval (take (Suc n) pn) * uval b) mod 2 ^ 256" .
    moreover have "wf256 (?f n ?a)" using row(2) len by (simp add: wf256_def WIDTH_def)
    ultimately show ?case by simp
  qed
  from this[of WIDTH] a show "uval (uint_mul pn b) = (uval pn * uval b) mod 2 ^ 256" "wf256 (uint_mul pn b)"
    by (simp_all add: uint_mul_def wf256_def)
qed

section \<open>Comparison\<close>

lemma uval_rev_Cons: "uval (rev (x # xs)) = uval (rev xs) + 2 ^ (32 * length xs) * unat x"
  by (simp add: uval_append)

lemma compare_digits_correct:
  "length xs = length ys \<Longrightarrow> compare_digits xs ys = (if uval (rev xs) < uval (rev ys) then - 1 else if uval (rev xs) > uval (rev ys) then 1 else 0)"
proof (induction xs ys rule: list_induct2)
  case (Cons x xs y ys)
  have lt: "uval (rev (u # us)) < uval (rev (v # vs))" if "length us = length xs" "length vs = length xs" "u < v" for u v us vs
  proof -
    have "uval (rev us) < 2 ^ (32 * length xs)" using uval_less[of "rev us"] that by simp
    moreover have "2 ^ (32 * length xs) * Suc (unat u) \<le> 2 ^ (32 * length xs) * unat v"
      using that(3) by (intro mult_le_mono2) (simp add: word_less_nat_alt)
    ultimately show ?thesis unfolding uval_rev_Cons that(1,2) mult_Suc_right by linarith
  qed
  show ?case
  proof (cases x y rule: linorder_cases)
    case less
    have "uval (rev (x # xs)) < uval (rev (y # ys))" by (rule lt) (use less Cons.hyps in auto)
    then show ?thesis using less by (simp only: compare_digits.simps if_True)
  next
    case equal
    then show ?thesis using Cons.IH
      by (simp only: compare_digits.simps uval_rev_Cons Cons.hyps less_irrefl if_False add_less_cancel_right)
  next
    case greater
    have "uval (rev (y # ys)) < uval (rev (x # xs))" by (rule lt) (use greater Cons.hyps in auto)
    then show ?thesis using greater by (simp only: compare_digits.simps if_True if_False not_less_iff_gr_or_eq less_not_sym)
  qed
qed simp

lemma uint_CompareTo_correct:
  "wf256 a \<Longrightarrow> wf256 b \<Longrightarrow> uint_CompareTo a b = (if uval a < uval b then - 1 else if uval a > uval b then 1 else 0)"
  using compare_digits_correct[of "rev a" "rev b"] by (simp add: uint_CompareTo_def wf256_def)

section \<open>Shifts\<close>

lemma bit_low_high:
  assumes "a < 2 ^ m"
  shows "bit (a + 2 ^ m * b :: nat) n = (if n < m then bit a n else bit b (n - m))"
proof (cases "n < m")
  case True
  then have "(2 :: nat) ^ m = 2 ^ n * 2 ^ (m - n)" by (simp add: power_add[symmetric])
  then have "(a + 2 ^ m * b) div 2 ^ n = a div 2 ^ n + 2 ^ (m - n) * b" by (simp add: mult.assoc)
  moreover have "even ((2 :: nat) ^ (m - n) * b)" using True by simp
  ultimately show ?thesis using True by (simp add: bit_iff_odd)
next
  case False
  then have "(2 :: nat) ^ n = 2 ^ m * 2 ^ (n - m)" by (simp add: power_add[symmetric])
  then have "(a + 2 ^ m * b) div 2 ^ n = (a + 2 ^ m * b) div 2 ^ m div 2 ^ (n - m)" by (simp add: div_mult2_eq)
  also have "\<dots> = b div 2 ^ (n - m)" using assms by simp
  finally show ?thesis using False by (simp add: bit_iff_odd)
qed

lemma bit_unat_u32: "bit (unat (d :: u32)) n \<longleftrightarrow> bit d n"
  by (simp add: bit_unsigned_iff bit_imp_le_length possible_bit_def)

lemma bit_uval: "bit (uval xs) n \<longleftrightarrow> n div 32 < length xs \<and> bit (xs ! (n div 32)) (n mod 32)"
proof (induction xs arbitrary: n)
  case (Cons d ds)
  show ?case
  proof (cases "n < 32")
    case True
    then show ?thesis by (simp only: uval.simps bit_low_high[OF unat_u32] if_True) (simp add: bit_unat_u32)
  next
    case False
    then obtain m where m: "n = m + 32" by (metis add.commute le_add_diff_inverse not_less)
    have "bit (uval (d # ds)) n = bit (uval ds) m"
      by (simp only: uval.simps bit_low_high[OF unat_u32] m) simp
    moreover have "n div 32 = Suc (m div 32)" "n mod 32 = m mod 32" by (simp_all add: m div_add_self2)
    ultimately show ?thesis by (simp add: Cons)
  qed
qed simp

lemma or_update: "j < length pn \<Longrightarrow> pn[i := pn ! i OR x] ! j = (if i = j then pn ! j OR x else pn ! j)" for pn :: "u32 list"
  by (simp add: nth_list_update)

lemma or_update_iff: "j < length pn \<Longrightarrow> (i = j \<longleftrightarrow> c) \<Longrightarrow> pn[i := pn ! i OR x] ! j = (if c then pn ! j OR x else pn ! j)"
  for pn :: "u32 list"
  by (auto simp: nth_list_update)

lemma shl_digits:
  assumes "n \<le> 8" "j < 8"
  shows "length (fold (shl_digit a k s) [0..<n] uint_zero) = 8 \<and>
    fold (shl_digit a k s) [0..<n] uint_zero ! j =
      ((if k \<le> j \<and> j - k < n then push_bit s (a ! (j - k)) else 0) OR
       (if s \<noteq> 0 \<and> k + 1 \<le> j \<and> j - k - 1 < n then drop_bit (32 - s) (a ! (j - k - 1)) else 0))"
  using assms(1)
proof (induction n)
  case 0
  then show ?case using assms(2) by (simp add: uint_zero_def WIDTH_def)
next
  case (Suc n)
  let ?p = "fold (shl_digit a k s) [0..<n] uint_zero"
  let ?p1 = "if n + k + 1 < WIDTH \<and> s \<noteq> 0 then ?p[n + k + 1 := ?p ! (n + k + 1) OR drop_bit (32 - s) (a ! n)] else ?p"
  from Suc have IH: "length ?p = 8" "?p ! j = ((if k \<le> j \<and> j - k < n then push_bit s (a ! (j - k)) else 0) OR
       (if s \<noteq> 0 \<and> k + 1 \<le> j \<and> j - k - 1 < n then drop_bit (32 - s) (a ! (j - k - 1)) else 0))" by simp_all
  have p1: "length ?p1 = 8" "?p1 ! j = (if j = n + k + 1 \<and> s \<noteq> 0 then ?p ! j OR drop_bit (32 - s) (a ! n) else ?p ! j)"
    using IH(1) assms(2) by (auto simp: or_update WIDTH_def)
  have step: "fold (shl_digit a k s) [0..<Suc n] uint_zero =
      (if n + k < WIDTH then ?p1[n + k := ?p1 ! (n + k) OR push_bit s (a ! n)] else ?p1)"
    by (simp add: shl_digit_def Let_def)
  have val: "fold (shl_digit a k s) [0..<Suc n] uint_zero ! j = (if j = n + k then ?p1 ! j OR push_bit s (a ! n) else ?p1 ! j)"
    unfolding step using p1(1) assms(2) by (auto simp: or_update WIDTH_def)
  have len: "length (fold (shl_digit a k s) [0..<Suc n] uint_zero) = 8" unfolding step
    by (cases "n + k < WIDTH") (simp_all only: if_True if_False length_list_update p1(1))
  consider "j = n + k" | "j = n + k + 1" | "j \<noteq> n + k" "j \<noteq> n + k + 1" by blast
  then show ?case
  proof cases
    case 1
    then show ?thesis using len val p1(2) IH(2) by (simp add: ac_simps)
  next
    case 2
    then have "?p ! j = 0" using IH(2) by simp
    then show ?thesis using 2 len val p1(2) by (cases "s = 0") simp_all
  next
    case 3
    then have "j - k < Suc n \<longleftrightarrow> j - k < n" if "k \<le> j" using that by auto
    moreover have "j - k - 1 < Suc n \<longleftrightarrow> j - k - 1 < n" if "k + 1 \<le> j" using 3 that by auto
    ultimately show ?thesis using 3 len val p1(2) IH(2) by auto
  qed
qed

lemma div_mod_32: "x = 32 * q + r \<Longrightarrow> r < 32 \<Longrightarrow> x div 32 = q \<and> x mod 32 = (r :: nat)"
  by simp

lemma shift_split:
  fixes n shift :: nat
  shows "n mod 32 \<ge> shift mod 32 \<Longrightarrow> shift \<le> n \<longleftrightarrow> shift div 32 \<le> n div 32"
    "n mod 32 \<ge> shift mod 32 \<Longrightarrow> shift \<le> n \<Longrightarrow>
      (n - shift) div 32 = n div 32 - shift div 32 \<and> (n - shift) mod 32 = n mod 32 - shift mod 32"
    "n mod 32 < shift mod 32 \<Longrightarrow> shift \<le> n \<longleftrightarrow> shift div 32 + 1 \<le> n div 32"
    "n mod 32 < shift mod 32 \<Longrightarrow> shift \<le> n \<Longrightarrow>
      (n - shift) div 32 = n div 32 - shift div 32 - 1 \<and> (n - shift) mod 32 = 32 + n mod 32 - shift mod 32"
proof -
  obtain j m k s where n: "n = 32 * j + m" "m < 32" and sh: "shift = 32 * k + s" "s < 32"
    using mult_div_mod_eq[of 32 n] mult_div_mod_eq[of 32 shift] mod_less_divisor[of 32] by (metis zero_less_numeral)
  have d: "n div 32 = j" "n mod 32 = m" "shift div 32 = k" "shift mod 32 = s" using n sh by simp_all
  show a: "shift mod 32 \<le> n mod 32 \<Longrightarrow> shift \<le> n \<longleftrightarrow> shift div 32 \<le> n div 32"
    and b: "n mod 32 < shift mod 32 \<Longrightarrow> shift \<le> n \<longleftrightarrow> shift div 32 + 1 \<le> n div 32"
    unfolding d unfolding n(1) sh(1) using n(2) sh(2) by linarith+
  show "(n - shift) div 32 = n div 32 - shift div 32 \<and> (n - shift) mod 32 = n mod 32 - shift mod 32"
    if h: "shift mod 32 \<le> n mod 32" "shift \<le> n"
    using a h unfolding d by (intro div_mod_32) (use n sh in auto)
  show "(n - shift) div 32 = n div 32 - shift div 32 - 1 \<and> (n - shift) mod 32 = 32 + n mod 32 - shift mod 32"
    if h: "n mod 32 < shift mod 32" "shift \<le> n"
    using b h unfolding d by (intro div_mod_32) (use n sh in auto)
qed

lemma uint_shl_correct:
  assumes a: "wf256 a"
  shows "uval (uint_shl a shift) = (uval a * 2 ^ shift) mod 2 ^ 256" "wf256 (uint_shl a shift)"
proof -
  let ?k = "shift div 32" and ?s = "shift mod 32" and ?r = "uint_shl a shift"
  have len: "length ?r = 8" and la: "length a = 8"
    using shl_digits[of 8 0 a ?k ?s] a by (simp_all add: uint_shl_def WIDTH_def wf256_def)
  show "wf256 ?r" using len by (simp add: wf256_def WIDTH_def)
  have dig: "bit (?r ! j) m \<longleftrightarrow> (?k \<le> j \<and> ?s \<le> m \<and> bit (a ! (j - ?k)) (m - ?s)) \<or>
      (m < ?s \<and> ?k + 1 \<le> j \<and> bit (a ! (j - ?k - 1)) (32 + m - ?s))" if j: "j < 8" and m: "m < 32" for j m
  proof -
    have r: "?r ! j = (if ?k \<le> j then push_bit ?s (a ! (j - ?k)) else 0) OR
        (if ?s \<noteq> 0 \<and> ?k + 1 \<le> j then drop_bit (32 - ?s) (a ! (j - ?k - 1)) else 0)"
      using shl_digits[of 8 j a ?k ?s] j by (auto simp: uint_shl_def WIDTH_def)
    have hi: "bit (a ! i) (32 + m - ?s) \<Longrightarrow> m < ?s" for i
      using bit_imp_le_length[of "a ! i" "32 + m - ?s"] by simp
    show ?thesis unfolding r using hi[of "j - ?k - 1"] m
      by (auto simp: bit_or_iff bit_push_bit_iff bit_drop_bit_eq possible_bit_def)
  qed
  show "uval ?r = (uval a * 2 ^ shift) mod 2 ^ 256"
  proof (rule bit_eqI)
    fix n :: nat
    have m: "n mod 32 < 32" by simp
    have rhs: "bit ((uval a * 2 ^ shift) mod 2 ^ 256) n \<longleftrightarrow> n < 256 \<and> shift \<le> n \<and> bit (uval a) (n - shift)"
      by (simp only: take_bit_eq_mod[symmetric] push_bit_eq_mult[symmetric] bit_take_bit_iff bit_push_bit_iff_nat)
    show "bit (uval ?r) n = bit ((uval a * 2 ^ shift) mod 2 ^ 256) n"
    proof (cases "n < 256")
      case False
      then have "\<not> n div 32 < 8" by simp
      then show ?thesis unfolding rhs bit_uval len using False by simp
    next
      case True
      then have j: "n div 32 < 8" by simp
      show ?thesis
      proof (cases "?s \<le> n mod 32")
        case le: True
        then show ?thesis unfolding rhs bit_uval len la dig[OF j m]
          using True j shift_split(1,2)[OF le] by auto
      next
        case False
        then have lt: "n mod 32 < ?s" by simp
        then show ?thesis unfolding rhs bit_uval len la dig[OF j m]
          using True j shift_split(3,4)[OF lt] by auto
      qed
    qed
  qed
qed

lemma shr_digit_nth:
  assumes "length p = 8" "j < 8"
  shows "length (shr_digit a k s n p) = 8"
    "shr_digit a k s n p ! j = p ! j OR (if s \<noteq> 0 \<and> n = j + k + 1 then push_bit (32 - s) (a ! n) else 0) OR
       (if n = j + k then drop_bit s (a ! n) else 0)"
proof -
  define p1 where "p1 = (if k + 1 \<le> n \<and> s \<noteq> 0 then p[n - k - 1 := p ! (n - k - 1) OR push_bit (32 - s) (a ! n)] else p)"
  have D: "shr_digit a k s n p = (if k \<le> n then p1[n - k := p1 ! (n - k) OR drop_bit s (a ! n)] else p1)"
    by (simp only: shr_digit_def p1_def Let_def)
  have l1: "length p1 = 8" using assms(1) by (simp add: p1_def)
  have n1: "p1 ! j = (if s \<noteq> 0 \<and> n = j + k + 1 then p ! j OR push_bit (32 - s) (a ! n) else p ! j)"
  proof (cases "k + 1 \<le> n \<and> s \<noteq> 0")
    case True
    then have "n - k - 1 = j \<longleftrightarrow> s \<noteq> 0 \<and> n = j + k + 1" by auto
    then show ?thesis unfolding p1_def if_P[OF True] by (intro or_update_iff) (simp_all only: assms)
  qed (auto simp: p1_def)
  have n2: "shr_digit a k s n p ! j = (if n = j + k then p1 ! j OR drop_bit s (a ! n) else p1 ! j)"
  proof (cases "k \<le> n")
    case True
    then have "n - k = j \<longleftrightarrow> n = j + k" by auto
    then show ?thesis unfolding D if_P[OF True] by (intro or_update_iff) (simp_all only: l1 assms)
  qed (auto simp: D)
  show "length (shr_digit a k s n p) = 8" using l1 by (simp add: D)
  show "shr_digit a k s n p ! j = p ! j OR (if s \<noteq> 0 \<and> n = j + k + 1 then push_bit (32 - s) (a ! n) else 0) OR
       (if n = j + k then drop_bit s (a ! n) else 0)"
    unfolding n2 n1 by (simp add: or.assoc)
qed

lemma shr_digits:
  assumes "n \<le> 8" "j < 8"
  shows "length (fold (shr_digit a k s) [0..<n] uint_zero) = 8 \<and>
    fold (shr_digit a k s) [0..<n] uint_zero ! j =
      ((if j + k < n then drop_bit s (a ! (j + k)) else 0) OR
       (if s \<noteq> 0 \<and> j + k + 1 < n then push_bit (32 - s) (a ! (j + k + 1)) else 0))"
  using assms(1)
proof (induction n)
  case 0
  then show ?case using assms(2) by (simp add: uint_zero_def WIDTH_def)
next
  case (Suc n)
  define p where "p = fold (shr_digit a k s) [0..<n] uint_zero"
  from Suc have IH: "length p = 8" "p ! j = ((if j + k < n then drop_bit s (a ! (j + k)) else 0) OR
       (if s \<noteq> 0 \<and> j + k + 1 < n then push_bit (32 - s) (a ! (j + k + 1)) else 0))" by (simp_all add: p_def)
  have step: "fold (shr_digit a k s) [0..<Suc n] uint_zero = shr_digit a k s n p" by (simp add: p_def)
  consider "n = j + k" | "n = j + k + 1" | "n \<noteq> j + k" "n \<noteq> j + k + 1" by blast
  then show ?case unfolding step shr_digit_nth(2)[OF IH(1) assms(2)]
    by cases (use shr_digit_nth(1)[OF IH(1) assms(2)] IH(2) in \<open>auto simp: less_Suc_eq ac_simps\<close>)
qed

lemma shift_add:
  fixes n shift :: nat
  shows "n mod 32 + shift mod 32 < 32 \<Longrightarrow> (n + shift) div 32 = n div 32 + shift div 32 \<and> (n + shift) mod 32 = n mod 32 + shift mod 32"
    "32 \<le> n mod 32 + shift mod 32 \<Longrightarrow>
      (n + shift) div 32 = n div 32 + shift div 32 + 1 \<and> (n + shift) mod 32 = n mod 32 + shift mod 32 - 32"
proof -
  obtain j m k s where n: "n = 32 * j + m" "m < 32" and sh: "shift = 32 * k + s" "s < 32"
    using mult_div_mod_eq[of 32 n] mult_div_mod_eq[of 32 shift] mod_less_divisor[of 32] by (metis zero_less_numeral)
  have d: "n div 32 = j" "n mod 32 = m" "shift div 32 = k" "shift mod 32 = s" using n sh by simp_all
  show "(n + shift) div 32 = n div 32 + shift div 32 \<and> (n + shift) mod 32 = n mod 32 + shift mod 32"
    if "n mod 32 + shift mod 32 < 32"
    using that unfolding d by (intro div_mod_32) (use n sh in auto)
  show "(n + shift) div 32 = n div 32 + shift div 32 + 1 \<and> (n + shift) mod 32 = n mod 32 + shift mod 32 - 32"
    if "32 \<le> n mod 32 + shift mod 32"
    using that unfolding d by (intro div_mod_32) (use n sh in auto)
qed

lemma uint_shr_correct:
  assumes a: "wf256 a"
  shows "uval (uint_shr a shift) = uval a div 2 ^ shift" "wf256 (uint_shr a shift)"
proof -
  let ?k = "shift div 32" and ?s = "shift mod 32" and ?r = "uint_shr a shift"
  have len: "length ?r = 8" and la: "length a = 8"
    using shr_digits[of 8 0 a ?k ?s] a by (simp_all add: uint_shr_def WIDTH_def wf256_def)
  show "wf256 ?r" using len by (simp add: wf256_def WIDTH_def)
  have dig: "bit (?r ! j) m \<longleftrightarrow> (j + ?k < 8 \<and> ?s + m < 32 \<and> bit (a ! (j + ?k)) (?s + m)) \<or>
      (32 \<le> ?s + m \<and> j + ?k + 1 < 8 \<and> bit (a ! (j + ?k + 1)) (?s + m - 32))" if j: "j < 8" and m: "m < 32" for j m
  proof -
    have r: "?r ! j = (if j + ?k < 8 then drop_bit ?s (a ! (j + ?k)) else 0) OR
        (if ?s \<noteq> 0 \<and> j + ?k + 1 < 8 then push_bit (32 - ?s) (a ! (j + ?k + 1)) else 0)"
      using shr_digits[of 8 j a ?k ?s] j by (auto simp: uint_shr_def WIDTH_def)
    have lo: "bit (a ! i) (?s + m) \<Longrightarrow> ?s + m < 32" for i using bit_imp_le_length[of "a ! i"] by force
    have hi: "32 - ?s \<le> m \<longleftrightarrow> 32 \<le> ?s + m" "m - (32 - ?s) = ?s + m - 32"
      using mod_less_divisor[of 32 shift] by linarith+
    show ?thesis unfolding r using lo[of "j + ?k"] m
      by (auto simp: bit_or_iff bit_push_bit_iff bit_drop_bit_eq possible_bit_def hi)
  qed
  show "uval ?r = uval a div 2 ^ shift"
  proof (rule bit_eqI)
    fix n :: nat
    have m: "n mod 32 < 32" by simp
    have rhs: "bit (uval a div 2 ^ shift) n \<longleftrightarrow> bit (uval a) (n + shift)"
      by (simp only: drop_bit_eq_div[symmetric] bit_drop_bit_eq comp_apply add.commute)
    show "bit (uval ?r) n = bit (uval a div 2 ^ shift) n"
    proof (cases "n div 32 < 8")
      case False
      then have "\<not> (n + shift) div 32 < 8" using div_le_mono[of n "n + shift" 32] by simp
      then show ?thesis unfolding rhs bit_uval len la using False by simp
    next
      case True
      show ?thesis
      proof (cases "n mod 32 + ?s < 32")
        case lt: True
        then show ?thesis unfolding rhs bit_uval len la dig[OF True m] using True shift_add(1)[OF lt]
          by (auto simp: add.commute)
      next
        case False
        then have ge: "32 \<le> n mod 32 + ?s" by simp
        then show ?thesis unfolding rhs bit_uval len la dig[OF True m] using True shift_add(2)[OF ge]
          by (auto simp: add.commute)
      qed
    qed
  qed
qed

section \<open>Bit length\<close>

lemma digit_bits_bounds:
  assumes "d \<noteq> 0" "unat d < 2 ^ Suc n"
  shows "1 \<le> digit_bits d n \<and> digit_bits d n \<le> Suc n \<and> 2 ^ (digit_bits d n - 1) \<le> unat d \<and> unat d < 2 ^ digit_bits d n"
  using assms(2)
proof (induction n)
  case 0
  then show ?case using assms(1) by (simp add: unat_gt_0 Suc_le_eq)
next
  case (Suc n)
  have step: "digit_bits d (Suc n) = (if bit d (Suc n) then Suc n + 1 else digit_bits d n)"
    by (simp only: digit_bits.simps bit_iff_and_push_bit_not_eq_0)
  show ?case
  proof (cases "bit d (Suc n)")
    case True
    then have "bit (unat d) (Suc n)" by (simp only: bit_unat_u32)
    then have o: "odd (unat d div 2 ^ Suc n)" unfolding bit_iff_odd .
    have "2 ^ Suc n \<le> unat d"
    proof (rule ccontr)
      assume "\<not> 2 ^ Suc n \<le> unat d"
      then have "unat d div 2 ^ Suc n = 0" by (intro div_less) (simp only: not_le)
      with o show False by simp
    qed
    then show ?thesis unfolding step using True Suc.prems by simp
  next
    case False
    then have b: "\<not> bit (unat d) (Suc n)" using bit_unat_u32 by blast
    have "unat d < 2 ^ Suc n"
    proof (rule ccontr)
      assume "\<not> unat d < 2 ^ Suc n"
      then have "unat d div 2 ^ Suc n = 1" using Suc.prems by (intro div_nat_eqI) simp_all
      then have "bit (unat d) (Suc n)" unfolding bit_iff_odd by simp
      with b show False ..
    qed
    from Suc.IH[OF this] show ?thesis unfolding step using False by simp
  qed
qed

lemma bits_loop_bounds:
  "uval (rev ds) < 2 ^ bits_loop ds \<and> (bits_loop ds = 0 \<longleftrightarrow> uval (rev ds) = 0) \<and>
    (uval (rev ds) \<noteq> 0 \<longrightarrow> 2 ^ (bits_loop ds - 1) \<le> uval (rev ds)) \<and> bits_loop ds \<le> 32 * length ds"
proof (induction ds)
  case (Cons d ds)
  let ?l = "32 * length ds"
  show ?case
  proof (cases "d = 0")
    case True
    then show ?thesis using Cons by (simp add: uval_append)
  next
    case False
    define B where "B = digit_bits d 31"
    have "unat d < 2 ^ Suc 31" using unat_u32[of d] by simp
    from digit_bits_bounds[OF False this] have b: "1 \<le> B" "B \<le> 32" "2 ^ (B - 1) \<le> unat d" "unat d < 2 ^ B"
      by (auto simp: B_def)
    have low: "uval (rev ds) < 2 ^ ?l" using uval_less[of "rev ds"] by simp
    have "uval (rev (d # ds)) < 2 ^ ?l * Suc (unat d)" unfolding uval_rev_Cons mult_Suc_right using low by linarith
    also have "\<dots> \<le> 2 ^ ?l * 2 ^ B" using b(4) by (intro mult_le_mono2) simp
    finally have up: "uval (rev (d # ds)) < 2 ^ (?l + B)" by (simp only: power_add)
    have "2 ^ ?l * 2 ^ (B - 1) \<le> 2 ^ ?l * unat d" using b(3) by (rule mult_le_mono2)
    also have "\<dots> \<le> uval (rev (d # ds))" unfolding uval_rev_Cons by (rule le_add2)
    finally have lo: "2 ^ (?l + (B - 1)) \<le> uval (rev (d # ds))" by (simp only: power_add)
    have "0 < (2 :: nat) ^ (?l + (B - 1))" by simp
    then have nz: "uval (rev (d # ds)) \<noteq> 0" using lo by linarith
    have D: "bits_loop (d # ds) = ?l + B" using False by (simp add: B_def)
    have "?l + B - 1 = ?l + (B - 1)" using b(1) by simp
    then show ?thesis unfolding D using up lo nz b(1,2) by simp
  qed
qed simp

lemma uint_bits_bounds:
  assumes "wf256 a"
  shows "uval a < 2 ^ uint_bits a" "uint_bits a = 0 \<longleftrightarrow> uval a = 0"
    "uval a \<noteq> 0 \<Longrightarrow> 2 ^ (uint_bits a - 1) \<le> uval a" "uint_bits a \<le> 256"
  using bits_loop_bounds[of "rev a"] assms by (simp_all add: uint_bits_def wf256_def WIDTH_def)

section \<open>Division\<close>

lemma uval_update: "j < length pn \<Longrightarrow> uval (pn[j := x]) + 2 ^ (32 * j) * unat (pn ! j) = uval pn + 2 ^ (32 * j) * unat x"
proof -
  assume j: "j < length pn"
  have "pn = take j pn @ pn ! j # drop (Suc j) pn" using j by (rule id_take_nth_drop)
  then have "uval pn = uval (take j pn) + 2 ^ (32 * j) * (unat (pn ! j) + 2 ^ 32 * uval (drop (Suc j) pn))"
    using uval_append[of "take j pn" "pn ! j # drop (Suc j) pn"] j by simp
  moreover have "pn[j := x] = take j pn @ x # drop (Suc j) pn" using j by (rule upd_conv_take_nth_drop)
  then have "uval (pn[j := x]) = uval (take j pn) + 2 ^ (32 * j) * (unat x + 2 ^ 32 * uval (drop (Suc j) pn))"
    using uval_append[of "take j pn" "x # drop (Suc j) pn"] j by simp
  ultimately show ?thesis by (simp only: distrib_left add_ac)
qed

lemma unat_set_bit:
  assumes "\<not> bit (d :: u32) m" "m < 32"
  shows "unat (d OR push_bit m 1) = unat d + 2 ^ m"
proof -
  have p: "unat (push_bit m 1 :: u32) = push_bit m 1"
    using assms(2) by (simp only: unsigned_push_bit_eq unsigned_1) (simp add: push_bit_eq_mult take_bit_nat_eq_self)
  have "unat d + push_bit m 1 = unat d OR push_bit m 1"
  proof (rule disjunctive_add)
    fix n show "\<not> bit (unat d) n \<or> \<not> bit (push_bit m 1 :: nat) n"
      using assms(1) by (auto simp: bit_unat_u32 bit_exp_iff)
  qed
  then show ?thesis unfolding unsigned_or_eq p by (simp add: push_bit_eq_mult)
qed

lemma uint_set_bit:
  assumes "wf256 pn" "n < 256" "\<not> bit (uval pn) n"
  shows "uval (pn[n div 32 := pn ! (n div 32) OR push_bit (n mod 32) 1]) = uval pn + 2 ^ n"
    "wf256 (pn[n div 32 := pn ! (n div 32) OR push_bit (n mod 32) 1])"
proof -
  let ?j = "n div 32" and ?m = "n mod 32"
  have j: "?j < length pn" using assms(1,2) by (simp add: wf256_def WIDTH_def)
  have "unat (pn ! ?j OR push_bit ?m 1) = unat (pn ! ?j) + 2 ^ ?m"
    by (rule unat_set_bit) (use assms(3) j in \<open>auto simp: bit_uval\<close>)
  then have "uval (pn[?j := pn ! ?j OR push_bit ?m 1]) + 2 ^ (32 * ?j) * unat (pn ! ?j) =
      uval pn + 2 ^ (32 * ?j) * (unat (pn ! ?j) + 2 ^ ?m)" using uval_update[OF j] by simp
  moreover have "(2 :: nat) ^ (32 * ?j) * 2 ^ ?m = 2 ^ n" by (simp add: power_add[symmetric])
  ultimately show "uval (pn[?j := pn ! ?j OR push_bit ?m 1]) = uval pn + 2 ^ n" by (simp add: distrib_left)
  show "wf256 (pn[?j := pn ! ?j OR push_bit ?m 1])" using assms(1) by (simp add: wf256_def)
qed

lemma div_loop_correct:
  assumes "wf256 num" "wf256 dv" "wf256 pn" "n \<le> 256" "0 < D"
    and "uval num < D * 2 ^ n" "0 < n \<Longrightarrow> uval dv = D * 2 ^ (n - 1)" "2 ^ n dvd uval pn"
  shows "uval (div_loop n num dv pn) = uval pn + uval num div D \<and> wf256 (div_loop n num dv pn)"
  using assms
proof (induction n arbitrary: num dv pn)
  case 0
  then show ?case by simp
next
  case (Suc n)
  have dv: "uval dv = D * 2 ^ n" using Suc.prems(7) by simp
  have shr: "uval (uint_shr dv 1) = D * 2 ^ (n - 1)" if "0 < n"
    using that uint_shr_correct(1)[OF Suc.prems(2), of 1] by (cases n) (simp_all add: dv)
  have wsh: "wf256 (uint_shr dv 1)" by (rule uint_shr_correct(2)[OF Suc.prems(2)])
  have dvd: "2 ^ n dvd uval pn" using Suc.prems(8) by (rule dvd_trans[rotated]) (simp add: le_imp_power_dvd)
  note cmp = uint_CompareTo_correct[OF Suc.prems(1,2)]
  show ?case
  proof (cases "uval dv \<le> uval num")
    case True
    let ?num = "uint_sub num dv" and ?pn = "pn[n div 32 := pn ! (n div 32) OR push_bit (n mod 32) 1]"
    have sub: "uval ?num = uval num - D * 2 ^ n" "wf256 ?num"
      using uint_sub_correct(2,3)[OF Suc.prems(1,2)] True by (simp_all add: dv)
    have "\<not> bit (uval pn) n"
      using Suc.prems(8) by (auto simp: bit_iff_odd elim!: dvdE)
    then have pn: "uval ?pn = uval pn + 2 ^ n" "wf256 ?pn" using uint_set_bit[OF Suc.prems(3), of n] Suc.prems(4) by simp_all
    have "uval (div_loop n ?num (uint_shr dv 1) ?pn) = uval ?pn + uval ?num div D \<and> wf256 (div_loop n ?num (uint_shr dv 1) ?pn)"
      by (rule Suc.IH[OF sub(2) wsh pn(2)]) (use Suc.prems(4,5,6) sub(1) shr pn(1) dvd True dv in auto)
    moreover have "uval num div D = 2 ^ n + uval ?num div D"
    proof -
      have "uval num = uval ?num + D * 2 ^ n" using sub(1) True dv by simp
      then show ?thesis using Suc.prems(5) by simp
    qed
    ultimately show ?thesis using True pn(1) by (simp add: cmp)
  next
    case False
    have "uval (div_loop n num (uint_shr dv 1) pn) = uval pn + uval num div D \<and> wf256 (div_loop n num (uint_shr dv 1) pn)"
      by (rule Suc.IH[OF Suc.prems(1) wsh Suc.prems(3)]) (use Suc.prems(4,5) shr dvd False dv in auto)
    then show ?thesis using False by (simp add: cmp)
  qed
qed

lemma uint_div_correct:
  assumes a: "wf256 a" and b: "wf256 b"
  shows "uval b = 0 \<Longrightarrow> uint_div a b = None"
    "uval b \<noteq> 0 \<Longrightarrow> \<exists>q. uint_div a b = Some q \<and> wf256 q \<and> uval q = uval a div uval b"
proof -
  note A = uint_bits_bounds[OF a] and B = uint_bits_bounds[OF b]
  show "uint_div a b = None" if "uval b = 0" using that B(2) by (simp add: uint_div_def)
  assume nz: "uval b \<noteq> 0"
  then have bz: "uint_bits b \<noteq> 0" using B(2) by simp
  show "\<exists>q. uint_div a b = Some q \<and> wf256 q \<and> uval q = uval a div uval b"
  proof (cases "uint_bits b > uint_bits a")
    case True
    have "uval a < 2 ^ uint_bits a" by (rule A(1))
    also have "\<dots> \<le> 2 ^ (uint_bits b - 1)" by (rule power_increasing) (use True in auto)
    also have "\<dots> \<le> uval b" by (rule B(3)[OF nz])
    finally show ?thesis using True bz by (simp add: uint_div_def uval_zero)
  next
    case False
    define sh where "sh = uint_bits a - uint_bits b"
    have bits: "uint_bits b + sh = uint_bits a" using False by (simp add: sh_def)
    have "uval b * 2 ^ sh < 2 ^ uint_bits b * 2 ^ sh" by (rule mult_strict_right_mono[OF B(1)]) simp
    also have "\<dots> = 2 ^ uint_bits a" by (simp only: bits power_add[symmetric])
    also have "\<dots> \<le> 2 ^ 256" by (rule power_increasing[OF A(4)]) simp
    finally have small: "uval b * 2 ^ sh < 2 ^ 256" .
    have dv: "uval (uint_shl b sh) = uval b * 2 ^ sh" "wf256 (uint_shl b sh)"
      using uint_shl_correct[OF b, of sh] small by (simp_all only: mod_less)
    have "uval a < 2 ^ (uint_bits b - 1 + Suc sh)" using A(1) bits bz by simp
    also have "\<dots> \<le> uval b * 2 ^ Suc sh" unfolding power_add by (rule mult_le_mono1[OF B(3)[OF nz]])
    finally have lt: "uval a < uval b * 2 ^ Suc sh" .
    have "uval (div_loop (Suc sh) a (uint_shl b sh) uint_zero) = uval uint_zero + uval a div uval b \<and>
        wf256 (div_loop (Suc sh) a (uint_shl b sh) uint_zero)"
      by (rule div_loop_correct[OF a dv(2) uval_zero(2)]) (use lt dv(1) nz A(4) bits bz in \<open>auto simp: uval_zero\<close>)
    then show ?thesis using False bz by (simp add: uint_div_def Let_def sh_def uval_zero)
  qed
qed

section \<open>Bytes\<close>

lemma drop_concat_words: "x \<le> length a \<Longrightarrow> drop (4 * x) (concat (map WriteLE32 a)) = concat (map WriteLE32 (drop x a))"
proof (induction x arbitrary: a)
  case (Suc x)
  then obtain d ds where "a = d # ds" by (cases a) auto
  moreover have "length (WriteLE32 d) = 4" for d by (simp add: WriteLE32_def)
  ultimately show ?case using Suc by (simp add: drop_append)
qed simp

lemma uint256_words: "wf256 a \<Longrightarrow> UintToArith256 (ArithToUint256 a) = a"
proof (rule nth_equalityI)
  assume a: "wf256 a"
  then show "length (UintToArith256 (ArithToUint256 a)) = length a" by (simp add: UintToArith256_def wf256_def)
  fix i assume "i < length (UintToArith256 (ArithToUint256 a))"
  then have i: "i < length a" "i < WIDTH" using a by (simp_all add: UintToArith256_def wf256_def)
  have "drop (4 * i) (ArithToUint256 a) = WriteLE32 (a ! i) @ concat (map WriteLE32 (drop (Suc i) a))"
    using i(1) by (simp add: ArithToUint256_def drop_concat_words Cons_nth_drop_Suc[symmetric])
  then show "UintToArith256 (ArithToUint256 a) ! i = a ! i" using i(2) by (simp add: UintToArith256_def Read_Write)
qed

lemma concat_chunks: "concat (map (\<lambda>x. take 4 (drop (4 * x) b)) [0..<n]) = take (4 * n) b"
  by (induction n) (simp_all add: take_add add.commute[of 4])

lemma uint256_bytes: "length b = 32 \<Longrightarrow> ArithToUint256 (UintToArith256 b) = b"
proof -
  assume b: "length b = 32"
  have "WriteLE32 (ReadLE32 (drop (4 * x) b)) = take 4 (drop (4 * x) b)" if "x < 8" for x
  proof -
    have "ReadLE32 (drop (4 * x) b) = ReadLE32 (take 4 (drop (4 * x) b))" by (simp add: ReadLE32_def)
    then show ?thesis using that b by (simp add: Write_Read(1))
  qed
  then have "ArithToUint256 (UintToArith256 b) = concat (map (\<lambda>x. take 4 (drop (4 * x) b)) [0..<8])"
    unfolding ArithToUint256_def UintToArith256_def WIDTH_def map_map
    by (intro arg_cong[where f = concat] map_cong refl) simp
  then show ?thesis using b by (simp only: concat_chunks) simp
qed

lemma ArithToUint256_value: "le_value (ArithToUint256 a) = uval a"
proof (induction a)
  case (Cons d ds)
  have "le_value (WriteLE32 d) = unat d" using unat_u32[of d] by (simp add: WriteLE32_def le_value_le_bytes)
  moreover have "length (WriteLE32 d) = 4" by (simp add: WriteLE32_def)
  ultimately show ?case using Cons by (simp add: ArithToUint256_def le_value_append)
qed (simp add: ArithToUint256_def)

lemma UintToArith256_value: "length b = 32 \<Longrightarrow> uval (UintToArith256 b) = le_value b" "wf256 (UintToArith256 b)"
  using ArithToUint256_value[of "UintToArith256 b"] uint256_bytes[of b] by (simp_all add: wf256_def UintToArith256_def)

section \<open>The compact encoding\<close>

lemma uval_of_u64: "uval (uint_of_u64 b) = unat b" "wf256 (uint_of_u64 b)"
proof -
  have "unat (ucast b :: u32) = unat b mod 2 ^ 32"
    by (simp only: unsigned_ucast_eq take_bit_eq_mod) (simp only: len_num1 len_bit0 len_bit1 mult_1_right, simp)
  moreover have "unat (ucast (drop_bit 32 b) :: u32) = unat b div 2 ^ 32"
  proof -
    have "unat b < 2 ^ 32 * 2 ^ 32" using unat_lt[of b] by simp
    then have "unat b div 2 ^ 32 < 2 ^ 32" by (rule less_mult_imp_div_less[OF _]) 
    then show ?thesis by (simp only: unsigned_ucast_eq high_half) (simp add: take_bit_nat_eq_self)
  qed
  ultimately show "uval (uint_of_u64 b) = unat b"
    by (simp only: uint_of_u64_def uval.simps uval_replicate_0 mult_0_right add_0_right mod_mult_div_eq)
  show "wf256 (uint_of_u64 b)" by (simp add: uint_of_u64_def wf256_def WIDTH_def)
qed

lemma or_disjoint:
  assumes "(a :: nat) < 2 ^ m"
  shows "a OR 2 ^ m * b = a + 2 ^ m * b"
proof (rule sym, rule disjunctive_add)
  fix n
  have "bit (2 ^ m * b) n \<longleftrightarrow> m \<le> n \<and> bit b (n - m)"
    using bit_low_high[of 0 m b n] by (simp add: not_less)
  moreover have "bit a n \<Longrightarrow> n < m" using bit_low_high[OF assms, of 0 n] by (cases "n < m") simp_all
  ultimately show "\<not> bit a n \<or> \<not> bit (2 ^ m * b) n" by auto
qed

lemma uint_GetLow64_correct: "wf256 a \<Longrightarrow> unat (uint_GetLow64 a) = uval a mod 2 ^ 64"
proof -
  assume "wf256 a"
  then obtain x y zs where a: "a = x # y # zs" by (cases a; cases "tl a") (auto simp: wf256_def WIDTH_def)
  have shift: "unat (push_bit 32 (ucast y :: u64)) = 2 ^ 32 * unat y"
  proof -
    have "push_bit 32 (unat y) < 2 ^ 64" unfolding push_bit_eq_mult using unat_u32[of y] by simp
    then show ?thesis by (simp only: unsigned_push_bit_eq unat_ucast_u64) (simp add: take_bit_nat_eq_self push_bit_eq_mult)
  qed
  have "unat x OR 2 ^ 32 * unat y = unat x + 2 ^ 32 * unat y" by (rule or_disjoint[OF unat_u32])
  then have "unat (uint_GetLow64 a) = unat x + 2 ^ 32 * unat y"
    by (simp only: uint_GetLow64_def a nth_Cons_0 One_nat_def nth_Cons_Suc unsigned_or_eq unat_ucast_u64 shift)
  moreover have "uval a = (unat x + 2 ^ 32 * unat y) + 2 ^ 64 * uval zs"
  proof -
    have "(2 :: nat) ^ 64 = 2 ^ 32 * 2 ^ 32" by simp
    then show ?thesis by (simp only: a uval.simps distrib_left mult.assoc add.assoc)
  qed
  moreover have "unat x + 2 ^ 32 * unat y < 2 ^ 64"
    using unat_u32[of x] unat_u32[of y] by simp
  ultimately show ?thesis by (simp only: mod_mult_self2 mod_less)
qed

text \<open>Reading the fields of a compact word.\<close>

lemma compact_mask: "unat (c AND 0x007fffff :: u32) = unat c mod 2 ^ 23"
proof -
  have "(0x007fffff :: u32) = mask 23" by (simp add: mask_eq_exp_minus_1)
  then have "unat (c AND 0x007fffff) = take_bit 23 (unat c)"
    by (simp only: take_bit_eq_mask[symmetric] unsigned_take_bit_eq)
  then show ?thesis by (simp only: take_bit_eq_mod)
qed

lemma compact_sign: "(c AND 0x00800000 :: u32) \<noteq> 0 \<longleftrightarrow> odd (unat c div 2 ^ 23)"
proof -
  have "(0x00800000 :: u32) = 2 ^ 23" by simp
  then have "c AND 0x00800000 = 0 \<longleftrightarrow> \<not> bit c 23" by (simp only: and_exp_eq_0_iff_not_bit)
  then show ?thesis by (simp only: bit_unat_u32[symmetric] bit_iff_odd) blast
qed

lemma compact_fits: "(c AND NOT 0x007fffff :: u32) = 0 \<longleftrightarrow> unat c < 2 ^ 23"
proof -
  have "(0x007fffff :: u32) = mask 23" by (simp add: mask_eq_exp_minus_1)
  then have "c AND NOT 0x007fffff = 0 \<longleftrightarrow> take_bit 23 c = c"
    by (simp only: bit_eq_iff bit_and_iff bit_not_iff bit_mask_iff bit_take_bit_iff bit_0_eq bot_apply) (auto dest: bit_imp_possible_bit)
  also have "\<dots> \<longleftrightarrow> take_bit 23 (unat c) = unat c"
    by (simp only: word_unat_eq_iff unsigned_take_bit_eq)
  also have "\<dots> \<longleftrightarrow> unat c < 2 ^ 23" by (rule take_bit_nat_eq_self_iff)
  finally show ?thesis .
qed

lemma compact_join:
  assumes "unat c < 2 ^ 23" "S < 256"
  shows "unat (c OR push_bit 24 (of_nat S) :: u32) = unat c + 2 ^ 24 * S"
proof -
  have S: "push_bit 24 S = 2 ^ 24 * S" by (simp only: push_bit_eq_mult mult.commute)
  have "2 ^ 24 * S < 2 ^ 32" using assms(2) by simp
  then have t: "take_bit LENGTH(32) (2 ^ 24 * S) = 2 ^ 24 * S" by (simp add: take_bit_nat_eq_self)
  have "unat (of_nat S :: u32) = S" using assms(2) by (simp add: unat_of_nat)
  then have "unat (push_bit 24 (of_nat S) :: u32) = 2 ^ 24 * S" by (simp only: unsigned_push_bit_eq S t)
  moreover have "unat c < 2 ^ 24" by (rule less_trans[OF assms(1)]) simp
  ultimately show ?thesis by (simp only: unsigned_or_eq or_disjoint)
qed

text \<open>The number a compact word stands for: mantissa times a power of 256.\<close>

definition compact_value :: "nat \<Rightarrow> nat \<Rightarrow> nat" where
  "compact_value m s = (if s \<le> 3 then m div 256 ^ (3 - s) else m * 256 ^ (s - 3))"

lemma compact_fields:
  fixes c :: u32
  assumes "unat c = m + 2 ^ 24 * s" "m < 2 ^ 24"
  shows "unat (drop_bit 24 c) = s" "unat (c AND 0x007fffff) = m mod 2 ^ 23" "(c AND 0x00800000 \<noteq> 0) = (m \<ge> 2 ^ 23)"
proof -
  show "unat (drop_bit 24 c) = s"
    using assms by (simp only: unat_drop_bit_eq) (simp only: drop_bit_eq_div div_mult_self2, simp)
  have e: "m + 2 ^ 24 * s = m + 2 ^ 23 * (2 * s)" by simp
  then show "unat (c AND 0x007fffff) = m mod 2 ^ 23"
    by (simp only: compact_mask assms(1) mod_mult_self2)
  have "(m + 2 ^ 23 * (2 * s)) div 2 ^ 23 = 2 * s + m div 2 ^ 23" by (rule div_mult_self2) simp
  moreover have "m div 2 ^ 23 < 2" using assms(2) by (simp add: less_mult_imp_div_less)
  moreover have "m div 2 ^ 23 > 0 \<longleftrightarrow> m \<ge> 2 ^ 23" by (simp only: div_greater_zero_iff) simp
  ultimately show "(c AND 0x00800000 \<noteq> 0) = (m \<ge> 2 ^ 23)"
    unfolding compact_sign assms(1) e by (cases "m div 2 ^ 23 = 0") (simp_all only: even_add even_mult_iff, auto)
qed

lemma SetCompact_fields:
  fixes c :: u32
  assumes c: "unat c = m + 2 ^ 24 * s" "m < 2 ^ 23"
  shows "uval (cr_value (SetCompact c)) = compact_value m s mod 2 ^ 256" "wf256 (cr_value (SetCompact c))"
    "\<not> cr_negative (SetCompact c)"
    "m < 2 ^ 16 \<or> s \<le> 32 \<Longrightarrow> s \<le> 33 \<Longrightarrow> \<not> cr_overflow (SetCompact c)"
proof -
  have m: "m < 2 ^ 24" using c(2) by simp
  note f = compact_fields[OF c(1) m]
  have w: "unat (c AND 0x007fffff) = m" using f(2) c(2) by (simp only: mod_less)
  have d: "unat (drop_bit k (c AND 0x007fffff)) = m div 2 ^ k" for k
    by (simp only: unat_drop_bit_eq w) (simp only: drop_bit_eq_div)
  have e: "(256 :: nat) ^ k = 2 ^ (8 * k)" for k by (simp only: power_mult) simp
  have "m div k < 2 ^ 256" for k by (rule le_less_trans[OF div_le_dividend less_trans[OF m]]) simp
  then show "uval (cr_value (SetCompact c)) = compact_value m s mod 2 ^ 256" "wf256 (cr_value (SetCompact c))"
    by (cases "s \<le> 3"; simp only: SetCompact_def Let_def f(1) compact_result.simps compact_value_def e if_True if_False
        uval_of_u64 unat_ucast_u64 d w uint_shl_correct[OF uval_of_u64(2)] mod_less simp_thms)+
  show "\<not> cr_negative (SetCompact c)"
    using c(2) f(3) by (simp only: SetCompact_def Let_def compact_result.simps) simp
  assume s: "m < 2 ^ 16 \<or> s \<le> 32" "s \<le> 33"
  have "\<not> (0xffff < (c AND 0x007fffff))" if "m < 2 ^ 16"
    using that w by (simp add: word_less_nat_alt)
  then show "\<not> cr_overflow (SetCompact c)"
    using s by (simp only: SetCompact_def Let_def compact_result.simps f(1)) auto
qed

text \<open>The mantissa and size GetCompact picks for a number of S significant bytes.\<close>

definition compact_mantissa :: "nat \<Rightarrow> nat \<Rightarrow> nat" where
  "compact_mantissa S x = (if S \<le> 3 then x * 256 ^ (3 - S) else x div 256 ^ (S - 3))"

definition compact_parts :: "nat \<Rightarrow> nat \<Rightarrow> nat \<times> nat" where
  "compact_parts S x =
     (if compact_mantissa S x \<ge> 2 ^ 23 then (compact_mantissa S x div 256, S + 1) else (compact_mantissa S x, S))"

definition bytes_of :: "nat \<Rightarrow> nat \<Rightarrow> bool" where
  "bytes_of S x \<longleftrightarrow> x < 256 ^ S \<and> (S \<noteq> 0 \<longrightarrow> 256 ^ (S - 1) \<le> x)"

lemma bytes_of_bits: "wf256 a \<Longrightarrow> bytes_of ((uint_bits a + 7) div 8) (uval a)" "wf256 a \<Longrightarrow> (uint_bits a + 7) div 8 \<le> 32"
proof -
  assume a: "wf256 a"
  let ?b = "uint_bits a" and ?S = "(uint_bits a + 7) div 8"
  note b = uint_bits_bounds[OF a]
  show "?S \<le> 32" using b(4) by linarith
  have "?b \<le> 8 * ?S" by linarith
  then have "(2 :: nat) ^ ?b \<le> 2 ^ (8 * ?S)" by (rule power_increasing) simp
  then have 1: "uval a < 256 ^ ?S" using b(1) by (simp only: power_mult) simp
  have 2: "256 ^ (?S - 1) \<le> uval a" if "?S \<noteq> 0"
  proof -
    have "8 * (?S - 1) \<le> ?b - 1" using that by linarith
    then have "(2 :: nat) ^ (8 * (?S - 1)) \<le> 2 ^ (?b - 1)" by (rule power_increasing) simp
    moreover have "uval a \<noteq> 0" using that b(2) by auto
    ultimately show ?thesis using b(3) by (simp only: power_mult) simp
  qed
  show "bytes_of ?S (uval a)" using 1 2 by (simp only: bytes_of_def) blast
qed

lemma bytes_of_unique:
  assumes "bytes_of S x" "bytes_of T x"
  shows "S = T"
proof -
  have "S \<le> T" if "bytes_of S x" "bytes_of T x" for S T
  proof (rule ccontr)
    assume "\<not> S \<le> T"
    then have "T \<le> S - 1" "S \<noteq> 0" by auto
    then have "(256 :: nat) ^ T \<le> 256 ^ (S - 1)" by (intro power_increasing) simp_all
    with that \<open>S \<noteq> 0\<close> show False unfolding bytes_of_def by linarith
  qed
  with assms show ?thesis by (simp add: le_antisym)
qed

lemma compact_mantissa_bound:
  assumes "bytes_of S x"
  shows "compact_mantissa S x < 2 ^ 24" "S \<noteq> 0 \<Longrightarrow> 2 ^ 16 \<le> compact_mantissa S x"
proof -
  have x: "x < 256 ^ S" and l: "S \<noteq> 0 \<Longrightarrow> 256 ^ (S - 1) \<le> x" using assms by (simp_all add: bytes_of_def)
  show "compact_mantissa S x < 2 ^ 24"
  proof (cases "S \<le> 3")
    case True
    have "x * 256 ^ (3 - S) < 256 ^ S * 256 ^ (3 - S)" by (rule mult_strict_right_mono[OF x]) simp
    then show ?thesis using True by (simp add: compact_mantissa_def power_add[symmetric])
  next
    case False
    then have "(256 :: nat) ^ S = 256 ^ 3 * 256 ^ (S - 3)" by (simp only: power_add[symmetric]) simp
    then show ?thesis using x False less_mult_imp_div_less[of x "256 ^ 3" "256 ^ (S - 3)"] by (simp add: compact_mantissa_def)
  qed
  assume S: "S \<noteq> 0"
  show "2 ^ 16 \<le> compact_mantissa S x"
  proof (cases "S \<le> 3")
    case True
    have "(256 :: nat) ^ (S - 1) * 256 ^ (3 - S) \<le> x * 256 ^ (3 - S)" by (rule mult_right_mono[OF l[OF S]]) simp
    moreover have "S - 1 + (3 - S) = 2" using True S by simp
    ultimately show ?thesis using True by (simp add: compact_mantissa_def power_add[symmetric])
  next
    case False
    then have "S - 1 = 2 + (S - 3)" by arith
    then have "(256 :: nat) ^ (S - 1) = 256 ^ 2 * 256 ^ (S - 3)" by (simp only: power_add)
    then have "256 ^ 2 * 256 ^ (S - 3) div 256 ^ (S - 3) \<le> x div 256 ^ (S - 3)" using l[OF S] by (simp only: div_le_mono)
    then show ?thesis using False by (simp add: compact_mantissa_def)
  qed
qed

lemma GetCompact_mantissa:
  assumes a: "wf256 a" and S: "S = (uint_bits a + 7) div 8"
  shows "unat (if S \<le> 3 then ucast (push_bit (8 * (3 - S)) (uint_GetLow64 a))
               else ucast (uint_GetLow64 (uint_shr a (8 * (S - 3)))) :: u32) = compact_mantissa S (uval a)"
proof -
  have e: "(256 :: nat) ^ k = 2 ^ (8 * k)" for k by (simp only: power_mult) simp
  have M: "compact_mantissa S (uval a) < 2 ^ 24" unfolding S by (rule compact_mantissa_bound(1)[OF bytes_of_bits(1)[OF a]])
  then have M32: "compact_mantissa S (uval a) < 2 ^ 32" and M64: "compact_mantissa S (uval a) < 2 ^ 64" by simp_all
  have cut: "unat (ucast w :: u32) = v" if "unat w = v" "v < 2 ^ 32" for w :: u64 and v
    using that by (simp add: unsigned_ucast_eq take_bit_nat_eq_self)
  show ?thesis
  proof (cases "S \<le> 3")
    case True
    then have m: "compact_mantissa S (uval a) = uval a * 2 ^ (8 * (3 - S))" by (simp only: compact_mantissa_def e if_True)
    have "uval a \<le> uval a * 2 ^ (8 * (3 - S))" by simp
    then have "uval a < 2 ^ 64" using M64 unfolding m by linarith
    then have "unat (uint_GetLow64 a) = uval a" by (simp only: uint_GetLow64_correct[OF a] mod_less)
    then have "unat (push_bit (8 * (3 - S)) (uint_GetLow64 a)) = take_bit LENGTH(64) (uval a * 2 ^ (8 * (3 - S)))"
      by (simp only: unsigned_push_bit_eq) (simp only: push_bit_eq_mult)
    also have "\<dots> = uval a * 2 ^ (8 * (3 - S))" using M64 unfolding m by (simp add: take_bit_nat_eq_self)
    finally show ?thesis using True cut M32 by (simp only: m if_True)
  next
    case False
    then have m: "compact_mantissa S (uval a) = uval a div 2 ^ (8 * (S - 3))" by (simp only: compact_mantissa_def e if_False)
    have "unat (uint_GetLow64 (uint_shr a (8 * (S - 3)))) = uval a div 2 ^ (8 * (S - 3))"
      using M64 unfolding m by (simp only: uint_GetLow64_correct[OF uint_shr_correct(2)[OF a]] uint_shr_correct(1)[OF a] mod_less)
    then show ?thesis using False cut M32 by (simp only: m if_False)
  qed
qed

lemma compact_parts_bound:
  assumes "bytes_of S x" "S \<le> 32"
  shows "fst (compact_parts S x) < 2 ^ 23" "snd (compact_parts S x) \<le> 33"
    "fst (compact_parts S x) < 2 ^ 16 \<or> snd (compact_parts S x) \<le> 32"
proof -
  have "compact_mantissa S x div 256 < 2 ^ 16"
    using compact_mantissa_bound(1)[OF assms(1)] by (simp add: less_mult_imp_div_less)
  then show "fst (compact_parts S x) < 2 ^ 23" "snd (compact_parts S x) \<le> 33"
    "fst (compact_parts S x) < 2 ^ 16 \<or> snd (compact_parts S x) \<le> 32"
    using assms(2) by (simp_all add: compact_parts_def)
qed

lemma GetCompact_parts:
  assumes a: "wf256 a" and S: "S = (uint_bits a + 7) div 8"
  shows "\<exists>c. GetCompact a False = Some c \<and>
    unat c = fst (compact_parts S (uval a)) + 2 ^ 24 * snd (compact_parts S (uval a))"
proof -
  note sz = bytes_of_bits[OF a, folded S]
  define w :: u32 where "w = (if S \<le> 3 then ucast (push_bit (8 * (3 - S)) (uint_GetLow64 a))
               else ucast (uint_GetLow64 (uint_shr a (8 * (S - 3)))))"
  have w: "unat w = compact_mantissa S (uval a)" unfolding w_def by (rule GetCompact_mantissa[OF a S])
  have "unat w = unat w + 2 ^ 24 * 0" by simp
  then have sg: "(w AND 0x00800000 \<noteq> 0) = (unat w \<ge> 2 ^ 23)"
    using compact_fields(3)[of w "unat w" 0] compact_mantissa_bound(1)[OF sz(1)] unfolding w by blast
  define v T where "v = (if unat w \<ge> 2 ^ 23 then drop_bit 8 w else w)" and "T = (if unat w \<ge> 2 ^ 23 then S + 1 else S)"
  have "unat (drop_bit 8 w) = unat w div 2 ^ 8" by (simp only: unat_drop_bit_eq) (simp only: drop_bit_eq_div)
  then have v: "unat v = fst (compact_parts S (uval a))" and T: "T = snd (compact_parts S (uval a))"
    by (simp_all add: v_def T_def compact_parts_def w)
  have v23: "unat v < 2 ^ 23" and T33: "T < 256" using compact_parts_bound[OF sz] v T by simp_all
  have "GetCompact a False = Some (v OR push_bit 24 (of_nat T))"
    unfolding GetCompact_def Let_def S[symmetric] w_def[symmetric] sg
    using v23 T33 compact_fits[of v] by (auto simp add: v_def T_def split: if_splits)
  then show ?thesis using compact_join[OF v23 T33] v T by simp
qed

lemma compact_mantissa_3: "3 \<le> S \<Longrightarrow> compact_mantissa S x = x div 256 ^ (S - 3)"
  by (simp add: compact_mantissa_def)

lemma compact_parts_value:
  "compact_value (fst (compact_parts S x)) (snd (compact_parts S x)) =
    x div 256 ^ (snd (compact_parts S x) - 3) * 256 ^ (snd (compact_parts S x) - 3)"
proof (cases "3 \<le> S")
  case True
  have "x div 256 ^ (S - 3) div 256 = x div 256 ^ (S - 2)"
  proof -
    have "S - 2 = (S - 3) + 1" using True by arith
    then show ?thesis by (simp only: power_add power_one_right div_mult2_eq)
  qed
  then show ?thesis using True by (simp add: compact_parts_def compact_mantissa_3 compact_value_def)
next
  case False
  have "x * 256 ^ (3 - S) div 256 div 256 ^ (2 - S) = x"
  proof -
    have "3 - S = (2 - S) + 1" using False by arith
    then have "x * 256 ^ (3 - S) = x * 256 ^ (2 - S) * 256" by (simp only: power_add power_one_right mult.assoc)
    then show ?thesis by (simp only: nonzero_mult_div_cancel_right) simp
  qed
  then show ?thesis using False by (auto simp: compact_parts_def compact_mantissa_def compact_value_def numeral_2_eq_2 numeral_3_eq_3)
qed

lemma floor_multiple:
  assumes "256 ^ k \<le> x" "e \<le> k"
  shows "256 ^ k \<le> x div 256 ^ e * (256 ^ e :: nat)"
proof -
  have "(256 :: nat) ^ k = 256 ^ (k - e) * 256 ^ e" using assms(2) by (simp add: power_add[symmetric])
  moreover from this have "256 ^ (k - e) \<le> x div 256 ^ e" using assms(1) by (simp add: less_eq_div_iff_mult_less_eq)
  ultimately show ?thesis by simp
qed

lemma compact_parts_floor:
  assumes x: "bytes_of S x" and e: "e = snd (compact_parts S x) - 3" and y: "y = x div 256 ^ e * 256 ^ e"
  shows "bytes_of S y" "compact_parts S y = compact_parts S x"
proof -
  have "bytes_of S y \<and> compact_parts S y = compact_parts S x"
  proof (cases "e = 0")
    case True
    then show ?thesis using x y by simp
  next
    case False
    then have S: "3 \<le> S" using e by (auto simp: compact_parts_def split: if_splits)
    have eS: "e \<le> S - 1" "S - 3 \<le> e" "e = S - 3 \<or> e = S - 2"
      using e S by (auto simp: compact_parts_def split: if_splits)
    have "y \<le> x" unfolding y by (rule div_times_less_eq_dividend)
    moreover have "256 ^ (S - 1) \<le> y" unfolding y using x S eS(1) by (intro floor_multiple) (simp_all add: bytes_of_def)
    ultimately have b: "bytes_of S y" using x by (auto simp: bytes_of_def)
    let ?M = "x div 256 ^ (S - 3)"
    have "compact_parts S y = compact_parts S x"
    proof (cases "?M \<ge> 2 ^ 23")
      case True
      then have e2: "e = (S - 3) + 1" using e S by (simp add: compact_parts_def compact_mantissa_3)
      have "y = ?M div 256 * 256 * 256 ^ (S - 3)"
        unfolding y e2 power_add power_one_right div_mult2_eq by (simp only: mult_ac)
      then have "y div 256 ^ (S - 3) = ?M div 256 * 256" by simp
      moreover have "?M div 256 * 256 \<ge> 2 ^ 23" using True by simp
      ultimately show ?thesis using True S by (simp add: compact_parts_def compact_mantissa_3)
    next
      case False
      then have "e = S - 3" using e S by (simp add: compact_parts_def compact_mantissa_3)
      then have "y div 256 ^ (S - 3) = ?M" using y by simp
      then show ?thesis using S by (simp add: compact_parts_def compact_mantissa_3)
    qed
    with b show ?thesis by blast
  qed
  then show "bytes_of S y" "compact_parts S y = compact_parts S x" by simp_all
qed

lemma compact_loss:
  assumes "bytes_of S x"
  shows "2 ^ 15 * (x - x div 256 ^ (snd (compact_parts S x) - 3) * 256 ^ (snd (compact_parts S x) - 3)) \<le> x"
proof (cases "snd (compact_parts S x) \<le> 3")
  case False
  define e where "e = snd (compact_parts S x) - 3"
  have S: "3 \<le> S" using False by (auto simp: compact_parts_def split: if_splits)
  have "2 ^ 15 * 256 ^ e \<le> x"
  proof (cases "compact_mantissa S x \<ge> 2 ^ 23")
    case True
    then have "2 ^ 23 * 256 ^ (S - 3) \<le> x" using S by (simp add: compact_mantissa_3 less_eq_div_iff_mult_less_eq)
    moreover have "256 ^ e = 256 * (256 :: nat) ^ (S - 3)"
      using True S unfolding e_def by (simp add: compact_parts_def power_Suc[symmetric] Suc_diff_le del: power_Suc)
    ultimately show ?thesis by simp
  next
    case False
    then have "e = S - 3" by (simp add: e_def compact_parts_def)
    moreover have "2 ^ 16 \<le> x div 256 ^ (S - 3)" using compact_mantissa_bound(2)[OF assms] S by (simp add: compact_mantissa_3)
    ultimately have "2 ^ 16 * 256 ^ e \<le> x" by (simp add: less_eq_div_iff_mult_less_eq)
    then show ?thesis by simp
  qed
  moreover have "x - x div 256 ^ e * 256 ^ e \<le> 256 ^ e" by (simp add: minus_div_mult_eq_mod less_imp_le)
  ultimately show ?thesis unfolding e_def by (meson mult_le_mono2 le_trans)
qed simp

lemma compact_overflow_iff:
  assumes "m < 2 ^ 23"
  shows "m \<noteq> 0 \<and> (s > 34 \<or> m > 255 \<and> s > 33 \<or> m > 65535 \<and> s > 32) \<longleftrightarrow> 256 ^ 32 \<le> compact_value m s"
proof -
  consider "s \<le> 3" | "3 < s" "s \<le> 32" | "s = 33" | "s = 34" | "34 < s" by linarith
  then show ?thesis
  proof cases
    case 1
    then have "compact_value m s \<le> m" by (simp add: compact_value_def)
    moreover have "m < 256 ^ 32" using assms by simp
    ultimately show ?thesis using 1 by linarith
  next
    case 2
    have "m < 256 ^ 3" using assms by simp
    then have "m * 256 ^ (s - 3) < 256 ^ 3 * 256 ^ (s - 3)" by (rule mult_strict_right_mono) simp
    also have "\<dots> = 256 ^ s" using 2 by (simp only: power_add[symmetric]) simp
    also have "\<dots> \<le> 256 ^ 32" using 2 by (intro power_increasing) simp_all
    finally show ?thesis using 2 by (simp add: compact_value_def)
  next
    case 5
    then have "(256 :: nat) ^ 32 \<le> 256 ^ (s - 3)" by (intro power_increasing) simp_all
    then have "1 * 256 ^ 32 \<le> m * 256 ^ (s - 3)" if "m \<noteq> 0" using that by (intro mult_le_mono) simp_all
    then have "m \<noteq> 0 \<longleftrightarrow> 256 ^ 32 \<le> m * 256 ^ (s - 3)" by (cases "m = 0") auto
    then show ?thesis using 5 by (simp add: compact_value_def)
  qed (simp_all add: compact_value_def, linarith+)
qed

lemma SetCompact_all:
  fixes c :: u32
  defines "m \<equiv> unat c mod 2 ^ 23" and "s \<equiv> unat c div 2 ^ 24"
  shows "wf256 (cr_value (SetCompact c))" "uval (cr_value (SetCompact c)) = compact_value m s mod 2 ^ 256"
    "cr_overflow (SetCompact c) = (2 ^ 256 \<le> compact_value m s)"
    "cr_negative (SetCompact c) = (odd (unat c div 2 ^ 23) \<and> (if s \<le> 3 then compact_value m s else m) \<noteq> 0)"
proof -
  have S: "unat (drop_bit 24 c) = s" unfolding s_def by (simp only: unat_drop_bit_eq) (simp only: drop_bit_eq_div)
  have w: "unat (c AND 0x007fffff) = m" unfolding m_def by (rule compact_mask)
  have m: "m < 2 ^ 23" by (simp add: m_def)
  have d: "unat (drop_bit k (c AND 0x007fffff)) = m div 2 ^ k" for k
    by (simp only: unat_drop_bit_eq w) (simp only: drop_bit_eq_div)
  have e: "(256 :: nat) ^ k = 2 ^ (8 * k)" for k by (simp only: power_mult) simp
  have "m div k < 2 ^ 256" for k by (rule le_less_trans[OF div_le_dividend less_trans[OF m]]) simp
  then show "uval (cr_value (SetCompact c)) = compact_value m s mod 2 ^ 256" "wf256 (cr_value (SetCompact c))"
    by (cases "s \<le> 3"; simp only: SetCompact_def Let_def S compact_result.simps compact_value_def e if_True if_False
        uval_of_u64 unat_ucast_u64 d w uint_shl_correct[OF uval_of_u64(2)] mod_less simp_thms)+
  let ?w = "if s \<le> 3 then drop_bit (8 * (3 - s)) (c AND 0x007fffff) else c AND 0x007fffff"
  have W: "unat ?w = (if s \<le> 3 then compact_value m s else m)"
    by (cases "s \<le> 3"; simp only: d w compact_value_def e if_True if_False)
  have nz: "?w \<noteq> 0 \<longleftrightarrow> (if s \<le> 3 then compact_value m s else m) \<noteq> 0"
    unfolding W[symmetric] by (simp only: unat_eq_zero)
  show "cr_negative (SetCompact c) = (odd (unat c div 2 ^ 23) \<and> (if s \<le> 3 then compact_value m s else m) \<noteq> 0)"
    by (simp only: SetCompact_def Let_def compact_result.simps S nz compact_sign) blast
  have "cr_overflow (SetCompact c) \<longleftrightarrow> m \<noteq> 0 \<and> (s > 34 \<or> m > 255 \<and> s > 33 \<or> m > 65535 \<and> s > 32)"
  proof (cases "s \<le> 3")
    case False
    have "c AND 0x007fffff \<noteq> 0 \<longleftrightarrow> m \<noteq> 0" "c AND 0x007fffff > k \<longleftrightarrow> m > unat k" for k
      unfolding w[symmetric] by (simp only: unat_eq_zero, rule word_less_nat_alt)
    then show ?thesis using False by (simp only: SetCompact_def Let_def compact_result.simps S if_False) simp
  qed (simp only: SetCompact_def Let_def compact_result.simps S, simp)
  also have "\<dots> \<longleftrightarrow> 256 ^ 32 \<le> compact_value m s" by (rule compact_overflow_iff[OF m])
  finally show "cr_overflow (SetCompact c) = (2 ^ 256 \<le> compact_value m s)" by (simp only: e) simp
qed

lemma GetCompact_SetCompact:
  assumes a: "wf256 a"
  shows "\<exists>c e. GetCompact a False = Some c \<and> \<not> cr_negative (SetCompact c) \<and> \<not> cr_overflow (SetCompact c) \<and>
    uval (cr_value (SetCompact c)) = uval a div 256 ^ e * 256 ^ e \<and>
    2 ^ 15 * (uval a - uval (cr_value (SetCompact c))) \<le> uval a \<and>
    GetCompact (cr_value (SetCompact c)) False = Some c"
proof -
  define S where "S = (uint_bits a + 7) div 8"
  define e where "e = snd (compact_parts S (uval a)) - 3"
  note sz = bytes_of_bits[OF a, folded S_def]
  note pb = compact_parts_bound[OF sz]
  obtain c where c: "GetCompact a False = Some c" "unat c = fst (compact_parts S (uval a)) + 2 ^ 24 * snd (compact_parts S (uval a))"
    using GetCompact_parts[OF a S_def] by blast
  note sc = SetCompact_fields[OF c(2) pb(1)]
  let ?y = "uval a div 256 ^ e * 256 ^ e"
  have "?y \<le> uval a" by (rule div_times_less_eq_dividend)
  then have "?y < 2 ^ 256" using uval_256[OF a] by (rule le_less_trans)
  then have y: "uval (cr_value (SetCompact c)) = ?y"
    using sc(1) by (simp only: compact_parts_value e_def[symmetric] mod_less)
  note fl = compact_parts_floor[OF sz(1) e_def refl]
  obtain c' where c': "GetCompact (cr_value (SetCompact c)) False = Some c'"
      "unat c' = fst (compact_parts S ?y) + 2 ^ 24 * snd (compact_parts S ?y)"
    using GetCompact_parts[OF sc(2) refl] bytes_of_unique[OF bytes_of_bits(1)[OF sc(2)], of S] fl(1) unfolding y by metis
  then have "c' = c" using c(2) by (simp only: fl(2) word_unat_eq_iff)
  moreover have "2 ^ 15 * (uval a - ?y) \<le> uval a" unfolding e_def by (rule compact_loss[OF sz(1)])
  ultimately show ?thesis using c(1) c'(1) sc(3) sc(4)[OF pb(3) pb(2)] y by metis
qed

section \<open>Comparisons\<close>

lemma uint_order:
  assumes "wf256 a" "wf256 b"
  shows "uint_gt a b \<longleftrightarrow> uval b < uval a" "uint_lt a b \<longleftrightarrow> uval a < uval b"
    "uint_ge a b \<longleftrightarrow> uval b \<le> uval a" "uint_le a b \<longleftrightarrow> uval a \<le> uval b"
    "uval (uint_min a b) = min (uval a) (uval b)" "wf256 (uint_min a b)"
  using assms
  by (auto simp: uint_gt_def uint_lt_def uint_ge_def uint_le_def uint_min_def uint_CompareTo_correct min_def)

lemma uval_0_iff: "uval zs = 0 \<longleftrightarrow> (\<forall>d \<in> set zs. d = 0)"
  by (induction zs) (auto simp: unat_eq_zero)

lemma uval_eq_iff: "wf256 a \<Longrightarrow> wf256 b \<Longrightarrow> a = b \<longleftrightarrow> uval a = uval b"
  using uval_inj[of a b] by (auto simp: wf256_def)

lemma digits_eq_iff:
  assumes "x < n" "l < n" "y < n" "h < (n :: nat)"
  shows "x + n * (y + n * z) = l + n * h \<longleftrightarrow> x = l \<and> y = h \<and> z = 0"
proof
  assume e: "x + n * (y + n * z) = l + n * h"
  have "x = l" using arg_cong[OF e, of "\<lambda>v. v mod n"] assms by simp
  moreover have q: "y + n * z = h" using arg_cong[OF e, of "\<lambda>v. v div n"] assms by simp
  moreover have "z = 0" using q assms(4) by (cases z) auto
  ultimately show "x = l \<and> y = h \<and> z = 0" by simp
qed simp

lemma uint_EqualTo_correct:
  assumes "wf256 a"
  shows "uint_EqualTo a b \<longleftrightarrow> uval a = unat b"
proof -
  obtain x y zs where a: "a = x # y # zs" using assms by (cases a; cases "tl a") (auto simp: wf256_def WIDTH_def)
  have h: "unat (drop_bit 32 b) = unat b div 2 ^ 32" by (rule high_half)
  have "b AND 0xffffffff = take_bit 32 b"
  proof -
    have "(0xffffffff :: u64) = mask 32" by (simp add: mask_eq_exp_minus_1)
    then show ?thesis by (simp only: take_bit_eq_mask)
  qed
  then have l: "unat (b AND 0xffffffff) = unat b mod 2 ^ 32" by (simp only: unsigned_take_bit_eq) (simp only: take_bit_eq_mod)
  have lt: "unat b div 2 ^ 32 < 2 ^ 32" "unat b mod 2 ^ 32 < 2 ^ 32"
    using unat_lt[of b] by (simp_all add: less_mult_imp_div_less)
  have "uval a = unat b \<longleftrightarrow> uval a = unat b mod 2 ^ 32 + 2 ^ 32 * (unat b div 2 ^ 32)"
    by (simp only: mod_mult_div_eq)
  also have "\<dots> \<longleftrightarrow> unat x = unat b mod 2 ^ 32 \<and> unat y = unat b div 2 ^ 32 \<and> uval zs = 0"
    unfolding a uval.simps by (rule digits_eq_iff[OF unat_u32 lt(2) unat_u32 lt(1)])
  also have "\<dots> \<longleftrightarrow> ucast x = b AND 0xffffffff \<and> ucast y = drop_bit 32 b \<and> uval zs = 0"
    by (simp only: word_unat_eq_iff unat_ucast_u64 h l)
  also have "\<dots> \<longleftrightarrow> uint_EqualTo a b"
    by (auto simp only: uint_EqualTo_def a drop_Suc_Cons drop_0 numeral_2_eq_2 nth_Cons_0 nth_Cons_Suc One_nat_def uval_0_iff split: if_split)
  finally show ?thesis by simp
qed

lemma uint_EqualTo_0: "wf256 a \<Longrightarrow> uint_EqualTo a 0 \<longleftrightarrow> uval a = 0"
  by (simp add: uint_EqualTo_correct)

section \<open>Properties\<close>

text \<open>C19: The arithmetic of base_uint on 256 bits is arithmetic of natural numbers modulo 2^256: with uval the
number the eight digits stand for, addition, subtraction, multiplication, negation and
both shifts are the corresponding operations on numbers, the comparison is the order of numbers,
bits() is the position of the highest set bit, and every result has eight digits again.\<close>

theorem base_uint_refines_arithmetic:
  assumes "wf256 a" "wf256 b"
  shows "uval (uint_add a b) = (uval a + uval b) mod 2 ^ 256 \<and> wf256 (uint_add a b) \<and>
    uval (uint_neg b) = (2 ^ 256 - uval b) mod 2 ^ 256 \<and> wf256 (uint_neg b) \<and>
    uval (uint_sub a b) = (uval a + (2 ^ 256 - uval b)) mod 2 ^ 256 \<and> wf256 (uint_sub a b) \<and>
    uval (uint_mul a b) = (uval a * uval b) mod 2 ^ 256 \<and> wf256 (uint_mul a b) \<and>
    uval (uint_shl a k) = (uval a * 2 ^ k) mod 2 ^ 256 \<and> wf256 (uint_shl a k) \<and>
    uval (uint_shr a k) = uval a div 2 ^ k \<and> wf256 (uint_shr a k) \<and>
    uint_CompareTo a b = (if uval a < uval b then - 1 else if uval a > uval b then 1 else 0) \<and>
    uval a < 2 ^ uint_bits a \<and> (uval a \<noteq> 0 \<longrightarrow> 2 ^ (uint_bits a - 1) \<le> uval a)"
  by (simp only: uint_add_correct uint_neg_correct uint_sub_correct uint_mul_correct uint_shl_correct uint_shr_correct
      uint_CompareTo_correct uint_bits_bounds(1)[OF assms(1)] assms simp_thms) (blast intro: uint_bits_bounds(3)[OF assms(1)])

theorem base_uint_refines_arithmetic_witness:
  "uval (uint_sub (uint_of_u64 5) (uint_of_u64 7)) = (uval (uint_of_u64 5) + (2 ^ 256 - uval (uint_of_u64 7))) mod 2 ^ 256"
  using base_uint_refines_arithmetic[of "uint_of_u64 5" "uint_of_u64 7" 0] uval_of_u64(2) by blast

text \<open>C20: Division returns for every divisor: a zero divisor raises uint_error, and for every other
divisor the shift-and-subtract loop ends with exactly the quotient of the numbers.\<close>

theorem division_total:
  assumes "wf256 a" "wf256 b"
  shows "if uval b = 0 then uint_div a b = None
    else \<exists>q. uint_div a b = Some q \<and> wf256 q \<and> uval q = uval a div uval b"
  using uint_div_correct[OF assms] by auto

theorem division_total_witness:
  "\<exists>q. uint_div (uint_of_u64 100) (uint_of_u64 7) = Some q \<and> wf256 q \<and> uval q = 100 div 7"
  using division_total[of "uint_of_u64 100" "uint_of_u64 7"] by (simp add: uval_of_u64)

text \<open>C21: SetCompact is exact: for every 32-bit word with exponent byte s and 23-bit mantissa m the digits hold
the number m * 256^(s-3) (rounded down when s is below 3) modulo 2^256, the overflow flag is raised exactly
when that number does not fit in 256 bits, and the sign flag exactly when the sign bit is set on a mantissa
that has not been shifted to zero.\<close>

theorem SetCompact_exact:
  "let m = unat c mod 2 ^ 23; s = unat c div 2 ^ 24; r = SetCompact c in
    wf256 (cr_value r) \<and> uval (cr_value r) = compact_value m s mod 2 ^ 256 \<and>
    cr_overflow r = (2 ^ 256 \<le> compact_value m s) \<and>
    cr_negative r = (odd (unat c div 2 ^ 23) \<and> (if s \<le> 3 then compact_value m s else m) \<noteq> 0)"
  using SetCompact_all[of c] by (simp only: Let_def simp_thms)

text \<open>C22: The compact form is a lossy float with exact normal forms: GetCompact never trips its assertions, and
SetCompact of its result is neither negative nor overflowing and gives back the number with only whole low
bytes cleared, at most a 2^15th of it; compacting that number again gives the same word, so a target read
from a header and written back is unchanged.\<close>

theorem compact_roundtrip:
  assumes "wf256 a"
  shows "\<exists>c e. GetCompact a False = Some c \<and> \<not> cr_negative (SetCompact c) \<and> \<not> cr_overflow (SetCompact c) \<and>
    uval (cr_value (SetCompact c)) = uval a div 256 ^ e * 256 ^ e \<and>
    2 ^ 15 * (uval a - uval (cr_value (SetCompact c))) \<le> uval a \<and>
    GetCompact (cr_value (SetCompact c)) False = Some c"
  using GetCompact_SetCompact[OF assms] by blast

theorem compact_roundtrip_witness:
  "\<exists>c e. GetCompact (uint_of_u64 0x1234567890) False = Some c \<and>
    uval (cr_value (SetCompact c)) = 0x1234567890 div 256 ^ e * 256 ^ e"
proof -
  have "unat (0x1234567890 :: u64) = 0x1234567890" by simp
  moreover have "wf256 (uint_of_u64 0x1234567890)" by (rule uval_of_u64)
  ultimately show ?thesis using compact_roundtrip[of "uint_of_u64 0x1234567890"] unfolding uval_of_u64(1) by metis
qed

text \<open>C23: The byte form of a 256-bit number is little-endian and lossless: ArithToUint256 and UintToArith256 are
inverse to each other on eight digits and 32 bytes, and both keep the number.\<close>

theorem uint256_conversion_roundtrip:
  "(wf256 a \<longrightarrow> UintToArith256 (ArithToUint256 a) = a \<and> le_value (ArithToUint256 a) = uval a) \<and>
   (length b = 32 \<longrightarrow> ArithToUint256 (UintToArith256 b) = b \<and> uval (UintToArith256 b) = le_value b)"
  by (simp add: uint256_words uint256_bytes ArithToUint256_value UintToArith256_value)

theorem uint256_conversion_roundtrip_witness:
  "UintToArith256 (ArithToUint256 (uint_of_u64 77)) = uint_of_u64 77 \<and> ArithToUint256 (UintToArith256 (replicate 32 3)) = replicate 32 3"
  using uint256_conversion_roundtrip[of "uint_of_u64 77" "replicate 32 3"] by (simp add: uval_of_u64)

end
