(* ===== verification/Params.thy ===== *)
theory Params
  imports Hash
begin

text \<open>
  The consensus parameters the proof of work and difficulty rules read (\<open>Consensus::Params\<close> of
  \<open>consensus/params.h\<close>) and the height gates defined on them. Heights and 64-bit signed fields are
  integers; the disabled height is the largest 32-bit value.
\<close>

unbundle bit_operations_syntax

record Params =
  hashGenesisBlock :: uint256
  nSubsidyHalvingInterval :: int
  powLimit :: uint256
  nMatMulPowLimitUpgradeHeight :: int
  powLimitUpgrade :: uint256
  fPowAllowMinDifficultyBlocks :: bool
  enforce_BIP94 :: bool
  fPowNoRetargeting :: bool
  fKAWPOW :: bool
  nKAWPOWHeight :: int
  fMatMulPOW :: bool
  nMatMulDimension :: u32
  nMatMulTranscriptBlockSize :: u32
  nMatMulNoiseRank :: u32
  nMatMulMinDimension :: u32
  nMatMulMaxDimension :: u32
  nMatMulPreHashEpsilonBits :: u32
  nMatMulPreHashEpsilonBitsUpgradeHeight :: int
  nMatMulPreHashEpsilonBitsUpgrade :: u32
  nMatMulNonceSeedHeight :: int
  nMatMulParentMtpSeedHeight :: int
  fMatMulFreivaldsEnabled :: bool
  nMatMulFreivaldsRounds :: u32
  fMatMulRequireProductPayload :: bool
  nMatMulFreivaldsBindingHeight :: int
  nMatMulProductDigestHeight :: int
  nMatMulV4Height :: int
  nMatMulV4Dimension :: u32
  nMatMulV4TranscriptBlockSize :: u32
  nMatMulV4AsertRescaleNum :: int
  nMatMulV4AsertRescaleDen :: int
  nMatMulBMX4CHeight :: int
  nMatMulBMX4CAsertRescaleNum :: int
  nMatMulBMX4CAsertRescaleDen :: int
  nMatMulDRLTHeight :: int
  nMatMulLTTranscriptBlockSize :: u32
  nMatMulDRLTAsertRescaleNum :: int
  nMatMulDRLTAsertRescaleDen :: int
  nMatMulRCHeight :: int
  nMatMulRCAsertRescaleNum :: int
  nMatMulRCAsertRescaleDen :: int
  nMatMulRCProfile :: u32
  fMatMulRCUseToyDims :: bool
  nMatMulRCCoupledHeight :: int
  nMatMulRCCoupledAsertRescaleNum :: int
  nMatMulRCCoupledAsertRescaleDen :: int
  fMatMulRCCoupledUseToyDims :: bool
  fMatMulLTSealAsPoW :: bool
  fMatMulV4FlatSketchReplay :: bool
  nMatMulHeaderPoWDiscountBits :: u32
  nInitialSubsidy :: int
  nEmptyBlockSubsidyPenaltyHeight :: int
  nEmptyBlockSubsidyStrictPenaltyHeight :: int
  nEmptyBlockSubsidyPenaltyEndHeight :: int
  nEmptyBlockSubsidyMaxHalvings :: u32
  nPowTargetSpacingNormal :: int
  nPowTargetSpacingFastMs :: int
  nFastMineDifficultyScale :: u32
  nFastMineHeight :: int
  nDgwAsymmetricClampHeight :: int
  nDgwEasingBoostHeight :: int
  nDgwWindowAlignmentHeight :: int
  nDgwSlewGuardHeight :: int
  nMatMulAsertHeight :: int
  nMatMulAsertHalfLife :: int
  nMatMulAsertBootstrapFactor :: u32
  nMatMulAsertRetuneHeight :: int
  nMatMulAsertRetuneHardeningFactor :: u32
  nMatMulAsertRetune2Height :: int
  nMatMulAsertRetune2TargetNum :: u32
  nMatMulAsertRetune2TargetDen :: u32
  nMatMulAsertHalfLifeUpgradeHeight :: int
  nMatMulAsertHalfLifeUpgrade :: int
  nMatMulMaxFutureMtpDriftHeight :: int
  nMatMulMaxFutureMtpDrift :: int
  nMatMulTimewarpReconcileHeight :: int
  nMatMulStallRecoveryHeight :: int
  nMatMulStallRecoveryAsertNum :: u32
  nMatMulStallRecoveryAsertDen :: u32
  nMatMulMaxBlockTimeAdvance :: int
  nMatMulAsertClampedMinInterval :: int
  nPowTargetSpacing :: int
  nPowTargetTimespan :: int

text \<open>The initial values of the fields; the fields the declaration leaves open are arguments.\<close>

definition Params_init :: "int \<Rightarrow> uint256 \<Rightarrow> bool \<Rightarrow> bool \<Rightarrow> bool \<Rightarrow> int \<Rightarrow> int \<Rightarrow> Params" where
  "Params_init halving limit allow_min bip94 no_retarget spacing timespan =
     \<lparr>hashGenesisBlock = replicate 32 0,
      nSubsidyHalvingInterval = halving,
      powLimit = limit,
      nMatMulPowLimitUpgradeHeight = int32_max,
      powLimitUpgrade = replicate 32 0,
      fPowAllowMinDifficultyBlocks = allow_min,
      enforce_BIP94 = bip94,
      fPowNoRetargeting = no_retarget,
      fKAWPOW = False,
      nKAWPOWHeight = int32_max,
      fMatMulPOW = False,
      nMatMulDimension = 512,
      nMatMulTranscriptBlockSize = 16,
      nMatMulNoiseRank = 8,
      nMatMulMinDimension = 64,
      nMatMulMaxDimension = 2048,
      nMatMulPreHashEpsilonBits = 10,
      nMatMulPreHashEpsilonBitsUpgradeHeight = int32_max,
      nMatMulPreHashEpsilonBitsUpgrade = 10,
      nMatMulNonceSeedHeight = int32_max,
      nMatMulParentMtpSeedHeight = int32_max,
      fMatMulFreivaldsEnabled = True,
      nMatMulFreivaldsRounds = 2,
      fMatMulRequireProductPayload = True,
      nMatMulFreivaldsBindingHeight = int32_max,
      nMatMulProductDigestHeight = int32_max,
      nMatMulV4Height = int32_max,
      nMatMulV4Dimension = 4096,
      nMatMulV4TranscriptBlockSize = 4,
      nMatMulV4AsertRescaleNum = 1,
      nMatMulV4AsertRescaleDen = 1,
      nMatMulBMX4CHeight = int32_max,
      nMatMulBMX4CAsertRescaleNum = 1,
      nMatMulBMX4CAsertRescaleDen = 1,
      nMatMulDRLTHeight = int32_max,
      nMatMulLTTranscriptBlockSize = 2,
      nMatMulDRLTAsertRescaleNum = 1,
      nMatMulDRLTAsertRescaleDen = 1,
      nMatMulRCHeight = int32_max,
      nMatMulRCAsertRescaleNum = 1,
      nMatMulRCAsertRescaleDen = 1,
      nMatMulRCProfile = 1,
      fMatMulRCUseToyDims = False,
      nMatMulRCCoupledHeight = int32_max,
      nMatMulRCCoupledAsertRescaleNum = 1,
      nMatMulRCCoupledAsertRescaleDen = 1,
      fMatMulRCCoupledUseToyDims = False,
      fMatMulLTSealAsPoW = False,
      fMatMulV4FlatSketchReplay = False,
      nMatMulHeaderPoWDiscountBits = 0xffffffff,
      nInitialSubsidy = 20 * 100000000,
      nEmptyBlockSubsidyPenaltyHeight = int32_max,
      nEmptyBlockSubsidyStrictPenaltyHeight = int32_max,
      nEmptyBlockSubsidyPenaltyEndHeight = int32_max,
      nEmptyBlockSubsidyMaxHalvings = 2,
      nPowTargetSpacingNormal = 90,
      nPowTargetSpacingFastMs = 250,
      nFastMineDifficultyScale = 1,
      nFastMineHeight = 61000,
      nDgwAsymmetricClampHeight = int32_max,
      nDgwEasingBoostHeight = int32_max,
      nDgwWindowAlignmentHeight = int32_max,
      nDgwSlewGuardHeight = int32_max,
      nMatMulAsertHeight = int32_max,
      nMatMulAsertHalfLife = 14400,
      nMatMulAsertBootstrapFactor = 1,
      nMatMulAsertRetuneHeight = int32_max,
      nMatMulAsertRetuneHardeningFactor = 1,
      nMatMulAsertRetune2Height = int32_max,
      nMatMulAsertRetune2TargetNum = 1,
      nMatMulAsertRetune2TargetDen = 1,
      nMatMulAsertHalfLifeUpgradeHeight = int32_max,
      nMatMulAsertHalfLifeUpgrade = 14400,
      nMatMulMaxFutureMtpDriftHeight = int32_max,
      nMatMulMaxFutureMtpDrift = 3600,
      nMatMulTimewarpReconcileHeight = int32_max,
      nMatMulStallRecoveryHeight = int32_max,
      nMatMulStallRecoveryAsertNum = 1,
      nMatMulStallRecoveryAsertDen = 1,
      nMatMulMaxBlockTimeAdvance = 1080,
      nMatMulAsertClampedMinInterval = 0,
      nPowTargetSpacing = spacing,
      nPowTargetTimespan = timespan\<rparr>"

text \<open>The encoding profiles and the way the committed product is carried.\<close>

datatype MatMulEncodingProfile = ENC_S8 | ENC_BMX4C | ENC_BMX4CD | ENC_BMX4C_LT | ENC_RC | ENC_RC_COUPLED

datatype MatMulCommitmentScheme = FLAT_SKETCH_INBLOCK | DIGEST_RECOMPUTE

record MatMulProfileParams =
  mp_profile :: MatMulEncodingProfile
  mp_commitment :: MatMulCommitmentScheme
  mp_tile_b :: u32
  mp_sketch_rank_m :: u32

definition BMX4C_SKETCH_RANK_M :: u32 where
  "BMX4C_SKETCH_RANK_M = 1024"

definition BMX4C_LT_SKETCH_RANK_M :: u32 where
  "BMX4C_LT_SKETCH_RANK_M = 2048"

definition SketchCacheBytes :: "MatMulProfileParams \<Rightarrow> u64" where
  "SketchCacheBytes m = 8 * ucast (mp_sketch_rank_m m) * ucast (mp_sketch_rank_m m)"

section \<open>Height gates\<close>

text \<open>Division by a zero target spacing is undefined.\<close>

definition DifficultyAdjustmentInterval :: "Params \<Rightarrow> int option" where
  "DifficultyAdjustmentInterval p =
     (if nPowTargetSpacing p = 0 then None else i64_chk (nPowTargetTimespan p sdiv nPowTargetSpacing p))"

definition IsMatMulFreivaldsBindingActive :: "Params \<Rightarrow> int \<Rightarrow> bool" where
  "IsMatMulFreivaldsBindingActive p height \<longleftrightarrow> fMatMulFreivaldsEnabled p \<and> height \<ge> 0 \<and> nMatMulFreivaldsBindingHeight p \<noteq> int32_max \<and> height \<ge> nMatMulFreivaldsBindingHeight p"

definition IsMatMulProductDigestActive :: "Params \<Rightarrow> int \<Rightarrow> bool" where
  "IsMatMulProductDigestActive p height \<longleftrightarrow> fMatMulFreivaldsEnabled p \<and> height \<ge> 0 \<and> nMatMulProductDigestHeight p \<noteq> int32_max \<and> height \<ge> nMatMulProductDigestHeight p"

definition IsMatMulProductPayloadRequired :: "Params \<Rightarrow> int \<Rightarrow> bool" where
  "IsMatMulProductPayloadRequired p height \<longleftrightarrow>
     fMatMulFreivaldsEnabled p \<and> (fMatMulRequireProductPayload p \<or> IsMatMulProductDigestActive p height)"

definition IsMatMulV4Active :: "Params \<Rightarrow> int \<Rightarrow> bool" where
  "IsMatMulV4Active p height \<longleftrightarrow> height \<ge> 0 \<and> nMatMulV4Height p \<noteq> int32_max \<and> height \<ge> nMatMulV4Height p"

definition IsBMX4CActive :: "Params \<Rightarrow> int \<Rightarrow> bool" where
  "IsBMX4CActive p height \<longleftrightarrow>
     IsMatMulV4Active p height \<and> nMatMulBMX4CHeight p \<noteq> int32_max \<and> height \<ge> nMatMulBMX4CHeight p"

definition IsDRLTActive :: "Params \<Rightarrow> int \<Rightarrow> bool" where
  "IsDRLTActive p height \<longleftrightarrow>
     IsBMX4CActive p height \<and> nMatMulDRLTHeight p \<noteq> int32_max \<and> height \<ge> nMatMulDRLTHeight p"

definition IsMatMulRCActive :: "Params \<Rightarrow> int \<Rightarrow> bool" where
  "IsMatMulRCActive p height \<longleftrightarrow>
     IsMatMulV4Active p height \<and> nMatMulRCHeight p \<noteq> int32_max \<and> height \<ge> nMatMulRCHeight p"

definition IsMatMulRCProfile1Active :: "Params \<Rightarrow> int \<Rightarrow> bool" where
  "IsMatMulRCProfile1Active p height \<longleftrightarrow> IsMatMulRCActive p height \<and> nMatMulRCProfile p = 1"

definition IsMatMulRCCoupledActive :: "Params \<Rightarrow> int \<Rightarrow> bool" where
  "IsMatMulRCCoupledActive p height \<longleftrightarrow>
     IsMatMulRCActive p height \<and> nMatMulRCCoupledHeight p \<noteq> int32_max \<and> height \<ge> nMatMulRCCoupledHeight p"

definition IsMatMulTrustedReplayAttestationActive :: "Params \<Rightarrow> int \<Rightarrow> bool" where
  "IsMatMulTrustedReplayAttestationActive p height \<longleftrightarrow>
     IsMatMulRCProfile1Active p height \<and> \<not> IsMatMulRCCoupledActive p height"

definition IsMatMulRCFamilyActive :: "Params \<Rightarrow> int \<Rightarrow> bool" where
  "IsMatMulRCFamilyActive p height \<longleftrightarrow> IsMatMulRCCoupledActive p height \<or> IsMatMulRCActive p height"

definition IsMatMulLTSealAsPoWActive :: "Params \<Rightarrow> int \<Rightarrow> bool" where
  "IsMatMulLTSealAsPoWActive p height \<longleftrightarrow> IsDRLTActive p height \<and> fMatMulLTSealAsPoW p"

definition IsMatMulHeaderPoWEnabled :: "Params \<Rightarrow> bool" where
  "IsMatMulHeaderPoWEnabled p \<longleftrightarrow> nMatMulHeaderPoWDiscountBits p \<noteq> 0xffffffff"

definition IsMatMulV47EpochAActivationTuple :: "Params \<Rightarrow> bool" where
  "IsMatMulV47EpochAActivationTuple p \<longleftrightarrow>
     nMatMulV4Height p \<noteq> int32_max \<and>
     nMatMulBMX4CHeight p = nMatMulV4Height p \<and>
     nMatMulRCHeight p = nMatMulV4Height p \<and>
     nMatMulDRLTHeight p = int32_max \<and>
     nMatMulRCCoupledHeight p = int32_max \<and>
     nMatMulRCProfile p = 1 \<and>
     \<not> fMatMulRCUseToyDims p \<and>
     \<not> fMatMulRCCoupledUseToyDims p \<and>
     \<not> fMatMulLTSealAsPoW p \<and>
     \<not> IsMatMulHeaderPoWEnabled p \<and>
     nMatMulV4AsertRescaleNum p = nMatMulV4AsertRescaleDen p \<and>
     nMatMulBMX4CAsertRescaleNum p = nMatMulBMX4CAsertRescaleDen p"

definition MATMUL_HEADER_POW_MAX_DISCOUNT_BITS :: u32 where
  "MATMUL_HEADER_POW_MAX_DISCOUNT_BITS = 255"

definition IsMatMulHeaderPoWDiscountValid :: "Params \<Rightarrow> bool" where
  "IsMatMulHeaderPoWDiscountValid p \<longleftrightarrow>
     nMatMulHeaderPoWDiscountBits p \<le> MATMUL_HEADER_POW_MAX_DISCOUNT_BITS \<or> nMatMulHeaderPoWDiscountBits p = 0xffffffff"

definition GetMatMulEncodingProfile :: "Params \<Rightarrow> int \<Rightarrow> MatMulEncodingProfile" where
  "GetMatMulEncodingProfile p height =
     (if IsMatMulRCCoupledActive p height then ENC_RC_COUPLED
      else if IsMatMulRCActive p height then ENC_RC
      else if IsDRLTActive p height then ENC_BMX4C_LT
      else if IsBMX4CActive p height then ENC_BMX4C else ENC_S8)"

definition GetMatMulProfileParams :: "Params \<Rightarrow> int \<Rightarrow> MatMulProfileParams" where
  "GetMatMulProfileParams p height =
     (let replay = (if fMatMulV4FlatSketchReplay p then FLAT_SKETCH_INBLOCK else DIGEST_RECOMPUTE) in
      if IsMatMulRCCoupledActive p height then
        \<lparr>mp_profile = ENC_RC_COUPLED, mp_commitment = DIGEST_RECOMPUTE,
         mp_tile_b = nMatMulLTTranscriptBlockSize p, mp_sketch_rank_m = BMX4C_LT_SKETCH_RANK_M\<rparr>
      else if IsMatMulRCActive p height then
        \<lparr>mp_profile = ENC_RC, mp_commitment = DIGEST_RECOMPUTE,
         mp_tile_b = nMatMulLTTranscriptBlockSize p, mp_sketch_rank_m = BMX4C_LT_SKETCH_RANK_M\<rparr>
      else if IsDRLTActive p height then
        \<lparr>mp_profile = ENC_BMX4C_LT, mp_commitment = replay,
         mp_tile_b = nMatMulLTTranscriptBlockSize p, mp_sketch_rank_m = BMX4C_LT_SKETCH_RANK_M\<rparr>
      else
        \<lparr>mp_profile = GetMatMulEncodingProfile p height, mp_commitment = replay,
         mp_tile_b = 4, mp_sketch_rank_m = BMX4C_SKETCH_RANK_M\<rparr>)"

definition IsMatMulEncDrActive :: "Params \<Rightarrow> int \<Rightarrow> bool" where
  "IsMatMulEncDrActive p height \<longleftrightarrow> IsMatMulV4Active p height \<and> \<not> fMatMulV4FlatSketchReplay p"

definition IsMatMulPreHashEpsilonBitsUpgradeActive :: "Params \<Rightarrow> int \<Rightarrow> bool" where
  "IsMatMulPreHashEpsilonBitsUpgradeActive p height \<longleftrightarrow> height \<ge> 0 \<and> nMatMulPreHashEpsilonBitsUpgradeHeight p \<noteq> int32_max \<and> height \<ge> nMatMulPreHashEpsilonBitsUpgradeHeight p"

definition IsMatMulNonceSeedActive :: "Params \<Rightarrow> int \<Rightarrow> bool" where
  "IsMatMulNonceSeedActive p height \<longleftrightarrow> fMatMulPOW p \<and> height \<ge> 0 \<and> nMatMulNonceSeedHeight p \<noteq> int32_max \<and> height \<ge> nMatMulNonceSeedHeight p"

definition IsMatMulParentMtpSeedActive :: "Params \<Rightarrow> int \<Rightarrow> bool" where
  "IsMatMulParentMtpSeedActive p height \<longleftrightarrow> fMatMulPOW p \<and> height \<ge> 0 \<and> nMatMulParentMtpSeedHeight p \<noteq> int32_max \<and> height \<ge> nMatMulParentMtpSeedHeight p"

definition IsMatMulMaxFutureMtpDriftActive :: "Params \<Rightarrow> int \<Rightarrow> bool" where
  "IsMatMulMaxFutureMtpDriftActive p height \<longleftrightarrow> fMatMulPOW p \<and> height \<ge> 0 \<and> nMatMulMaxFutureMtpDriftHeight p \<noteq> int32_max \<and> height \<ge> nMatMulMaxFutureMtpDriftHeight p \<and> nMatMulMaxFutureMtpDrift p > 0"

definition IsMatMulTimewarpReconcileActive :: "Params \<Rightarrow> int \<Rightarrow> bool" where
  "IsMatMulTimewarpReconcileActive p height \<longleftrightarrow> fMatMulPOW p \<and> height \<ge> 0 \<and> nMatMulTimewarpReconcileHeight p \<noteq> int32_max \<and> height \<ge> nMatMulTimewarpReconcileHeight p"

definition IsMatMulStallRecoveryActive :: "Params \<Rightarrow> int \<Rightarrow> bool" where
  "IsMatMulStallRecoveryActive p height \<longleftrightarrow> fMatMulPOW p \<and> height \<ge> 0 \<and> nMatMulStallRecoveryHeight p \<noteq> int32_max \<and> height \<ge> nMatMulStallRecoveryHeight p"

section \<open>Caps on block times\<close>

definition MaxMatMulParentTimeAdvance :: "Params \<Rightarrow> int \<Rightarrow> int \<Rightarrow> int option" where
  "MaxMatMulParentTimeAdvance p height prev_block_time =
     (if \<not> IsMatMulStallRecoveryActive p height \<or> nMatMulMaxBlockTimeAdvance p \<le> 0 then None
      else if prev_block_time > int64_max - nMatMulMaxBlockTimeAdvance p then Some int64_max
      else Some (prev_block_time + nMatMulMaxBlockTimeAdvance p))"

definition MatMulFutureBlockTimeLimit :: "Params \<Rightarrow> int \<Rightarrow> int option" where
  "MatMulFutureBlockTimeLimit p prev_median_time_past =
     (if \<not> fMatMulPOW p \<or> nMatMulMaxFutureMtpDriftHeight p = int32_max \<or> nMatMulMaxFutureMtpDrift p \<le> 0 then None
      else if prev_median_time_past > int64_max - nMatMulMaxFutureMtpDrift p then Some int64_max
      else Some (prev_median_time_past + nMatMulMaxFutureMtpDrift p))"

definition MaxMatMulFutureBlockTime :: "Params \<Rightarrow> int \<Rightarrow> int \<Rightarrow> int option" where
  "MaxMatMulFutureBlockTime p height prev_median_time_past =
     (if \<not> IsMatMulMaxFutureMtpDriftActive p height then None
      else MatMulFutureBlockTimeLimit p prev_median_time_past)"

definition MaxMatMulAllowedBlockTime :: "Params \<Rightarrow> int \<Rightarrow> int \<Rightarrow> int \<Rightarrow> int option" where
  "MaxMatMulAllowedBlockTime p height prev_block_time prev_median_time_past =
     (case MaxMatMulFutureBlockTime p height prev_median_time_past of
        None \<Rightarrow> MaxMatMulParentTimeAdvance p height prev_block_time
      | Some mtp_cap \<Rightarrow>
          (case MaxMatMulParentTimeAdvance p height prev_block_time of
             None \<Rightarrow> Some mtp_cap
           | Some parent_cap \<Rightarrow> Some (if mtp_cap < parent_cap then mtp_cap else parent_cap)))"

definition MatMulAsertClampedMinIntervalSeconds :: "Params \<Rightarrow> int" where
  "MatMulAsertClampedMinIntervalSeconds p =
     (if nMatMulAsertClampedMinInterval p > 0 then nMatMulAsertClampedMinInterval p else nPowTargetSpacing p)"

definition GetMatMulPreHashEpsilonBitsForHeight :: "Params \<Rightarrow> int \<Rightarrow> u32" where
  "GetMatMulPreHashEpsilonBitsForHeight p height =
     (if IsMatMulPreHashEpsilonBitsUpgradeActive p height then nMatMulPreHashEpsilonBitsUpgrade p
      else nMatMulPreHashEpsilonBits p)"

section \<open>Profiles advance with the height\<close>

fun profile_rank :: "MatMulEncodingProfile \<Rightarrow> nat" where
  "profile_rank ENC_S8 = 1"
| "profile_rank ENC_BMX4C = 2"
| "profile_rank ENC_BMX4CD = 3"
| "profile_rank ENC_BMX4C_LT = 4"
| "profile_rank ENC_RC = 5"
| "profile_rank ENC_RC_COUPLED = 6"

lemmas gate_defs = IsMatMulRCCoupledActive_def IsMatMulRCActive_def IsDRLTActive_def IsBMX4CActive_def IsMatMulV4Active_def

text \<open>C24: The encoding profile is chosen in one place and only ever advances: the shape selector reports the
profile of the profile selector, the profile at a greater height is the same or a later one, every profile
after the first needs an active v4 fork, and the retired profile is never selected.\<close>

theorem profile_only_advances:
  assumes "h \<le> h'"
  shows "mp_profile (GetMatMulProfileParams p h) = GetMatMulEncodingProfile p h \<and>
    profile_rank (GetMatMulEncodingProfile p h) \<le> profile_rank (GetMatMulEncodingProfile p h') \<and>
    (GetMatMulEncodingProfile p h \<noteq> ENC_S8 \<longrightarrow> IsMatMulV4Active p h) \<and>
    GetMatMulEncodingProfile p h \<noteq> ENC_BMX4CD"
proof -
  have mono: "IsMatMulRCCoupledActive p h \<Longrightarrow> IsMatMulRCCoupledActive p h'" "IsMatMulRCActive p h \<Longrightarrow> IsMatMulRCActive p h'"
    "IsDRLTActive p h \<Longrightarrow> IsDRLTActive p h'" "IsBMX4CActive p h \<Longrightarrow> IsBMX4CActive p h'"
    using assms by (auto simp: gate_defs)
  have "GetMatMulEncodingProfile p h \<noteq> ENC_S8 \<Longrightarrow> IsMatMulV4Active p h"
    by (auto simp: GetMatMulEncodingProfile_def gate_defs split: if_splits)
  moreover have "profile_rank (GetMatMulEncodingProfile p h) \<le> profile_rank (GetMatMulEncodingProfile p h')"
    using mono by (simp add: GetMatMulEncodingProfile_def)
  ultimately show ?thesis
    by (simp add: GetMatMulProfileParams_def GetMatMulEncodingProfile_def Let_def)
qed

theorem profile_only_advances_witness:
  "let p = Params_init 100 [] False False False 90 900\<lparr>nMatMulV4Height := 5, nMatMulRCHeight := 7\<rparr> in
    profile_rank (GetMatMulEncodingProfile p 5) \<le> profile_rank (GetMatMulEncodingProfile p 7) \<and>
    GetMatMulEncodingProfile p 5 = ENC_S8 \<and> GetMatMulEncodingProfile p 7 = ENC_RC"
  using profile_only_advances[of 5 7 "Params_init 100 [] False False False 90 900\<lparr>nMatMulV4Height := 5, nMatMulRCHeight := 7\<rparr>"]
  by (simp add: GetMatMulEncodingProfile_def gate_defs Params_init_def)

end
