(* ===== verification/Block.thy ===== *)
theory Block
  imports Hash
begin

text \<open>
  The block header of \<open>primitives/block.h\<close> and \<open>primitives/block.cpp\<close>: its fields, its fixed 182-byte
  wire image, the image with the grinding nonce that only tests use, and the identity hash. The signed
  version field is kept as its 32 bits.
\<close>

unbundle bit_operations_syntax

record CBlockHeader =
  nVersion :: u32
  hashPrevBlock :: uint256
  hashMerkleRoot :: uint256
  nTime :: u32
  nBits :: u32
  nNonce64 :: u64
  matmul_digest :: uint256
  matmul_dim :: u16
  seed_a :: uint256
  seed_b :: uint256
  nNonce :: u32
  mix_hash :: uint256

definition BTX_HEADER_SIZE :: nat where
  "BTX_HEADER_SIZE = 182"

definition uint256_null :: uint256 where
  "uint256_null = replicate 32 0"

definition uint256_IsNull :: "uint256 \<Rightarrow> bool" where
  "uint256_IsNull h \<longleftrightarrow> (\<forall>b \<in> set h. b = 0)"

definition CBlockHeader_SetNull :: CBlockHeader where
  "CBlockHeader_SetNull =
     \<lparr>nVersion = 0, hashPrevBlock = uint256_null, hashMerkleRoot = uint256_null, nTime = 0, nBits = 0, nNonce64 = 0,
      matmul_digest = uint256_null, matmul_dim = 0, seed_a = uint256_null, seed_b = uint256_null, nNonce = 0,
      mix_hash = uint256_null\<rparr>"

definition CBlockHeader_IsNull :: "CBlockHeader \<Rightarrow> bool" where
  "CBlockHeader_IsNull h \<longleftrightarrow> nBits h = 0"

definition HasHeaderPoWCommitment :: "CBlockHeader \<Rightarrow> bool" where
  "HasHeaderPoWCommitment h \<longleftrightarrow> nVersion h AND push_bit 26 1 \<noteq> 0"

definition SetHeaderPoWCommitment :: "CBlockHeader \<Rightarrow> bool \<Rightarrow> CBlockHeader" where
  "SetHeaderPoWCommitment h enabled =
     (if enabled then h\<lparr>nVersion := nVersion h OR push_bit 26 1\<rparr>
      else h\<lparr>nVersion := nVersion h AND NOT (push_bit 26 1)\<rparr>)"

section \<open>The wire image\<close>

definition SerializeIdentityOnly :: "CBlockHeader \<Rightarrow> bytes" where
  "SerializeIdentityOnly h =
     WriteLE32 (nVersion h) @ hashPrevBlock h @ hashMerkleRoot h @ WriteLE32 (nTime h) @ WriteLE32 (nBits h) @
     WriteLE64 (nNonce64 h) @ matmul_digest h @ WriteLE16 (matmul_dim h) @ seed_a h @ seed_b h"

definition CBlockHeader_Serialize :: "CBlockHeader \<Rightarrow> bytes" where
  "CBlockHeader_Serialize h =
     WriteLE32 (nVersion h) @ hashPrevBlock h @ hashMerkleRoot h @ WriteLE32 (nTime h) @ WriteLE32 (nBits h) @
     WriteLE64 (nNonce64 h) @ matmul_digest h @ WriteLE16 (matmul_dim h) @ seed_a h @ seed_b h"

text \<open>Reading from a stream: the next \<open>n\<close> bytes, or the end-of-data exception.\<close>

definition get_bytes :: "nat \<Rightarrow> bytes \<Rightarrow> (bytes \<times> bytes) option" where
  "get_bytes n s = (if length s < n then None else Some (take n s, drop n s))"

definition read_fields :: "CBlockHeader \<Rightarrow> bytes \<Rightarrow> (CBlockHeader \<times> bytes) option" where
  "read_fields h s = do {
     (v, s) \<leftarrow> get_bytes 4 s;
     (prev, s) \<leftarrow> get_bytes 32 s;
     (merkle, s) \<leftarrow> get_bytes 32 s;
     (t, s) \<leftarrow> get_bytes 4 s;
     (bits, s) \<leftarrow> get_bytes 4 s;
     (nonce, s) \<leftarrow> get_bytes 8 s;
     (digest, s) \<leftarrow> get_bytes 32 s;
     (dim, s) \<leftarrow> get_bytes 2 s;
     (a, s) \<leftarrow> get_bytes 32 s;
     (b, s) \<leftarrow> get_bytes 32 s;
     Some (h\<lparr>nVersion := ReadLE32 v, hashPrevBlock := prev, hashMerkleRoot := merkle, nTime := ReadLE32 t,
             nBits := ReadLE32 bits, nNonce64 := ReadLE64 nonce, matmul_digest := digest, matmul_dim := ReadLE16 dim,
             seed_a := a, seed_b := b\<rparr>, s)
   }"

definition CBlockHeader_Unserialize :: "CBlockHeader \<Rightarrow> bytes \<Rightarrow> (CBlockHeader \<times> bytes) option" where
  "CBlockHeader_Unserialize h s = do {
     (h, s) \<leftarrow> read_fields h s;
     Some (h\<lparr>nNonce := 0\<rparr>, s)
   }"

definition SerializeWithNonce :: "CBlockHeader \<Rightarrow> bytes" where
  "SerializeWithNonce h =
     WriteLE32 (nVersion h) @ hashPrevBlock h @ hashMerkleRoot h @ WriteLE32 (nTime h) @ WriteLE32 (nBits h) @
     WriteLE64 (nNonce64 h) @ matmul_digest h @ WriteLE16 (matmul_dim h) @ seed_a h @ seed_b h @ WriteLE32 (nNonce h)"

definition UnserializeWithNonce :: "CBlockHeader \<Rightarrow> bytes \<Rightarrow> (CBlockHeader \<times> bytes) option" where
  "UnserializeWithNonce h s = do {
     (h, s) \<leftarrow> read_fields h s;
     (n, s) \<leftarrow> get_bytes 4 s;
     Some (h\<lparr>nNonce := ReadLE32 n\<rparr>, s)
   }"

definition CBlockHeader_GetHash :: "CBlockHeader \<Rightarrow> uint256" where
  "CBlockHeader_GetHash h =
     HashWriter_GetHash (fold (\<lambda>d hw. Write256 hw d)
       [WriteLE32 (nVersion h), hashPrevBlock h, hashMerkleRoot h, WriteLE32 (nTime h), WriteLE32 (nBits h),
        WriteLE64 (nNonce64 h), matmul_digest h, WriteLE16 (matmul_dim h), seed_a h, seed_b h] CSHA256_init)"

section \<open>Well-formed headers\<close>

definition wf_header :: "CBlockHeader \<Rightarrow> bool" where
  "wf_header h \<longleftrightarrow> length (hashPrevBlock h) = 32 \<and> length (hashMerkleRoot h) = 32 \<and> length (matmul_digest h) = 32 \<and>
     length (seed_a h) = 32 \<and> length (seed_b h) = 32 \<and> length (mix_hash h) = 32"

lemma get_bytes_append: "length x = n \<Longrightarrow> get_bytes n (x @ s) = Some (x, s)"
  by (simp add: get_bytes_def)

lemma read_fields_append:
  assumes "wf_header h"
  shows "read_fields g (SerializeIdentityOnly h @ r) = Some (h\<lparr>nNonce := nNonce g, mix_hash := mix_hash g\<rparr>, r)"
proof -
  have "ReadLE32 (WriteLE32 x) = x" "ReadLE64 (WriteLE64 y) = y" "ReadLE16 (WriteLE16 z) = z" for x y z
    using Read_Write(1)[of z "[]"] Read_Write(2)[of x "[]"] Read_Write(3)[of y "[]"] by simp_all
  then show ?thesis
    using assms by (simp add: read_fields_def SerializeIdentityOnly_def wf_header_def get_bytes_append)
qed

lemma get_bytes_length: "get_bytes n s = Some (x, t) \<Longrightarrow> length s = n + length t"
  by (auto simp: get_bytes_def split: if_splits)

lemma read_fields_length: "read_fields g s = Some (h, t) \<Longrightarrow> length s = 182 + length t"
  unfolding read_fields_def
  by (clarsimp simp: bind_eq_Some_conv dest!: get_bytes_length)

lemma Serialize_identity:
  "CBlockHeader_Serialize h = SerializeIdentityOnly h" "SerializeWithNonce h = SerializeIdentityOnly h @ WriteLE32 (nNonce h)"
  by (simp_all add: CBlockHeader_Serialize_def SerializeIdentityOnly_def SerializeWithNonce_def)

lemma GetHash_identity: "CBlockHeader_GetHash h = SHA256 (SHA256 (SerializeIdentityOnly h))"
  unfolding CBlockHeader_GetHash_def hwriter.final_writes by (simp add: SerializeIdentityOnly_def)

section \<open>Properties\<close>

text \<open>C25: The wire image of a header is 182 bytes and lossless: reading it back gives every field that is on the
wire, with the grinding nonce reset and the rest of the stream untouched; the image with the nonce is read back
with the nonce; and a stream shorter than a header is refused.\<close>

theorem header_roundtrip:
  assumes "wf_header h"
  shows "length (CBlockHeader_Serialize h) = BTX_HEADER_SIZE \<and>
    CBlockHeader_Unserialize g (CBlockHeader_Serialize h @ r) = Some (h\<lparr>nNonce := 0, mix_hash := mix_hash g\<rparr>, r) \<and>
    UnserializeWithNonce g (SerializeWithNonce h @ r) = Some (h\<lparr>mix_hash := mix_hash g\<rparr>, r) \<and>
    (length s < BTX_HEADER_SIZE \<longrightarrow> CBlockHeader_Unserialize g s = None)"
proof -
  have "length (SerializeIdentityOnly h) = 182" using assms by (simp add: SerializeIdentityOnly_def wf_header_def)
  moreover have "CBlockHeader_Unserialize g (CBlockHeader_Serialize h @ r) = Some (h\<lparr>nNonce := 0, mix_hash := mix_hash g\<rparr>, r)"
    by (simp add: CBlockHeader_Unserialize_def Serialize_identity read_fields_append[OF assms])
  moreover have "UnserializeWithNonce g (SerializeWithNonce h @ r) = Some (h\<lparr>mix_hash := mix_hash g\<rparr>, r)"
    using Read_Write(2)[of "nNonce h" "[]"]
    by (simp add: UnserializeWithNonce_def Serialize_identity read_fields_append[OF assms] get_bytes_append)
  moreover have "CBlockHeader_Unserialize g s = None" if "length s < 182"
    using that read_fields_length[of g s] by (cases "read_fields g s") (auto simp: CBlockHeader_Unserialize_def)
  ultimately show ?thesis by (simp add: BTX_HEADER_SIZE_def Serialize_identity)
qed

theorem header_roundtrip_witness:
  "CBlockHeader_Unserialize CBlockHeader_SetNull (CBlockHeader_Serialize (CBlockHeader_SetNull\<lparr>nBits := 7, nNonce := 9\<rparr>) @ [1]) =
    Some (CBlockHeader_SetNull\<lparr>nBits := 7\<rparr>, [1])"
proof -
  have "wf_header (CBlockHeader_SetNull\<lparr>nBits := 7, nNonce := 9\<rparr>)"
    by (simp add: wf_header_def CBlockHeader_SetNull_def uint256_null_def)
  from header_roundtrip[OF this, of CBlockHeader_SetNull "[1]" "[]"] show ?thesis
    by (simp add: CBlockHeader_SetNull_def)
qed

text \<open>C26: The identity hash of a block is the double SHA-256 of exactly its 182-byte wire image, so the grinding
nonce and the mix hash, which are not on the wire, never change it; and setting or clearing the withdrawn
commitment bit changes the version field only.\<close>

theorem header_identity:
  "CBlockHeader_GetHash h = SHA256 (SHA256 (CBlockHeader_Serialize h)) \<and>
   CBlockHeader_GetHash (h\<lparr>nNonce := n, mix_hash := m\<rparr>) = CBlockHeader_GetHash h \<and>
   HasHeaderPoWCommitment (SetHeaderPoWCommitment h b) = b \<and>
   SetHeaderPoWCommitment h b = h\<lparr>nVersion := nVersion (SetHeaderPoWCommitment h b)\<rparr>"
proof -
  have e: "push_bit 26 (1 :: u32) = 2 ^ 26" by (simp add: push_bit_eq_mult)
  have "HasHeaderPoWCommitment (SetHeaderPoWCommitment h b) = b"
    unfolding HasHeaderPoWCommitment_def SetHeaderPoWCommitment_def e and_exp_eq_0_iff_not_bit
    by (simp add: bit_simps)
  then show ?thesis by (simp add: GetHash_identity Serialize_identity SerializeIdentityOnly_def SetHeaderPoWCommitment_def)
qed

end
