(* ===== verification/Chain.thy ===== *)
theory Chain
  imports Arith256 Params Block
begin

text \<open>
  The block index (\<open>chain.h\<close>, \<open>chain.cpp\<close>): entries linked to their predecessor and to a skip
  ancestor, the work they carry, the active chain, and the walks over them; and the step of
  \<open>node/blockstorage.cpp\<close> that adds a header. A pointer is the hash the entry is filed under, and the
  heap maps every pointer the program holds to its entry; a null pointer is \<open>None\<close>. Failing assertions
  and undefined operations are \<open>None\<close>.
\<close>

unbundle bit_operations_syntax

type_synonym ptr = uint256

record CBlockIndex =
  bi_hash :: "uint256 option"
  bi_pprev :: "ptr option"
  bi_pskip :: "ptr option"
  bi_nHeight :: int
  bi_nChainWork :: arith_uint256
  bi_nAuthenticatedChainWork :: arith_uint256
  bi_nTx :: u32
  bi_nStatus :: u32
  bi_nVersion :: u32
  bi_hashMerkleRoot :: uint256
  bi_nTime :: u32
  bi_nBits :: u32
  bi_nNonce64 :: u64
  bi_matmul_digest :: uint256
  bi_matmul_dim :: u16
  bi_seed_a :: uint256
  bi_seed_b :: uint256
  bi_nNonce :: u32
  bi_mix_hash :: uint256
  bi_nTimeMax :: u32
  bi_nMatMulClampedAsertCreditKey :: u64
  bi_nMatMulClampedAsertCredit :: int

type_synonym heap = "ptr \<Rightarrow> CBlockIndex"

section \<open>Status bits\<close>

definition BLOCK_VALID_TREE :: u32 where "BLOCK_VALID_TREE = 2"
definition BLOCK_VALID_TRANSACTIONS :: u32 where "BLOCK_VALID_TRANSACTIONS = 3"
definition BLOCK_VALID_MASK :: u32 where "BLOCK_VALID_MASK = 1 OR 2 OR 3 OR 4 OR 5"
definition BLOCK_HAVE_DATA :: u32 where "BLOCK_HAVE_DATA = 8"
definition BLOCK_FAILED_MASK :: u32 where "BLOCK_FAILED_MASK = 32 OR 64"
definition BLOCK_EXACT_REPLAY_VERIFIED :: u32 where "BLOCK_EXACT_REPLAY_VERIFIED = 256"
definition BLOCK_TRUSTED_REPLAY_ATTESTED :: u32 where "BLOCK_TRUSTED_REPLAY_ATTESTED = 512"

definition CBlockIndex_init :: "CBlockHeader \<Rightarrow> CBlockIndex" where
  "CBlockIndex_init h =
     \<lparr>bi_hash = None, bi_pprev = None, bi_pskip = None, bi_nHeight = 0, bi_nChainWork = uint_zero,
      bi_nAuthenticatedChainWork = uint_zero, bi_nTx = 0, bi_nStatus = 0, bi_nVersion = nVersion h,
      bi_hashMerkleRoot = hashMerkleRoot h, bi_nTime = nTime h, bi_nBits = nBits h, bi_nNonce64 = nNonce64 h,
      bi_matmul_digest = matmul_digest h, bi_matmul_dim = matmul_dim h, bi_seed_a = seed_a h, bi_seed_b = seed_b h,
      bi_nNonce = nNonce h, bi_mix_hash = mix_hash h, bi_nTimeMax = 0, bi_nMatMulClampedAsertCreditKey = 0,
      bi_nMatMulClampedAsertCredit = 0\<rparr>"

text \<open>\<open>GetBlockHash\<close> asserts that the entry has been filed.\<close>

definition GetBlockHeader :: "heap \<Rightarrow> CBlockIndex \<Rightarrow> CBlockHeader option" where
  "GetBlockHeader m b = do {
     prev \<leftarrow> (case bi_pprev b of None \<Rightarrow> Some uint256_null | Some q \<Rightarrow> bi_hash (m q));
     Some \<lparr>nVersion = bi_nVersion b, hashPrevBlock = prev, hashMerkleRoot = bi_hashMerkleRoot b, nTime = bi_nTime b,
           nBits = bi_nBits b, nNonce64 = bi_nNonce64 b, matmul_digest = bi_matmul_digest b,
           matmul_dim = bi_matmul_dim b, seed_a = bi_seed_a b, seed_b = bi_seed_b b, nNonce = bi_nNonce b,
           mix_hash = bi_mix_hash b\<rparr>
   }"

definition GetBlockTime :: "CBlockIndex \<Rightarrow> int" where
  "GetBlockTime b = uint (bi_nTime b)"

definition GetBlockTimeMax :: "CBlockIndex \<Rightarrow> int" where
  "GetBlockTimeMax b = uint (bi_nTimeMax b)"

fun past_times :: "heap \<Rightarrow> nat \<Rightarrow> ptr option \<Rightarrow> int list" where
  "past_times m (Suc n) (Some p) = GetBlockTime (m p) # past_times m n (bi_pprev (m p))"
| "past_times m _ _ = []"

definition nMedianTimeSpan :: nat where
  "nMedianTimeSpan = 11"

definition GetMedianTimePast :: "heap \<Rightarrow> ptr \<Rightarrow> int" where
  "GetMedianTimePast m p =
     (let pmedian = sort (past_times m nMedianTimeSpan (Some p)) in pmedian ! (length pmedian div 2))"

definition IsValid :: "CBlockIndex \<Rightarrow> u32 \<Rightarrow> bool option" where
  "IsValid b nUpTo =
     (if nUpTo AND NOT BLOCK_VALID_MASK \<noteq> 0 then None
      else if bi_nStatus b AND BLOCK_FAILED_MASK \<noteq> 0 then Some False
      else Some (bi_nStatus b AND BLOCK_VALID_MASK \<ge> nUpTo))"

definition RaiseValidity :: "CBlockIndex \<Rightarrow> u32 \<Rightarrow> (CBlockIndex \<times> bool) option" where
  "RaiseValidity b nUpTo =
     (if nUpTo AND NOT BLOCK_VALID_MASK \<noteq> 0 then None
      else if bi_nStatus b AND BLOCK_FAILED_MASK \<noteq> 0 then Some (b, False)
      else if bi_nStatus b AND BLOCK_VALID_MASK < nUpTo then
        Some (b\<lparr>bi_nStatus := bi_nStatus b AND NOT BLOCK_VALID_MASK OR nUpTo\<rparr>, True)
      else Some (b, False))"

section \<open>Ancestors\<close>

definition InvertLowestOne :: "nat \<Rightarrow> nat" where
  "InvertLowestOne n = n AND (n - 1)"

definition GetSkipHeight :: "nat \<Rightarrow> nat" where
  "GetSkipHeight height =
     (if height < 2 then 0
      else if odd height then InvertLowestOne (InvertLowestOne (height - 1)) + 1
      else InvertLowestOne height)"

lemma and_nat_le: "(a :: nat) AND b \<le> b"
proof -
  have "int (a AND b) = int a AND int b" by (simp add: of_nat_and_eq)
  also have "\<dots> \<le> int b" by (rule AND_upper2) simp
  finally show ?thesis by simp
qed

lemma InvertLowestOne_less: "0 < n \<Longrightarrow> InvertLowestOne n < n"
  using and_nat_le[of n "n - 1"] by (simp add: InvertLowestOne_def)

lemma GetSkipHeight_less: "0 < height \<Longrightarrow> GetSkipHeight height < height"
proof (cases "odd height \<and> 2 \<le> height")
  case True
  have "InvertLowestOne (InvertLowestOne (height - 1)) \<le> InvertLowestOne (height - 1)"
    using InvertLowestOne_less[of "InvertLowestOne (height - 1)"] by (cases "InvertLowestOne (height - 1) = 0") (auto simp: InvertLowestOne_def)
  moreover have "InvertLowestOne (height - 1) < height - 1" using True by (intro InvertLowestOne_less) auto
  ultimately show ?thesis using True by (simp add: GetSkipHeight_def)
qed (auto simp: GetSkipHeight_def InvertLowestOne_less)

text \<open>The walk of \<open>GetAncestor\<close>, which follows the skip pointer unless the skip pointer of the predecessor
  comes closer.\<close>

function ancestor_walk :: "heap \<Rightarrow> ptr \<Rightarrow> nat \<Rightarrow> nat \<Rightarrow> ptr option" where
  "ancestor_walk m pindexWalk heightWalk height =
     (if heightWalk \<le> height then Some pindexWalk
      else
        let heightSkip = GetSkipHeight heightWalk;
            heightSkipPrev = GetSkipHeight (heightWalk - 1) in
        if bi_pskip (m pindexWalk) \<noteq> None \<and>
           (heightSkip = height \<or>
            heightSkip > height \<and> \<not> (int heightSkipPrev < int heightSkip - 2 \<and> heightSkipPrev \<ge> height))
        then ancestor_walk m (the (bi_pskip (m pindexWalk))) heightSkip height
        else (case bi_pprev (m pindexWalk) of
                None \<Rightarrow> None
              | Some pprev \<Rightarrow> ancestor_walk m pprev (heightWalk - 1) height))"
  by pat_completeness auto
termination
  by (relation "measure (\<lambda>(m, p, hw, h). hw)") (auto simp: GetSkipHeight_less)

declare ancestor_walk.simps [simp del]

definition GetAncestor :: "heap \<Rightarrow> ptr \<Rightarrow> int \<Rightarrow> ptr option" where
  "GetAncestor m p height =
     (if height > bi_nHeight (m p) \<or> height < 0 then None
      else ancestor_walk m p (nat (bi_nHeight (m p))) (nat height))"

definition BuildSkip :: "heap \<Rightarrow> CBlockIndex \<Rightarrow> CBlockIndex" where
  "BuildSkip m b =
     (case bi_pprev b of
        None \<Rightarrow> b
      | Some pprev \<Rightarrow> b\<lparr>bi_pskip := GetAncestor m pprev (int (GetSkipHeight (nat (bi_nHeight b))))\<rparr>)"

section \<open>Work\<close>

definition GetBlockProof :: "CBlockIndex \<Rightarrow> arith_uint256 option" where
  "GetBlockProof b =
     (let r = SetCompact (bi_nBits b); bnTarget = cr_value r in
      if cr_negative r \<or> cr_overflow r \<or> uint_EqualTo bnTarget 0 then Some uint_zero
      else do {
        q \<leftarrow> uint_div (uint_not bnTarget) (uint_add bnTarget (uint_of_u64 1));
        Some (uint_add q (uint_of_u64 1))
      })"

definition IsBlockAuthenticated :: "heap \<Rightarrow> Params \<Rightarrow> CBlockIndex \<Rightarrow> bool" where
  "IsBlockAuthenticated m params b =
     (if \<not> IsMatMulV4Active params (bi_nHeight b) then True
      else if bi_nStatus b AND BLOCK_FAILED_MASK \<noteq> 0 then False
      else if bi_nStatus b AND BLOCK_VALID_MASK < BLOCK_VALID_TRANSACTIONS then False
      else if IsMatMulTrustedReplayAttestationActive params (bi_nHeight b) \<and>
              bi_nStatus b AND (BLOCK_EXACT_REPLAY_VERIFIED OR BLOCK_TRUSTED_REPLAY_ATTESTED) = 0 then False
      else (case bi_pprev b of
              None \<Rightarrow> True
            | Some q \<Rightarrow> bi_nAuthenticatedChainWork (m q) = bi_nChainWork (m q)))"

definition GetBlockAuthenticatedProof :: "heap \<Rightarrow> Params \<Rightarrow> CBlockIndex \<Rightarrow> arith_uint256 option" where
  "GetBlockAuthenticatedProof m params b = (if IsBlockAuthenticated m params b then GetBlockProof b else Some uint_zero)"

definition UpdateAuthenticatedChainWork :: "heap \<Rightarrow> Params \<Rightarrow> CBlockIndex \<Rightarrow> CBlockIndex option" where
  "UpdateAuthenticatedChainWork m params b = do {
     work \<leftarrow> GetBlockAuthenticatedProof m params b;
     let base = (case bi_pprev b of None \<Rightarrow> uint_zero | Some q \<Rightarrow> bi_nAuthenticatedChainWork (m q));
     Some (b\<lparr>bi_nAuthenticatedChainWork := uint_add base work\<rparr>)
   }"

text \<open>The part of the claimed work that is not authenticated.\<close>

definition unauthenticated_work :: "CBlockIndex \<Rightarrow> arith_uint256" where
  "unauthenticated_work b =
     uint_sub (bi_nChainWork b) (uint_min (bi_nChainWork b) (bi_nAuthenticatedChainWork b))"

definition GetTrustAdjustedChainWork :: "CBlockIndex \<Rightarrow> u32 \<Rightarrow> arith_uint256 option" where
  "GetTrustAdjustedChainWork b unauth_allowance_blocks = do {
     let unauth = unauthenticated_work b;
     work \<leftarrow> GetBlockProof b;
     let allowance = uint_mul32 work unauth_allowance_blocks;
     Some (uint_add (bi_nAuthenticatedChainWork b) (uint_min unauth allowance))
   }"

definition TRUST_ADJUSTED_WORK_ALLOWANCE_BLOCKS :: u32 where
  "TRUST_ADJUSTED_WORK_ALLOWANCE_BLOCKS = 6"

fun memcmp_less :: "bytes \<Rightarrow> bytes \<Rightarrow> bool" where
  "memcmp_less (x # xs) (y # ys) \<longleftrightarrow> x < y \<or> x = y \<and> memcmp_less xs ys"
| "memcmp_less _ _ \<longleftrightarrow> False"

definition PreferTrustAdjustedHeader :: "CBlockIndex \<Rightarrow> CBlockIndex \<Rightarrow> u32 \<Rightarrow> bool option" where
  "PreferTrustAdjustedHeader current candidate unauth_allowance_blocks = do {
     current_adjusted \<leftarrow> GetTrustAdjustedChainWork current unauth_allowance_blocks;
     candidate_adjusted \<leftarrow> GetTrustAdjustedChainWork candidate unauth_allowance_blocks;
     if current_adjusted \<noteq> candidate_adjusted then Some (uint_lt current_adjusted candidate_adjusted)
     else
       let current_has_unauth = uint_lt (bi_nAuthenticatedChainWork current) (bi_nChainWork current);
           candidate_has_unauth = uint_lt (bi_nAuthenticatedChainWork candidate) (bi_nChainWork candidate) in
       if \<not> current_has_unauth \<and> \<not> candidate_has_unauth then Some False
       else if bi_nAuthenticatedChainWork current \<noteq> bi_nAuthenticatedChainWork candidate then
         Some (uint_lt (bi_nAuthenticatedChainWork current) (bi_nAuthenticatedChainWork candidate))
       else
         let current_unauth = unauthenticated_work current; candidate_unauth = unauthenticated_work candidate in
         if current_unauth \<noteq> candidate_unauth then Some (uint_lt candidate_unauth current_unauth)
         else if bi_nHeight current \<noteq> bi_nHeight candidate then Some (bi_nHeight candidate < bi_nHeight current)
         else do {
           h' \<leftarrow> bi_hash candidate;
           h \<leftarrow> bi_hash current;
           Some (memcmp_less h' h)
         }
   }"

definition GetBlockProofEquivalentTime :: "CBlockIndex \<Rightarrow> CBlockIndex \<Rightarrow> CBlockIndex \<Rightarrow> Params \<Rightarrow> int option" where
  "GetBlockProofEquivalentTime t from tip params = do {
     let (r, sign) = (if uint_gt (bi_nChainWork t) (bi_nChainWork from)
                      then (uint_sub (bi_nChainWork t) (bi_nChainWork from), 1)
                      else (uint_sub (bi_nChainWork from) (bi_nChainWork t), - 1));
     work \<leftarrow> GetBlockProof tip;
     r \<leftarrow> uint_div (uint_mul r (uint_of_u64 (word_of_int (nPowTargetSpacing params)))) work;
     if uint_bits r > 63 then Some (sign * int64_max)
     else Some (sign * uint (uint_GetLow64 r))
   }"

section \<open>Walks between two entries\<close>

text \<open>A walk along predecessors that need not end on a damaged index: \<open>None\<close> when it does not.\<close>

partial_function (option) common_walk :: "heap \<Rightarrow> ptr option \<Rightarrow> ptr option \<Rightarrow> (ptr option \<times> ptr option) option" where
  [code]: "common_walk m pa pb =
     (case pa of
        None \<Rightarrow> Some (pa, pb)
      | Some a \<Rightarrow>
          (case pb of
             None \<Rightarrow> Some (pa, pb)
           | Some b \<Rightarrow> if a = b then Some (pa, pb) else common_walk m (bi_pprev (m a)) (bi_pprev (m b))))"

definition LastCommonAncestor :: "heap \<Rightarrow> ptr \<Rightarrow> ptr \<Rightarrow> ptr option option" where
  "LastCommonAncestor m pa pb = do {
     let pa' = (if bi_nHeight (m pa) > bi_nHeight (m pb) then GetAncestor m pa (bi_nHeight (m pb)) else Some pa);
     let pb' = (if bi_nHeight (m pa) > bi_nHeight (m pb) then Some pb
                else if bi_nHeight (m pb) > bi_nHeight (m pa) then GetAncestor m pb (bi_nHeight (m pa)) else Some pb);
     (ra, rb) \<leftarrow> common_walk m pa' pb';
     if ra \<noteq> rb then None else Some ra
   }"

section \<open>The active chain\<close>

type_synonym CChain = "ptr option list"

definition Chain_at :: "CChain \<Rightarrow> int \<Rightarrow> ptr option" where
  "Chain_at vChain nHeight =
     (if nHeight < 0 then None else if nat nHeight \<ge> length vChain then None else vChain ! nat nHeight)"

definition Chain_Tip :: "CChain \<Rightarrow> ptr option" where
  "Chain_Tip vChain = (if length vChain > 0 then vChain ! (length vChain - 1) else None)"

definition Chain_Contains :: "heap \<Rightarrow> CChain \<Rightarrow> ptr option \<Rightarrow> bool" where
  "Chain_Contains m vChain pindex =
     (case pindex of None \<Rightarrow> False | Some p \<Rightarrow> Chain_at vChain (bi_nHeight (m p)) = Some p)"

definition Chain_Next :: "heap \<Rightarrow> CChain \<Rightarrow> ptr option \<Rightarrow> ptr option" where
  "Chain_Next m vChain pindex =
     (case pindex of
        None \<Rightarrow> None
      | Some p \<Rightarrow>
          if \<not> Chain_Contains m vChain pindex \<or> bi_nHeight (m p) = int32_max then None
          else if nat (bi_nHeight (m p)) + 1 \<ge> length vChain then None
          else vChain ! (nat (bi_nHeight (m p)) + 1))"

definition Chain_Height :: "CChain \<Rightarrow> int" where
  "Chain_Height vChain =
     (if vChain = [] then - 1
      else if int (length vChain - 1) > int32_max then int32_max else int (length vChain - 1))"

text \<open>\<open>SetTip\<close> overwrites the entries from the new tip downwards until it meets an entry that is already
  in place. An index outside the vector is undefined.\<close>

partial_function (option) set_tip_walk :: "heap \<Rightarrow> CChain \<Rightarrow> ptr option \<Rightarrow> CChain option" where
  [code]: "set_tip_walk m vChain pindex =
     (case pindex of
        None \<Rightarrow> Some vChain
      | Some p \<Rightarrow>
          if bi_nHeight (m p) < 0 \<or> nat (bi_nHeight (m p)) \<ge> length vChain then None
          else if vChain ! nat (bi_nHeight (m p)) = Some p then Some vChain
          else set_tip_walk m (vChain[nat (bi_nHeight (m p)) := Some p]) (bi_pprev (m p)))"

definition resize :: "nat \<Rightarrow> CChain \<Rightarrow> CChain" where
  "resize n v = take n v @ replicate (n - length v) None"

definition SetTip :: "heap \<Rightarrow> CChain \<Rightarrow> ptr \<Rightarrow> CChain option" where
  "SetTip m vChain p =
     (if bi_nHeight (m p) < 0 then Some []
      else set_tip_walk m (resize (nat (bi_nHeight (m p)) + 1) vChain) (Some p))"

partial_function (option) fork_walk :: "heap \<Rightarrow> CChain \<Rightarrow> ptr option \<Rightarrow> ptr option option" where
  [code]: "fork_walk m vChain pindex =
     (case pindex of
        None \<Rightarrow> Some None
      | Some p \<Rightarrow> if Chain_Contains m vChain (Some p) then Some (Some p) else fork_walk m vChain (bi_pprev (m p)))"

definition FindFork :: "heap \<Rightarrow> CChain \<Rightarrow> ptr option \<Rightarrow> ptr option option" where
  "FindFork m vChain pindex =
     (case pindex of
        None \<Rightarrow> Some None
      | Some p \<Rightarrow>
          fork_walk m vChain
            (if bi_nHeight (m p) > Chain_Height vChain then GetAncestor m p (Chain_Height vChain) else Some p))"

text \<open>\<open>std::lower_bound\<close>: halving a range on a predicate.\<close>

function lower_bound :: "('a \<Rightarrow> bool) \<Rightarrow> 'a list \<Rightarrow> nat \<Rightarrow> nat \<Rightarrow> nat" where
  "lower_bound before xs first len =
     (if len = 0 then first
      else let half = len div 2; middle = first + half in
        if before (xs ! middle) then lower_bound before xs (middle + 1) (len - half - 1)
        else lower_bound before xs first half)"
  by pat_completeness auto
termination by (relation "measure (\<lambda>(P, xs, first, len). len)") auto

declare lower_bound.simps [simp del]

definition FindEarliestAtLeast :: "heap \<Rightarrow> CChain \<Rightarrow> int \<Rightarrow> int \<Rightarrow> ptr option" where
  "FindEarliestAtLeast m vChain time height =
     (let lower = lower_bound
            (\<lambda>pBlock. case pBlock of None \<Rightarrow> False
               | Some p \<Rightarrow> GetBlockTimeMax (m p) < time \<or> bi_nHeight (m p) < height) vChain 0 (length vChain) in
      if lower = length vChain then None else vChain ! lower)"

text \<open>\<open>LocatorEntries\<close>: the hashes of the entry and of ancestors at exponentially growing distance. The step
  is a 32-bit integer.\<close>

partial_function (option) locator_walk :: "heap \<Rightarrow> ptr option \<Rightarrow> int \<Rightarrow> uint256 list \<Rightarrow> uint256 list option" where
  [code]: "locator_walk m index step have =
     (case index of
        None \<Rightarrow> Some have
      | Some p \<Rightarrow> do {
          h \<leftarrow> bi_hash (m p);
          let have = have @ [h];
          if bi_nHeight (m p) = 0 then Some have
          else do {
            let index = GetAncestor m p (max (bi_nHeight (m p) - step) 0);
            step \<leftarrow> (if length have > 10 then i32_chk (step * 2) else Some step);
            locator_walk m index step have
          }
        })"

definition LocatorEntries :: "heap \<Rightarrow> ptr option \<Rightarrow> uint256 list option" where
  "LocatorEntries m index = locator_walk m index 1 []"

section \<open>Download frontier\<close>

definition HasUsableBlockBody :: "heap \<Rightarrow> ptr option \<Rightarrow> CChain option \<Rightarrow> bool" where
  "HasUsableBlockBody m pindex active_chain =
     (case pindex of
        None \<Rightarrow> False
      | Some p \<Rightarrow>
          if bi_nStatus (m p) AND BLOCK_HAVE_DATA \<noteq> 0 then True
          else (case active_chain of None \<Rightarrow> False | Some c \<Rightarrow> Chain_Contains m c pindex))"

fun first_missing :: "heap \<Rightarrow> CChain option \<Rightarrow> ptr \<Rightarrow> int \<Rightarrow> nat \<Rightarrow> ptr option" where
  "first_missing m active_chain best_known height 0 = None"
| "first_missing m active_chain best_known height (Suc n) =
     (let pindex = GetAncestor m best_known height in
      if \<not> HasUsableBlockBody m pindex active_chain then pindex
      else first_missing m active_chain best_known (height + 1) n)"

definition FindLowestMissingBody :: "heap \<Rightarrow> ptr option \<Rightarrow> ptr option \<Rightarrow> CChain option \<Rightarrow> ptr option option" where
  "FindLowestMissingBody m start best_known active_chain =
     (case best_known of
        None \<Rightarrow> Some None
      | Some bk \<Rightarrow> do {
          start \<leftarrow> (case start of None \<Rightarrow> GetAncestor m bk 0 | Some s \<Rightarrow> Some s);
          start' \<leftarrow> (if GetAncestor m bk (bi_nHeight (m start)) \<noteq> Some start
                    then LastCommonAncestor m start bk else Some (Some start));
          if start' = Some bk then Some None
          else do {
            s \<leftarrow> start';
            Some (first_missing m active_chain bk (bi_nHeight (m s) + 1) (nat (bi_nHeight (m bk) - bi_nHeight (m s))))
          }
        })"

record LastCommonRootFirstResult =
  lc_last_common :: ptr
  lc_lowest_missing :: "ptr option"
  lc_clamped :: bool
  lc_reason :: string

text \<open>A null common ancestor is dereferenced and undefined.\<close>

definition ClampLastCommonToRootFirst ::
    "heap \<Rightarrow> ptr option \<Rightarrow> ptr \<Rightarrow> ptr \<Rightarrow> CChain option \<Rightarrow> LastCommonRootFirstResult option" where
  "ClampLastCommonToRootFirst m last_common best_known tip active_chain = do {
     tip_lca \<leftarrow> Option.bind (LastCommonAncestor m tip best_known) id;
     lc \<leftarrow> (case last_common of
             None \<Rightarrow> Some tip_lca
           | Some l \<Rightarrow> Option.bind (LastCommonAncestor m l best_known) id);
     let (lc, clamped, reason) =
       (if lc \<noteq> tip_lca \<and> GetAncestor m tip_lca (bi_nHeight (m lc)) \<noteq> Some lc \<and>
           GetAncestor m lc (bi_nHeight (m tip_lca)) \<noteq> Some tip_lca
        then (tip_lca, True, ''rederived_tip_lca'') else (lc, False, ''ok''));
     let (lc, clamped, reason) =
       (if bi_nHeight (m lc) < bi_nHeight (m tip_lca) then (tip_lca, True, ''raised_to_tip_lca'')
        else (lc, clamped, reason));
     lowest_missing \<leftarrow> FindLowestMissingBody m (Some tip_lca) (Some best_known) active_chain;
     (case lowest_missing of
        None \<Rightarrow> Some \<lparr>lc_last_common = lc, lc_lowest_missing = None, lc_clamped = clamped,
                      lc_reason = (if \<not> clamped then ''ok_no_missing'' else reason)\<rparr>
      | Some lm \<Rightarrow> do {
          safe \<leftarrow> bi_pprev (m lm);
          if bi_nHeight (m lc) \<ge> bi_nHeight (m lm)
          then Some \<lparr>lc_last_common = safe, lc_lowest_missing = Some lm, lc_clamped = True,
                     lc_reason = ''clamped_past_missing_root''\<rparr>
          else Some \<lparr>lc_last_common = lc, lc_lowest_missing = Some lm, lc_clamped = clamped, lc_reason = reason\<rparr>
        })
   }"

section \<open>Adding a header\<close>

definition NextBlockHeightOrLimit :: "int \<Rightarrow> int" where
  "NextBlockHeightOrLimit current_height = (if current_height = int32_max then int32_max else current_height + 1)"

record BlockManager =
  bm_heap :: heap
  bm_keys :: "uint256 list"
  bm_children :: "ptr \<Rightarrow> ptr list"
  bm_dirty :: "ptr list"
  bm_best_header :: "ptr option"

text \<open>The fields of a freshly emplaced entry, whose predecessor was found or not.\<close>

definition fill_new_entry :: "Params \<Rightarrow> heap \<Rightarrow> CBlockIndex \<Rightarrow> ptr option \<Rightarrow> CBlockIndex option" where
  "fill_new_entry params m b prev = do {
     let b = (case prev of
                None \<Rightarrow> b
              | Some q \<Rightarrow>
                  BuildSkip m (b\<lparr>bi_pprev := Some q, bi_nHeight := NextBlockHeightOrLimit (bi_nHeight (m q))\<rparr>));
     let b = b\<lparr>bi_nTimeMax := (case prev of None \<Rightarrow> bi_nTime b | Some q \<Rightarrow> max (bi_nTimeMax (m q)) (bi_nTime b))\<rparr>;
     work \<leftarrow> GetBlockProof b;
     let b = b\<lparr>bi_nChainWork := uint_add (case prev of None \<Rightarrow> uint_zero | Some q \<Rightarrow> bi_nChainWork (m q)) work\<rparr>;
     b \<leftarrow> UpdateAuthenticatedChainWork m params b;
     (b, _) \<leftarrow> RaiseValidity b BLOCK_VALID_TREE;
     Some b
   }"

definition AddToBlockIndex :: "Params \<Rightarrow> BlockManager \<Rightarrow> CBlockHeader \<Rightarrow> (BlockManager \<times> ptr) option" where
  "AddToBlockIndex params bm block = do {
     let hash = CBlockHeader_GetHash block;
     if hash \<in> set (bm_keys bm) then Some (bm, hash)
     else do {
       let b = (CBlockIndex_init block)\<lparr>bi_hash := Some hash\<rparr>;
       let m = (bm_heap bm)(hash := b);
       let prev = (if hashPrevBlock block \<in> set (hash # bm_keys bm) then Some (hashPrevBlock block) else None);
       let children = (case prev of None \<Rightarrow> bm_children bm
                       | Some q \<Rightarrow> (bm_children bm)(q := bm_children bm q @ [hash]));
       b \<leftarrow> fill_new_entry params m b prev;
       let m = m(hash := b);
       prefer \<leftarrow> (case bm_best_header bm of
                   None \<Rightarrow> Some True
                 | Some q \<Rightarrow> PreferTrustAdjustedHeader (m q) b TRUST_ADJUSTED_WORK_ALLOWANCE_BLOCKS);
       Some (bm\<lparr>bm_heap := m, bm_keys := hash # bm_keys bm, bm_children := children, bm_dirty := hash # bm_dirty bm,
                bm_best_header := (if prefer then Some hash else bm_best_header bm)\<rparr>, hash)
     }
   }"

end
