(* ===== verification/Chain_Walks.thy ===== *)
theory Chain_Walks
  imports Chain
begin

text \<open>
  The walks over the block index are the plain walks along predecessors: \<open>GetAncestor\<close> with its skip list,
  \<open>LastCommonAncestor\<close>, \<open>SetTip\<close>, \<open>FindFork\<close> and the binary search of \<open>FindEarliestAtLeast\<close> are related
  to \<open>up\<close>, the k-fold predecessor.
\<close>

primrec up :: "heap \<Rightarrow> nat \<Rightarrow> ptr \<Rightarrow> ptr option" where
  "up m 0 p = Some p"
| "up m (Suc k) p = (case bi_pprev (m p) of None \<Rightarrow> None | Some q \<Rightarrow> up m k q)"

abbreviation hgt :: "heap \<Rightarrow> ptr \<Rightarrow> nat" where
  "hgt m p \<equiv> nat (bi_nHeight (m p))"

definition linked_entry :: "heap \<Rightarrow> ptr set \<Rightarrow> ptr \<Rightarrow> bool" where
  "linked_entry m S p \<longleftrightarrow>
     0 \<le> bi_nHeight (m p) \<and>
     (case bi_pprev (m p) of None \<Rightarrow> bi_nHeight (m p) = 0 | Some q \<Rightarrow> q \<in> S \<and> bi_nHeight (m p) = bi_nHeight (m q) + 1) \<and>
     (case bi_pskip (m p) of None \<Rightarrow> True | Some s \<Rightarrow> up m (hgt m p - GetSkipHeight (hgt m p)) p = Some s)"

definition linked :: "heap \<Rightarrow> ptr set \<Rightarrow> bool" where
  "linked m S \<longleftrightarrow> (\<forall>p \<in> S. linked_entry m S p)"

definition anc :: "heap \<Rightarrow> ptr \<Rightarrow> ptr \<Rightarrow> bool" where
  "anc m q p \<longleftrightarrow> (\<exists>k. up m k p = Some q)"

lemma up_add: "up m (a + b) p = Option.bind (up m a p) (up m b)"
  by (induction a arbitrary: p) (auto split: option.splits)

lemma linkedD:
  assumes "linked m S" "p \<in> S"
  shows "0 \<le> bi_nHeight (m p)" "bi_pprev (m p) = None \<longleftrightarrow> hgt m p = 0"
    "bi_pprev (m p) = Some q \<Longrightarrow> q \<in> S \<and> hgt m p = Suc (hgt m q)"
    "bi_pskip (m p) = Some s \<Longrightarrow> up m (hgt m p - GetSkipHeight (hgt m p)) p = Some s"
proof -
  have e: "linked_entry m S r" if "r \<in> S" for r using assms(1) that by (simp add: linked_def)
  note ep = e[OF assms(2), unfolded linked_entry_def]
  show "0 \<le> bi_nHeight (m p)" using ep by simp
  show pq: "q \<in> S \<and> hgt m p = Suc (hgt m q)" if "bi_pprev (m p) = Some q" for q
    using ep that e[of q] by (auto simp: linked_entry_def)
  show "bi_pprev (m p) = None \<longleftrightarrow> hgt m p = 0" using ep pq by (cases "bi_pprev (m p)") auto
  show "up m (hgt m p - GetSkipHeight (hgt m p)) p = Some s" if "bi_pskip (m p) = Some s" using ep that by simp
qed

lemma up_linked:
  assumes l: "linked m S"
  shows "p \<in> S \<Longrightarrow> k \<le> hgt m p \<Longrightarrow> \<exists>q \<in> S. up m k p = Some q \<and> hgt m q = hgt m p - k"
proof (induction k arbitrary: p)
  case (Suc k)
  then have "bi_pprev (m p) \<noteq> None" using linkedD(2)[OF l Suc.prems(1)] by simp
  then obtain q where q: "bi_pprev (m p) = Some q" by blast
  then have "q \<in> S" "hgt m p = Suc (hgt m q)" using linkedD(3)[OF l Suc.prems(1)] by blast+
  with Suc q show ?case by auto
qed simp

lemma up_beyond:
  assumes l: "linked m S"
  shows "p \<in> S \<Longrightarrow> hgt m p < k \<Longrightarrow> up m k p = None"
proof (induction k arbitrary: p)
  case (Suc k)
  show ?case
  proof (cases "bi_pprev (m p)")
    case (Some q)
    then have "q \<in> S" "hgt m p = Suc (hgt m q)" using linkedD(3)[OF l Suc.prems(1)] by blast+
    with Suc Some show ?thesis by simp
  qed simp
qed simp

lemma up_Some:
  assumes "linked m S" "p \<in> S" "up m k p = Some q"
  shows "k \<le> hgt m p" "q \<in> S" "hgt m q = hgt m p - k"
proof -
  show k: "k \<le> hgt m p" using up_beyond[OF assms(1,2), of k] assms(3) by (cases "hgt m p < k") auto
  show "q \<in> S" "hgt m q = hgt m p - k" using up_linked[OF assms(1,2) k] assms(3) by auto
qed

lemma ancestor_walk_correct:
  assumes l: "linked m S"
  shows "p \<in> S \<Longrightarrow> n = hgt m p \<Longrightarrow> h \<le> n \<Longrightarrow> ancestor_walk m p n h = up m (n - h) p"
proof (induction n arbitrary: p rule: less_induct)
  case (less n)
  show ?case
  proof (cases "n \<le> h")
    case True
    then show ?thesis using less.prems by (subst ancestor_walk.simps) simp
  next
    case False
    then have n0: "0 < n" by simp
    let ?s = "GetSkipHeight n" and ?sp = "GetSkipHeight (n - 1)"
    let ?skip = "bi_pskip (m p) \<noteq> None \<and> (?s = h \<or> ?s > h \<and> \<not> (int ?sp < int ?s - 2 \<and> ?sp \<ge> h))"
    show ?thesis
    proof (cases ?skip)
      case True
      then obtain s where s: "bi_pskip (m p) = Some s" by blast
      have sl: "?s < n" by (rule GetSkipHeight_less[OF n0])
      have us: "up m (n - ?s) p = Some s" using linkedD(4)[OF l less.prems(1) s] less.prems(2) by simp
      have "h \<le> ?s" using True by auto
      have "s \<in> S" "hgt m s = ?s" using up_Some[OF l less.prems(1) us] sl less.prems(2) by auto
      then have "ancestor_walk m s ?s h = up m (?s - h) s" using less.IH[OF sl, of s] \<open>h \<le> ?s\<close> by simp
      moreover have "n - h = (n - ?s) + (?s - h)" using sl \<open>h \<le> ?s\<close> by simp
      ultimately have "ancestor_walk m s ?s h = up m (n - h) p" by (simp add: up_add us)
      then show ?thesis using True s False by (subst ancestor_walk.simps) (simp add: Let_def)
    next
      case no: False
      obtain q where q: "bi_pprev (m p) = Some q" using linkedD(2)[OF l less.prems(1)] n0 less.prems(2) by auto
      then have qS: "q \<in> S" "hgt m q = n - 1" using linkedD(3)[OF l less.prems(1) q] less.prems(2) by auto
      then have "ancestor_walk m q (n - 1) h = up m (n - 1 - h) q" using less.IH[of "n - 1" q] n0 False by simp
      moreover have "n - h = Suc (n - 1 - h)" using False by simp
      ultimately show ?thesis using no q False by (subst ancestor_walk.simps) (auto simp: Let_def)
    qed
  qed
qed

lemma GetAncestor_correct:
  assumes l: "linked m S" and p: "p \<in> S"
  shows "GetAncestor m p h =
    (if 0 \<le> h \<and> h \<le> bi_nHeight (m p) then up m (hgt m p - nat h) p else None)"
  using ancestor_walk_correct[OF l p refl, of "nat h"] linkedD(1)[OF l p] by (auto simp: GetAncestor_def)

lemma GetAncestor_exists:
  assumes l: "linked m S" and p: "p \<in> S" and h: "0 \<le> h" "h \<le> bi_nHeight (m p)"
  obtains q where "GetAncestor m p h = Some q" "q \<in> S" "bi_nHeight (m q) = h" "anc m q p"
proof -
  obtain q where q: "q \<in> S" "up m (hgt m p - nat h) p = Some q" "hgt m q = hgt m p - (hgt m p - nat h)"
    using up_linked[OF l p, of "hgt m p - nat h"] by auto
  moreover have "bi_nHeight (m q) = h" using q(3) h linkedD(1)[OF l q(1)] by linarith
  ultimately show ?thesis using that GetAncestor_correct[OF l p, of h] h by (auto simp: anc_def)
qed

section \<open>The last common ancestor\<close>

lemma anc_refl: "anc m p p"
  unfolding anc_def by (rule exI[of _ 0]) simp

lemma anc_step: "bi_pprev (m p) = Some q \<Longrightarrow> anc m c q \<Longrightarrow> anc m c p"
  unfolding anc_def by (metis option.simps(5) up.simps(2))

lemma anc_cases: "anc m c p \<Longrightarrow> c = p \<or> (\<exists>q. bi_pprev (m p) = Some q \<and> anc m c q)"
proof -
  assume "anc m c p"
  then obtain k where "up m k p = Some c" by (auto simp: anc_def)
  then show ?thesis by (cases k) (auto simp: anc_def split: option.splits)
qed

lemma anc_trans: "anc m a b \<Longrightarrow> anc m b c \<Longrightarrow> anc m a c"
  unfolding anc_def by (metis bind.bind_lunit up_add)

lemma anc_height:
  assumes "linked m S" "p \<in> S" "anc m q p"
  shows "q \<in> S" "hgt m q \<le> hgt m p" "up m (hgt m p - hgt m q) p = Some q"
proof -
  obtain k where k: "up m k p = Some q" using assms(3) by (auto simp: anc_def)
  note u = up_Some[OF assms(1,2) k]
  show "q \<in> S" "hgt m q \<le> hgt m p" using u by simp_all
  have "hgt m p - hgt m q = k" using u by simp
  then show "up m (hgt m p - hgt m q) p = Some q" using k by simp
qed

lemma anc_same_height: "linked m S \<Longrightarrow> p \<in> S \<Longrightarrow> anc m q p \<Longrightarrow> hgt m q = hgt m p \<Longrightarrow> q = p"
  using anc_height(3)[of m S p q] by simp

lemma anc_below:
  assumes l: "linked m S" and p: "p \<in> S" and q: "anc m q p" and c: "anc m c p" and h: "hgt m c \<le> hgt m q"
  shows "anc m c q"
proof -
  note Q = anc_height[OF l p q] and C = anc_height[OF l p c]
  have "hgt m p - hgt m c = (hgt m p - hgt m q) + (hgt m q - hgt m c)" using Q(2) h by simp
  then have "up m (hgt m q - hgt m c) q = Some c" using C(3) Q(3) by (simp add: up_add)
  then show ?thesis by (auto simp: anc_def)
qed

definition greatest_common :: "heap \<Rightarrow> ptr \<Rightarrow> ptr \<Rightarrow> ptr option \<Rightarrow> bool" where
  "greatest_common m a b r \<longleftrightarrow>
     (case r of None \<Rightarrow> \<not> (\<exists>c. anc m c a \<and> anc m c b)
      | Some c \<Rightarrow> anc m c a \<and> anc m c b \<and> (\<forall>d. anc m d a \<and> anc m d b \<longrightarrow> anc m d c))"

lemma common_walk_unfold:
  "common_walk m None pb = Some (None, pb)"
  "common_walk m (Some a) (Some b) = (if a = b then Some (Some a, Some a) else common_walk m (bi_pprev (m a)) (bi_pprev (m b)))"
  by (subst common_walk.simps, simp)+

lemma common_walk_same: "common_walk m (Some a) (Some a) = Some (Some a, Some a) \<and> greatest_common m a a (Some a)"
  by (simp add: common_walk_unfold greatest_common_def anc_refl)

lemma common_walk_correct:
  assumes l: "linked m S"
  shows "a \<in> S \<Longrightarrow> b \<in> S \<Longrightarrow> hgt m a = n \<Longrightarrow> hgt m b = n \<Longrightarrow>
    \<exists>r. common_walk m (Some a) (Some b) = Some (r, r) \<and> greatest_common m a b r"
proof (induction n arbitrary: a b)
  case 0
  show ?case
  proof (cases "a = b")
    case True
    then show ?thesis using common_walk_same by blast
  next
    case False
    have pn: "bi_pprev (m a) = None" "bi_pprev (m b) = None" using linkedD(2)[OF l] 0 by simp_all
    then have "common_walk m (Some a) (Some b) = Some (None, None)"
      using False by (simp add: common_walk_unfold)
    moreover have "c = a" if "anc m c a" for c using anc_cases[OF that] pn(1) by simp
    moreover have "c = b" if "anc m c b" for c using anc_cases[OF that] pn(2) by simp
    ultimately have "common_walk m (Some a) (Some b) = Some (None, None) \<and> greatest_common m a b None"
      using False unfolding greatest_common_def by auto
    then show ?thesis by blast
  qed
next
  case (Suc n)
  show ?case
  proof (cases "a = b")
    case True
    then show ?thesis using common_walk_same by blast
  next
    case False
    obtain a' b' where p: "bi_pprev (m a) = Some a'" "bi_pprev (m b) = Some b'"
      using linkedD(2)[OF l Suc.prems(1)] linkedD(2)[OF l Suc.prems(2)] Suc.prems(3,4) by auto
    have S': "a' \<in> S" "hgt m a' = n" "b' \<in> S" "hgt m b' = n"
      using linkedD(3)[OF l Suc.prems(1) p(1)] linkedD(3)[OF l Suc.prems(2) p(2)] Suc.prems(3,4) by auto
    obtain r where r: "common_walk m (Some a') (Some b') = Some (r, r)" "greatest_common m a' b' r"
      using Suc.IH[OF S'(1,3,2,4)] by blast
    have iff: "anc m c a \<and> anc m c b \<longleftrightarrow> anc m c a' \<and> anc m c b'" for c
    proof
      assume c: "anc m c a \<and> anc m c b"
      have "c \<noteq> a" using anc_same_height[OF l Suc.prems(2), of a] c False Suc.prems by auto
      moreover have "c \<noteq> b" using anc_same_height[OF l Suc.prems(1), of b] c False Suc.prems by auto
      ultimately show "anc m c a' \<and> anc m c b'" using c p anc_cases[of m c a] anc_cases[of m c b] by auto
    qed (auto intro: anc_step p)
    have "greatest_common m a b r" using r(2) iff by (auto simp: greatest_common_def split: option.splits)
    then show ?thesis using r(1) False p by (simp add: common_walk_unfold)
  qed
qed

lemma LastCommonAncestor_correct:
  assumes l: "linked m S" and a: "a \<in> S" and b: "b \<in> S"
  shows "\<exists>r. LastCommonAncestor m a b = Some r \<and> greatest_common m a b r"
proof -
  have lift: "greatest_common m a b r" if "greatest_common m a' b' r" "anc m a' a" "anc m b' b" "hgt m a' = hgt m b'"
      "hgt m a' = min (hgt m a) (hgt m b)" for a' b' r
  proof -
    have "anc m c a \<and> anc m c b \<longleftrightarrow> anc m c a' \<and> anc m c b'" for c
    proof
      assume c: "anc m c a \<and> anc m c b"
      then have "hgt m c \<le> hgt m a'" using anc_height(2)[OF l a] anc_height(2)[OF l b] that(5) by auto
      then show "anc m c a' \<and> anc m c b'" using c that(2,3,4) anc_below[OF l a that(2), of c] anc_below[OF l b that(3), of c] by auto
    qed (auto intro: anc_trans that(2,3))
    then show ?thesis using that(1) by (auto simp: greatest_common_def split: option.splits)
  qed
  have H: "0 \<le> bi_nHeight (m a)" "0 \<le> bi_nHeight (m b)" using linkedD(1)[OF l] a b by simp_all
  have "\<exists>a' b'. (if bi_nHeight (m a) > bi_nHeight (m b) then GetAncestor m a (bi_nHeight (m b)) else Some a) = Some a' \<and>
      (if bi_nHeight (m a) > bi_nHeight (m b) then Some b
       else if bi_nHeight (m b) > bi_nHeight (m a) then GetAncestor m b (bi_nHeight (m a)) else Some b) = Some b' \<and>
      a' \<in> S \<and> b' \<in> S \<and> anc m a' a \<and> anc m b' b \<and> hgt m a' = min (hgt m a) (hgt m b) \<and> hgt m b' = hgt m a'"
  proof (cases "bi_nHeight (m a) > bi_nHeight (m b)")
    case True
    obtain q where "GetAncestor m a (bi_nHeight (m b)) = Some q" "q \<in> S" "bi_nHeight (m q) = bi_nHeight (m b)" "anc m q a"
      by (rule GetAncestor_exists[OF l a H(2)]) (use True in auto)
    then show ?thesis using True b by (auto simp: anc_refl)
  next
    case le: False
    show ?thesis
    proof (cases "bi_nHeight (m b) > bi_nHeight (m a)")
      case True
      obtain q where "GetAncestor m b (bi_nHeight (m a)) = Some q" "q \<in> S" "bi_nHeight (m q) = bi_nHeight (m a)" "anc m q b"
        by (rule GetAncestor_exists[OF l b H(1)]) (use True in auto)
      then show ?thesis using True a by (auto simp: anc_refl)
    next
      case False
      then have "bi_nHeight (m a) = bi_nHeight (m b)" using le by simp
      then show ?thesis using a b by (auto simp: anc_refl)
    qed
  qed
  then obtain a' b' where ab: "(if bi_nHeight (m a) > bi_nHeight (m b) then GetAncestor m a (bi_nHeight (m b)) else Some a) = Some a'"
      "(if bi_nHeight (m a) > bi_nHeight (m b) then Some b
       else if bi_nHeight (m b) > bi_nHeight (m a) then GetAncestor m b (bi_nHeight (m a)) else Some b) = Some b'"
      "a' \<in> S" "b' \<in> S" "anc m a' a" "anc m b' b" "hgt m a' = min (hgt m a) (hgt m b)" "hgt m b' = hgt m a'" by blast
  obtain r where r: "common_walk m (Some a') (Some b') = Some (r, r)" "greatest_common m a' b' r"
    using common_walk_correct[OF l ab(3,4) refl ab(8)] by blast
  show ?thesis unfolding LastCommonAncestor_def ab(1,2) Let_def
    using r(1) lift[OF r(2) ab(5,6) ab(8)[symmetric] ab(7)] by simp
qed

section \<open>The active chain\<close>

definition branch :: "heap \<Rightarrow> ptr \<Rightarrow> CChain" where
  "branch m t = map (\<lambda>h. up m (hgt m t - h) t) [0..<Suc (hgt m t)]"

definition chain_ok :: "heap \<Rightarrow> ptr set \<Rightarrow> CChain \<Rightarrow> bool" where
  "chain_ok m S v \<longleftrightarrow> v = [] \<or> (\<exists>t \<in> S. v = branch m t)"

lemma branch_nth: "h \<le> hgt m t \<Longrightarrow> branch m t ! h = up m (hgt m t - h) t"
  unfolding branch_def by (subst nth_map) (simp_all del: upt_Suc)

lemma branch_length: "length (branch m t) = Suc (hgt m t)"
  by (simp add: branch_def)

lemma branch_up:
  assumes "linked m S" "t \<in> S" "h \<le> hgt m t"
  obtains q where "branch m t ! h = Some q" "q \<in> S" "hgt m q = h" "anc m q t"
proof -
  obtain q where "q \<in> S" "up m (hgt m t - h) t = Some q" "hgt m q = hgt m t - (hgt m t - h)"
    using up_linked[OF assms(1,2), of "hgt m t - h"] by auto
  with that assms(3) show ?thesis by (auto simp: branch_nth anc_def)
qed

lemma branch_contains:
  assumes l: "linked m S" and t: "t \<in> S" and p: "p \<in> S"
  shows "Chain_Contains m (branch m t) (Some p) \<longleftrightarrow> anc m p t"
proof (cases "hgt m p \<le> hgt m t")
  case True
  have "Chain_Contains m (branch m t) (Some p) \<longleftrightarrow> up m (hgt m t - hgt m p) t = Some p"
    using True linkedD(1)[OF l p] by (simp add: Chain_Contains_def Chain_at_def branch_length branch_nth)
  also have "\<dots> \<longleftrightarrow> anc m p t" using anc_height(3)[OF l t] by (auto simp: anc_def)
  finally show ?thesis .
next
  case False
  then have "\<not> anc m p t" using anc_height(2)[OF l t] by auto
  with False show ?thesis using linkedD(1)[OF l p] by (simp add: Chain_Contains_def Chain_at_def branch_length)
qed

lemma branch_below:
  assumes l: "linked m S" and s: "s \<in> S" and i: "i \<le> hgt m s" "branch m s ! i = Some q" and j: "j \<le> i"
  shows "branch m s ! j = up m (i - j) q"
proof -
  have "branch m s ! j = up m ((hgt m s - i) + (i - j)) s" using i(1) j by (simp add: branch_nth)
  also have "\<dots> = up m (i - j) q" unfolding up_add using i by (simp add: branch_nth)
  finally show ?thesis .
qed

definition downward :: "heap \<Rightarrow> CChain \<Rightarrow> bool" where
  "downward m r \<longleftrightarrow> (\<forall>i q j. i < length r \<longrightarrow> r ! i = Some q \<longrightarrow> j \<le> i \<longrightarrow> r ! j = up m (i - j) q)"

lemma resize_nth: "i < n \<Longrightarrow> resize n v ! i = (if i < length v then v ! i else None)"
  by (simp add: resize_def nth_append)

lemma resize_length: "length (resize n v) = n"
  by (simp add: resize_def)

lemma downward_resize:
  assumes "linked m S" "chain_ok m S v"
  shows "downward m (resize n v)"
proof -
  consider "v = []" | s where "s \<in> S" "v = branch m s" using assms(2) by (auto simp: chain_ok_def)
  then show ?thesis
  proof cases
    case 1
    then show ?thesis by (simp add: downward_def resize_nth resize_length)
  next
    case (2 s)
    show ?thesis unfolding downward_def
    proof (intro allI impI)
      fix i q j assume i: "i < length (resize n v)" "resize n v ! i = Some q" "j \<le> i"
      then have "i < n" "i < length v" "v ! i = Some q" by (auto simp: resize_nth resize_length split: if_splits)
      then show "resize n v ! j = up m (i - j) q"
        using branch_below[OF assms(1) 2(1), of i q j] i(3) 2(2) by (simp add: resize_nth branch_length)
    qed
  qed
qed

lemma set_tip_walk_unfold:
  "set_tip_walk m v None = Some v"
  "set_tip_walk m v (Some p) =
     (if bi_nHeight (m p) < 0 \<or> hgt m p \<ge> length v then None
      else if v ! hgt m p = Some p then Some v else set_tip_walk m (v[hgt m p := Some p]) (bi_pprev (m p)))"
  by (subst set_tip_walk.simps, simp)+

lemma set_tip_walk_correct:
  assumes l: "linked m S" and t: "t \<in> S" and r: "downward m r" "length r = Suc (hgt m t)"
  shows "p \<in> S \<Longrightarrow> hgt m p = n \<Longrightarrow> n \<le> hgt m t \<Longrightarrow> up m (hgt m t - n) t = Some p \<Longrightarrow> length v = Suc (hgt m t) \<Longrightarrow>
    (\<forall>i. n < i \<longrightarrow> i \<le> hgt m t \<longrightarrow> v ! i = branch m t ! i) \<Longrightarrow> (\<forall>i \<le> n. v ! i = r ! i) \<Longrightarrow>
    set_tip_walk m v (Some p) = Some (branch m t)"
proof (induction n arbitrary: p v)
  case (0 p v)
  have "0 \<le> bi_nHeight (m p)" by (rule linkedD(1)[OF l 0(1)])
  moreover have "bi_pprev (m p) = None" using linkedD(2)[OF l 0(1)] 0(2) by simp
  moreover have "v[0 := Some p] = branch m t"
  proof (rule nth_equalityI)
    fix i assume "i < length (v[0 := Some p])"
    then show "v[0 := Some p] ! i = branch m t ! i" using 0 by (cases i) (simp_all add: branch_nth)
  qed (simp add: 0 branch_length)
  moreover have "v = v[0 := Some p]" if "v ! 0 = Some p" using that by (metis list_update_id)
  ultimately show ?case using 0 by (auto simp: set_tip_walk_unfold)
next
  case (Suc n p v)
  have ge: "0 \<le> bi_nHeight (m p)" by (rule linkedD(1)[OF l Suc.prems(1)])
  show ?case
  proof (cases "v ! Suc n = Some p")
    case True
    have "v = branch m t"
    proof (rule nth_equalityI)
      fix i assume i: "i < length v"
      show "v ! i = branch m t ! i"
      proof (cases "Suc n < i")
        case False
        have "r ! Suc n = Some p" using Suc.prems(7) True by simp
        then have "r ! i = up m (Suc n - i) p" using r False Suc.prems(3) unfolding downward_def by auto
        also have "\<dots> = branch m t ! i"
          using branch_below[OF l t, of "Suc n" p i] Suc.prems(3,4) False by (simp add: branch_nth)
        finally show ?thesis using Suc.prems(7) False by simp
      qed (use Suc.prems(5,6) i in simp)
    qed (simp add: Suc.prems branch_length)
    then show ?thesis using True ge Suc.prems by (simp add: set_tip_walk_unfold)
  next
    case False
    obtain q where q: "bi_pprev (m p) = Some q" using linkedD(2)[OF l Suc.prems(1)] Suc.prems(2) by auto
    have qS: "q \<in> S" "hgt m q = n" using linkedD(3)[OF l Suc.prems(1) q] Suc.prems(2) by auto
    have "hgt m t - n = (hgt m t - Suc n) + 1" using Suc.prems(3) by simp
    then have "up m (hgt m t - n) t = Some q" by (simp only: up_add Suc.prems(4)) (simp add: q)
    moreover have "\<forall>i. n < i \<longrightarrow> i \<le> hgt m t \<longrightarrow> v[Suc n := Some p] ! i = branch m t ! i"
      using Suc.prems(3,4,5,6) by (auto simp: nth_list_update branch_nth)
    moreover have "\<forall>i \<le> n. v[Suc n := Some p] ! i = r ! i" using Suc.prems(7) by simp
    ultimately have "set_tip_walk m (v[Suc n := Some p]) (Some q) = Some (branch m t)"
      using Suc.IH[OF qS, of "v[Suc n := Some p]"] Suc.prems(3,5) by simp
    then show ?thesis using False ge Suc.prems q by (simp add: set_tip_walk_unfold)
  qed
qed

lemma SetTip_correct:
  assumes l: "linked m S" and v: "chain_ok m S v" and t: "t \<in> S"
  shows "SetTip m v t = Some (branch m t)" "chain_ok m S (branch m t)"
proof -
  have "set_tip_walk m (resize (Suc (hgt m t)) v) (Some t) = Some (branch m t)"
    by (rule set_tip_walk_correct[OF l t downward_resize[OF l v, of "Suc (hgt m t)"] _ t refl order_refl])
      (auto simp: resize_length)
  then show "SetTip m v t = Some (branch m t)" using linkedD(1)[OF l t] by (simp add: SetTip_def)
  show "chain_ok m S (branch m t)" using t by (auto simp: chain_ok_def)
qed

lemma greatest_common_lift:
  "greatest_common m a' b' r \<Longrightarrow> (\<And>c. anc m c a \<and> anc m c b \<longleftrightarrow> anc m c a' \<and> anc m c b') \<Longrightarrow> greatest_common m a b r"
  by (auto simp: greatest_common_def split: option.splits)

lemma fork_walk_unfold:
  "fork_walk m v None = Some None"
  "fork_walk m v (Some p) = (if Chain_Contains m v (Some p) then Some (Some p) else fork_walk m v (bi_pprev (m p)))"
  by (subst fork_walk.simps, simp)+

lemma fork_walk_correct:
  assumes l: "linked m S" and t: "t \<in> S"
  shows "q \<in> S \<Longrightarrow> hgt m q = n \<Longrightarrow> \<exists>r. fork_walk m (branch m t) (Some q) = Some r \<and> greatest_common m q t r"
proof (induction n arbitrary: q)
  case (0 q)
  have pn: "bi_pprev (m q) = None" using linkedD(2)[OF l 0(1)] 0(2) by simp
  have "c = q" if "anc m c q" for c using anc_cases[OF that] pn by simp
  then show ?case using branch_contains[OF l t 0(1)] pn
    by (cases "anc m q t") (auto simp: fork_walk_unfold greatest_common_def anc_refl)
next
  case (Suc n q)
  show ?case
  proof (cases "anc m q t")
    case True
    then show ?thesis using branch_contains[OF l t Suc.prems(1)]
      by (simp add: fork_walk_unfold greatest_common_def anc_refl)
  next
    case False
    obtain q' where q': "bi_pprev (m q) = Some q'" using linkedD(2)[OF l Suc.prems(1)] Suc.prems(2) by auto
    have "q' \<in> S" "hgt m q' = n" using linkedD(3)[OF l Suc.prems(1) q'] Suc.prems(2) by auto
    then obtain r where r: "fork_walk m (branch m t) (Some q') = Some r" "greatest_common m q' t r" using Suc.IH by blast
    have "anc m c q \<and> anc m c t \<longleftrightarrow> anc m c q' \<and> anc m c t" for c
      using anc_cases[of m c q] anc_step[of m q q' c] False q' by auto
    then have "greatest_common m q t r" by (rule greatest_common_lift[OF r(2)])
    then show ?thesis using r(1) branch_contains[OF l t Suc.prems(1)] False q' by (simp add: fork_walk_unfold)
  qed
qed

lemma branch_height: "bi_nHeight (m t) \<ge> 0 \<Longrightarrow> bi_nHeight (m t) \<le> int32_max \<Longrightarrow> Chain_Height (branch m t) = bi_nHeight (m t)"
  using branch_length[of m t] by (cases "branch m t") (auto simp: Chain_Height_def)

lemma FindFork_correct:
  assumes l: "linked m S" and t: "t \<in> S" "bi_nHeight (m t) \<le> int32_max" and p: "p \<in> S"
  shows "\<exists>r. FindFork m (branch m t) (Some p) = Some r \<and> greatest_common m p t r"
proof (cases "bi_nHeight (m p) > bi_nHeight (m t)")
  case True
  have H: "Chain_Height (branch m t) = bi_nHeight (m t)" using branch_height[of m t] linkedD(1)[OF l t(1)] t(2) by blast
  obtain q where q: "GetAncestor m p (bi_nHeight (m t)) = Some q" "q \<in> S" "bi_nHeight (m q) = bi_nHeight (m t)" "anc m q p"
    by (rule GetAncestor_exists[OF l p linkedD(1)[OF l t(1)]]) (use True in auto)
  obtain r where r: "fork_walk m (branch m t) (Some q) = Some r" "greatest_common m q t r"
    using fork_walk_correct[OF l t(1) q(2) refl] by blast
  have "anc m c p \<and> anc m c t \<longleftrightarrow> anc m c q \<and> anc m c t" for c
    using anc_below[OF l p q(4), of c] anc_height(2)[OF l t(1), of c] q(3) anc_trans[OF _ q(4), of c] by auto
  then have "greatest_common m p t r" by (rule greatest_common_lift[OF r(2)])
  then show ?thesis using r(1) q(1) True H by (simp add: FindFork_def)
next
  case False
  have H: "Chain_Height (branch m t) = bi_nHeight (m t)" using branch_height[of m t] linkedD(1)[OF l t(1)] t(2) by blast
  then show ?thesis using fork_walk_correct[OF l t(1) p refl] False by (simp add: FindFork_def)
qed

section \<open>Binary search by time\<close>

lemma lower_bound_correct:
  assumes "\<And>i j. first \<le> i \<Longrightarrow> i \<le> j \<Longrightarrow> j < first + len \<Longrightarrow> before (xs ! j) \<Longrightarrow> before (xs ! i)"
  shows "first \<le> lower_bound before xs first len \<and> lower_bound before xs first len \<le> first + len \<and>
    (\<forall>i. first \<le> i \<and> i < lower_bound before xs first len \<longrightarrow> before (xs ! i)) \<and>
    (\<forall>i. lower_bound before xs first len \<le> i \<and> i < first + len \<longrightarrow> \<not> before (xs ! i))"
  using assms
proof (induction before xs first len rule: lower_bound.induct)
  case (1 before xs first len)
  let ?h = "len div 2"
  show ?case
  proof (cases "len = 0")
    case True
    then show ?thesis by (subst (1 2 3 4) lower_bound.simps) auto
  next
    case len: False
    then have h: "?h < len" by simp
    show ?thesis
    proof (cases "before (xs ! (first + ?h))")
      case True
      let ?r = "lower_bound before xs (first + ?h + 1) (len - ?h - 1)"
      have IH: "first + ?h + 1 \<le> ?r \<and> ?r \<le> first + ?h + 1 + (len - ?h - 1) \<and>
          (\<forall>i. first + ?h + 1 \<le> i \<and> i < ?r \<longrightarrow> before (xs ! i)) \<and>
          (\<forall>i. ?r \<le> i \<and> i < first + ?h + 1 + (len - ?h - 1) \<longrightarrow> \<not> before (xs ! i))"
        by (rule 1(1)[OF len refl refl True]) (rule 1(3), auto)
      have e: "lower_bound before xs first len = ?r" using len True by (subst lower_bound.simps) (simp add: Let_def)
      have "before (xs ! i)" if "first \<le> i" "i < first + ?h + 1" for i
        using 1(3)[of i "first + ?h"] that True h by simp
      then have "\<forall>i. first \<le> i \<and> i < ?r \<longrightarrow> before (xs ! i)" using IH by (metis not_less)
      then show ?thesis unfolding e using IH h by auto
    next
      case False
      let ?r = "lower_bound before xs first ?h"
      have IH: "first \<le> ?r \<and> ?r \<le> first + ?h \<and> (\<forall>i. first \<le> i \<and> i < ?r \<longrightarrow> before (xs ! i)) \<and>
          (\<forall>i. ?r \<le> i \<and> i < first + ?h \<longrightarrow> \<not> before (xs ! i))"
        by (rule 1(2)[OF len refl refl False]) (rule 1(3), use h in auto)
      have e: "lower_bound before xs first len = ?r" using len False by (subst lower_bound.simps) (simp add: Let_def)
      have "\<not> before (xs ! i)" if "first + ?h \<le> i" "i < first + len" for i
        using 1(3)[of "first + ?h" i] that False by auto
      then have "\<forall>i. ?r \<le> i \<and> i < first + len \<longrightarrow> \<not> before (xs ! i)" using IH by (metis not_less)
      then show ?thesis unfolding e using IH h by auto
    qed
  qed
qed

text \<open>The largest time so far, as \<open>AddToBlockIndex\<close> maintains it along a branch.\<close>

definition time_ok :: "heap \<Rightarrow> ptr set \<Rightarrow> bool" where
  "time_ok m S \<longleftrightarrow> (\<forall>p \<in> S. bi_nTimeMax (m p) =
     (case bi_pprev (m p) of None \<Rightarrow> bi_nTime (m p) | Some q \<Rightarrow> max (bi_nTimeMax (m q)) (bi_nTime (m p))))"

lemma time_up:
  assumes l: "linked m S" and t: "time_ok m S"
  shows "p \<in> S \<Longrightarrow> up m k p = Some q \<Longrightarrow> bi_nTimeMax (m q) \<le> bi_nTimeMax (m p)"
proof (induction k arbitrary: p)
  case (Suc k)
  then obtain r where r: "bi_pprev (m p) = Some r" "up m k r = Some q" by (auto split: option.splits)
  then have "r \<in> S" using linkedD(3)[OF l Suc.prems(1)] by blast
  moreover have "bi_nTimeMax (m r) \<le> bi_nTimeMax (m p)" using t Suc.prems(1) r(1) by (auto simp: time_ok_def)
  ultimately show ?case using Suc.IH[OF _ r(2)] by fastforce
qed simp

lemma FindEarliest_correct:
  fixes h time :: int
  assumes l: "linked m S" and ti: "time_ok m S" and t: "t \<in> S"
  defines "good \<equiv> \<lambda>p. anc m p t \<and> GetBlockTimeMax (m p) \<ge> time \<and> bi_nHeight (m p) \<ge> h"
  shows "case FindEarliestAtLeast m (branch m t) time h of
      None \<Rightarrow> \<forall>p. \<not> good p
    | Some p \<Rightarrow> good p \<and> (\<forall>q. good q \<longrightarrow> bi_nHeight (m p) \<le> bi_nHeight (m q))"
proof -
  let ?v = "branch m t"
  define before where "before = (\<lambda>pBlock. case pBlock of None \<Rightarrow> False
      | Some p \<Rightarrow> GetBlockTimeMax (m p) < time \<or> bi_nHeight (m p) < h)"
  have part: "before (?v ! i)" if ij: "i \<le> j" "j < length ?v" "before (?v ! j)" for i j
  proof -
    have jh: "j \<le> hgt m t" using ij(2) by (simp add: branch_length)
    obtain q where q: "?v ! j = Some q" "q \<in> S" "hgt m q = j" by (rule branch_up[OF l t jh])
    obtain p where p: "?v ! i = Some p" "p \<in> S" "hgt m p = i"
      by (rule branch_up[OF l t, of i]) (use ij(1) jh in auto)
    have u: "up m (j - i) q = Some p" using branch_below[OF l t jh q(1) ij(1)] p(1) by simp
    have "bi_nTimeMax (m p) \<le> bi_nTimeMax (m q)" by (rule time_up[OF l ti q(2) u])
    moreover have "bi_nHeight (m p) \<le> bi_nHeight (m q)" using p(3) q(3) ij(1) linkedD(1)[OF l q(2)] linkedD(1)[OF l p(2)] by linarith
    ultimately show ?thesis using ij(3) q(1) p(1) by (auto simp: before_def GetBlockTimeMax_def word_le_def)
  qed
  define r where "r = lower_bound before ?v 0 (length ?v)"
  have r: "r \<le> length ?v" "\<And>i. i < r \<Longrightarrow> before (?v ! i)" "\<And>i. r \<le> i \<Longrightarrow> i < length ?v \<Longrightarrow> \<not> before (?v ! i)"
    using lower_bound_correct[of 0 "length ?v" before ?v] part unfolding r_def by auto
  have good: "good p \<longleftrightarrow> hgt m p < length ?v \<and> ?v ! hgt m p = Some p \<and> \<not> before (Some p)" for p
  proof -
    have "anc m p t \<longleftrightarrow> hgt m p < length ?v \<and> ?v ! hgt m p = Some p"
    proof
      assume a: "anc m p t"
      show "hgt m p < length ?v \<and> ?v ! hgt m p = Some p"
        using anc_height(2,3)[OF l t a] by (simp add: branch_length branch_nth)
    next
      assume "hgt m p < length ?v \<and> ?v ! hgt m p = Some p"
      then show "anc m p t" by (auto simp: branch_length branch_nth anc_def less_Suc_eq_le)
    qed
    then show ?thesis by (auto simp: good_def before_def)
  qed
  have F: "FindEarliestAtLeast m ?v time h = (if r = length ?v then None else ?v ! r)"
    unfolding FindEarliestAtLeast_def before_def[symmetric] r_def Let_def ..
  show ?thesis
  proof (cases "r = length ?v")
    case True
    have "\<not> good p" for p
    proof
      assume "good p"
      with good[of p] r(2)[of "hgt m p"] True show False by simp
    qed
    then show ?thesis unfolding F using True by simp
  next
    case False
    then have rl: "r < length ?v" using r(1) by simp
    obtain p where p: "?v ! r = Some p" "p \<in> S" "hgt m p = r"
      by (rule branch_up[OF l t, of r]) (use rl in \<open>auto simp: branch_length\<close>)
    have "good p" using good[of p] p r(3)[of r] rl by simp
    moreover have "bi_nHeight (m p) \<le> bi_nHeight (m q)" if "good q" for q
    proof -
      have "r \<le> hgt m q" using that good[of q] r(2)[of "hgt m q"] by (auto simp: not_less[symmetric])
      moreover have "q \<in> S" using that anc_height(1)[OF l t] by (simp add: good_def)
      ultimately show ?thesis using p(3) linkedD(1)[OF l p(2)] linkedD(1)[OF l \<open>q \<in> S\<close>] by linarith
    qed
    ultimately show ?thesis unfolding F using False p by simp
  qed
qed

section \<open>Locators\<close>

lemma locator_walk_unfold:
  "locator_walk m None step hs = Some hs"
  "locator_walk m (Some p) step hs = do {
     h \<leftarrow> bi_hash (m p);
     if bi_nHeight (m p) = 0 then Some (hs @ [h])
     else do {
       step' \<leftarrow> (if length (hs @ [h]) > 10 then i32_chk (step * 2) else Some step);
       locator_walk m (GetAncestor m p (max (bi_nHeight (m p) - step) 0)) step' (hs @ [h])
     }
   }"
  by (subst locator_walk.simps, simp add: Let_def cong: if_cong)+

lemma locator_walk_correct:
  assumes l: "linked m S" and hash: "\<forall>p \<in> S. bi_hash (m p) = Some p"
  shows "p \<in> S \<Longrightarrow> hgt m p = n \<Longrightarrow> 1 \<le> step \<Longrightarrow> n = 0 \<or> int n + step \<le> 2 ^ 30 \<Longrightarrow>
    \<exists>qs. locator_walk m (Some p) step hs = Some (hs @ p # qs) \<and> (\<forall>q \<in> set qs. anc m q p) \<and>
      up m n p = Some (last (p # qs)) \<and> sorted_wrt (\<lambda>a b. hgt m a > hgt m b) (p # qs)"
proof (induction n arbitrary: p step hs rule: less_induct)
  case (less n p step hs)
  have hp: "bi_hash (m p) = Some p" "0 \<le> bi_nHeight (m p)" using hash less.prems(1) linkedD(1)[OF l less.prems(1)] by simp_all
  show ?case
  proof (cases "n = 0")
    case True
    then have "bi_nHeight (m p) = 0" using less.prems(2) hp(2) by simp
    then show ?thesis using hp(1) True by (intro exI[of _ "[]"]) (simp add: locator_walk_unfold)
  next
    case False
    then have H: "bi_nHeight (m p) = int n" "int n + step \<le> 2 ^ 30" using less.prems(2,4) hp(2) by auto
    define h' where "h' = nat (max (int n - step) 0)"
    have h': "h' < n" "int h' = max (int n - step) 0" using False less.prems(3) by (auto simp: h'_def)
    obtain q where q: "GetAncestor m p (max (bi_nHeight (m p) - step) 0) = Some q" "q \<in> S"
        "bi_nHeight (m q) = max (bi_nHeight (m p) - step) 0" "anc m q p"
      by (rule GetAncestor_exists[OF l less.prems(1), of "max (bi_nHeight (m p) - step) 0"]) (use less.prems(3) H in auto)
    have qh: "hgt m q = h'" using q(3) H(1) by (simp add: h'_def)
    define step' where "step' = (if length (hs @ [p]) > 10 then step * 2 else step)"
    have step': "1 \<le> step'" "h' = 0 \<or> int h' + step' \<le> 2 ^ 30"
      using less.prems(3) H(2) h'(2) by (auto simp: step'_def max_def split: if_splits)
    have chk: "(if length (hs @ [p]) > 10 then i32_chk (step * 2) else Some step) = Some step'"
      using less.prems(3) H False by (auto simp: step'_def i32_chk_def in_i32_def)
    obtain qs where qs: "locator_walk m (Some q) step' (hs @ [p]) = Some ((hs @ [p]) @ q # qs)" "\<forall>r \<in> set qs. anc m r q"
        "up m h' q = Some (last (q # qs))" "sorted_wrt (\<lambda>a b. hgt m a > hgt m b) (q # qs)"
      using less.IH[OF h'(1) q(2) qh step'] by blast
    have "locator_walk m (Some p) step hs = Some (hs @ p # q # qs)"
      using hp(1) False H(1) q(1) chk qs(1) by (simp only: locator_walk_unfold) simp
    moreover have "\<forall>r \<in> set (q # qs). anc m r p" using qs(2) q(4) anc_trans[of m _ q p] by auto
    moreover have "up m n p = Some (last (p # q # qs))"
    proof -
      have "up m (n - h') p = Some q" using anc_height(3)[OF l less.prems(1) q(4)] qh less.prems(2) by simp
      moreover have "n = (n - h') + h'" using h'(1) by simp
      ultimately have "up m n p = up m h' q" by (metis bind.bind_lunit up_add)
      then show ?thesis using qs(3) by simp
    qed
    moreover have "sorted_wrt (\<lambda>a b. hgt m a > hgt m b) (p # q # qs)" using qs(4) qh h'(1) less.prems(2) by auto
    ultimately show ?thesis by blast
  qed
qed

section \<open>The download frontier\<close>

lemma anc_nHeight: "linked m S \<Longrightarrow> p \<in> S \<Longrightarrow> anc m q p \<Longrightarrow> bi_nHeight (m q) \<le> bi_nHeight (m p)"
  using anc_height(1,2)[of m S p q] linkedD(1)[of m S p] linkedD(1)[of m S q] by linarith

lemma first_missing_correct:
  assumes l: "linked m S" and bk: "bk \<in> S"
  shows "0 \<le> h \<Longrightarrow> h + int n = bi_nHeight (m bk) + 1 \<Longrightarrow>
    (case first_missing m ac bk h n of
       None \<Rightarrow> \<forall>p. anc m p bk \<and> h \<le> bi_nHeight (m p) \<longrightarrow> HasUsableBlockBody m (Some p) ac
     | Some q \<Rightarrow> anc m q bk \<and> h \<le> bi_nHeight (m q) \<and>
         (\<forall>p. anc m p bk \<and> h \<le> bi_nHeight (m p) \<and> bi_nHeight (m p) < bi_nHeight (m q) \<longrightarrow> HasUsableBlockBody m (Some p) ac))"
proof (induction n arbitrary: h)
  case (0 h)
  have "\<not> h \<le> bi_nHeight (m p)" if "anc m p bk" for p
    using anc_nHeight[OF l bk that] 0 by linarith
  then show ?case by auto
next
  case (Suc n h)
  obtain q where q: "GetAncestor m bk h = Some q" "q \<in> S" "bi_nHeight (m q) = h" "anc m q bk"
    by (rule GetAncestor_exists[OF l bk Suc.prems(1)]) (use Suc.prems(2) in auto)
  show ?case
  proof (cases "HasUsableBlockBody m (Some q) ac")
    case False
    then show ?thesis using q by auto
  next
    case True
    have at: "p = q" if "anc m p bk" "bi_nHeight (m p) = h" for p
      using anc_same_height[OF l q(2) anc_below[OF l bk q(4) that(1)]] that(2) q(3) by simp
    have step: "HasUsableBlockBody m (Some p) ac \<or> h + 1 \<le> bi_nHeight (m p)" if "anc m p bk" "h \<le> bi_nHeight (m p)" for p
      using at[OF that(1)] that(2) True by (cases "bi_nHeight (m p) = h") auto
    have IH: "case first_missing m ac bk (h + 1) n of
       None \<Rightarrow> \<forall>p. anc m p bk \<and> h + 1 \<le> bi_nHeight (m p) \<longrightarrow> HasUsableBlockBody m (Some p) ac
     | Some q \<Rightarrow> anc m q bk \<and> h + 1 \<le> bi_nHeight (m q) \<and>
         (\<forall>p. anc m p bk \<and> h + 1 \<le> bi_nHeight (m p) \<and> bi_nHeight (m p) < bi_nHeight (m q) \<longrightarrow> HasUsableBlockBody m (Some p) ac)"
      by (rule Suc.IH) (use Suc.prems in auto)
    then show ?thesis using q(1) True step
      by (cases "first_missing m ac bk (h + 1) n") (auto dest: step)
  qed
qed

lemma LastCommonAncestor_tree:
  assumes l: "linked m S" and a: "a \<in> S" and b: "b \<in> S" and g: "anc m g a" "anc m g b"
  obtains c where "LastCommonAncestor m a b = Some (Some c)" "c \<in> S" "anc m c a" "anc m c b"
proof -
  obtain r where r: "LastCommonAncestor m a b = Some r" "greatest_common m a b r"
    using LastCommonAncestor_correct[OF l a b] by blast
  then obtain c where "r = Some c" using g by (cases r) (auto simp: greatest_common_def)
  with r that anc_height(1)[OF l a] show ?thesis by (auto simp: greatest_common_def)
qed

lemma GetAncestor_anc:
  assumes "linked m S" "p \<in> S" "anc m q p"
  shows "GetAncestor m p (bi_nHeight (m q)) = Some q"
proof -
  note A = anc_height[OF assms]
  have "0 \<le> bi_nHeight (m q)" "0 \<le> bi_nHeight (m p)" using linkedD(1)[OF assms(1)] A(1) assms(2) by blast+
  then show ?thesis using GetAncestor_correct[OF assms(1,2), of "bi_nHeight (m q)"] A(2,3) by simp
qed

lemma FindLowestMissingBody_correct:
  assumes l: "linked m S" and bk: "bk \<in> S" and s: "anc m s bk"
  shows "\<exists>r. FindLowestMissingBody m (Some s) (Some bk) ac = Some r \<and>
    (case r of
       None \<Rightarrow> \<forall>p. anc m p bk \<and> bi_nHeight (m s) < bi_nHeight (m p) \<longrightarrow> HasUsableBlockBody m (Some p) ac
     | Some q \<Rightarrow> anc m q bk \<and> bi_nHeight (m s) < bi_nHeight (m q) \<and>
         (\<forall>p. anc m p bk \<and> bi_nHeight (m s) < bi_nHeight (m p) \<and> bi_nHeight (m p) < bi_nHeight (m q) \<longrightarrow>
            HasUsableBlockBody m (Some p) ac))"
proof (cases "s = bk")
  case True
  have "\<not> bi_nHeight (m s) < bi_nHeight (m p)" if "anc m p bk" for p
    using anc_nHeight[OF l bk that] True by simp
  then show ?thesis using True GetAncestor_anc[OF l bk s] by (auto simp: FindLowestMissingBody_def)
next
  case False
  note A = anc_height[OF l bk s]
  have H: "0 \<le> bi_nHeight (m s)" "0 \<le> bi_nHeight (m bk)" using linkedD(1)[OF l] A(1) bk by blast+
  have f: "FindLowestMissingBody m (Some s) (Some bk) ac =
      Some (first_missing m ac bk (bi_nHeight (m s) + 1) (nat (bi_nHeight (m bk) - bi_nHeight (m s))))"
    using False GetAncestor_anc[OF l bk s] by (simp add: FindLowestMissingBody_def)
  have e: "bi_nHeight (m s) + 1 + int (nat (bi_nHeight (m bk) - bi_nHeight (m s))) = bi_nHeight (m bk) + 1"
    using A(2) H by linarith
  show ?thesis unfolding f using first_missing_correct[OF l bk _ e, of ac] H(1) by (auto simp: add1_zle_eq split: option.splits)
qed

lemma ClampLastCommon_correct:
  assumes l: "linked m S" and bk: "bk \<in> S" and tip: "tip \<in> S" and g: "\<forall>p \<in> S. anc m g p"
    and lc: "\<And>x. last_common = Some x \<Longrightarrow> x \<in> S"
  obtains r where "ClampLastCommonToRootFirst m last_common bk tip ac = Some r" "anc m (lc_last_common r) bk"
    "\<And>c p. LastCommonAncestor m tip bk = Some (Some c) \<Longrightarrow> anc m c (lc_last_common r)"
    "\<And>c p. LastCommonAncestor m tip bk = Some (Some c) \<Longrightarrow> anc m p (lc_last_common r) \<Longrightarrow>
       bi_nHeight (m c) < bi_nHeight (m p) \<Longrightarrow> HasUsableBlockBody m (Some p) ac"
proof -
  obtain c where c: "LastCommonAncestor m tip bk = Some (Some c)" "c \<in> S" "anc m c bk"
    by (rule LastCommonAncestor_tree[OF l tip bk]) (use g tip bk in auto)
  obtain x where x: "(case last_common of None \<Rightarrow> Some c | Some y \<Rightarrow> Option.bind (LastCommonAncestor m y bk) id) = Some x"
      "x \<in> S" "anc m x bk"
  proof (cases last_common)
    case None
    then show ?thesis using that[of c] c by simp
  next
    case (Some y)
    obtain z where "LastCommonAncestor m y bk = Some (Some z)" "z \<in> S" "anc m z bk"
      by (rule LastCommonAncestor_tree[OF l lc[OF Some] bk]) (use g lc[OF Some] bk in auto)
    then show ?thesis using that[of z] Some by simp
  qed
  define y where "y = (if bi_nHeight (m x) < bi_nHeight (m c) then c else x)"
  have y: "y \<in> S" "anc m y bk" "bi_nHeight (m c) \<le> bi_nHeight (m y)" using c x by (auto simp: y_def)
  obtain lo where lo: "FindLowestMissingBody m (Some c) (Some bk) ac = Some lo"
    "case lo of
       None \<Rightarrow> \<forall>p. anc m p bk \<and> bi_nHeight (m c) < bi_nHeight (m p) \<longrightarrow> HasUsableBlockBody m (Some p) ac
     | Some q \<Rightarrow> anc m q bk \<and> bi_nHeight (m c) < bi_nHeight (m q) \<and>
         (\<forall>p. anc m p bk \<and> bi_nHeight (m c) < bi_nHeight (m p) \<and> bi_nHeight (m p) < bi_nHeight (m q) \<longrightarrow>
            HasUsableBlockBody m (Some p) ac)"
    using FindLowestMissingBody_correct[OF l bk c(3)] by blast
  have cmp: "GetAncestor m c (bi_nHeight (m x)) = Some x \<or> GetAncestor m x (bi_nHeight (m c)) = Some c"
    using GetAncestor_anc[OF l c(2)] GetAncestor_anc[OF l x(2)] anc_below[OF l bk c(3) x(3)] anc_below[OF l bk x(3) c(3)]
    by (cases "hgt m x \<le> hgt m c") auto
  have below: "bi_nHeight (m p) \<le> bi_nHeight (m q)" "anc m p bk" if "anc m p q" "q \<in> S" "anc m q bk" for p q
    using anc_nHeight[OF l that(2,1)] anc_trans[OF that(1,3)] by auto
  have down: "anc m c q" if "q \<in> S" "anc m q bk" "bi_nHeight (m c) \<le> bi_nHeight (m q)" for q
    using anc_below[OF l bk that(2) c(3)] that(3) by simp
  show ?thesis
  proof (cases lo)
    case None
    then have "\<exists>r. ClampLastCommonToRootFirst m last_common bk tip ac = Some r \<and> lc_last_common r = y"
      using c(1) x(1) lo(1) cmp
      by (cases "bi_nHeight (m x) < bi_nHeight (m c)") (auto simp: ClampLastCommonToRootFirst_def y_def Let_def)
    then obtain r where r: "ClampLastCommonToRootFirst m last_common bk tip ac = Some r" "lc_last_common r = y" by blast
    show ?thesis
      by (rule that[OF r(1)]) (use r(2) y down lo(2) None c(1) below in auto)
  next
    case (Some q)
    note q = lo(2)[unfolded Some option.case]
    have qS: "q \<in> S" using anc_height(1)[OF l bk] q by blast
    have q0: "hgt m q \<noteq> 0" using q linkedD(1)[OF l c(2)] by linarith
    then obtain s where s: "bi_pprev (m q) = Some s" using linkedD(2)[OF l qS] by auto
    have sS: "s \<in> S" "bi_nHeight (m q) = bi_nHeight (m s) + 1" "anc m s bk"
      using linkedD(3)[OF l qS s] linkedD(1)[OF l, of s] anc_step[of m q s s] anc_refl[of m s] s q anc_trans[of m s q bk] q0 by auto
    define z where "z = (if bi_nHeight (m q) \<le> bi_nHeight (m y) then s else y)"
    have "\<exists>r. ClampLastCommonToRootFirst m last_common bk tip ac = Some r \<and> lc_last_common r = z"
      using c(1) x(1) lo(1) Some s cmp
      by (cases "bi_nHeight (m x) < bi_nHeight (m c)") (auto simp: ClampLastCommonToRootFirst_def y_def z_def Let_def)
    then obtain r where r: "ClampLastCommonToRootFirst m last_common bk tip ac = Some r" "lc_last_common r = z" by blast
    have z: "z \<in> S" "anc m z bk" "bi_nHeight (m c) \<le> bi_nHeight (m z)" "bi_nHeight (m z) < bi_nHeight (m q)"
      using y sS q by (auto simp: z_def)
    show ?thesis
    proof (rule that[OF r(1)])
      show "anc m (lc_last_common r) bk" using r z by simp
      show "anc m c' (lc_last_common r)" if "LastCommonAncestor m tip bk = Some (Some c')" for c'
        using that c(1) r(2) down z by simp
      fix c' p assume "LastCommonAncestor m tip bk = Some (Some c')" "anc m p (lc_last_common r)" "bi_nHeight (m c') < bi_nHeight (m p)"
      then show "HasUsableBlockBody m (Some p) ac" using c(1) r(2) z below[of p z] q by auto
    qed
  qed
qed

text \<open>What the search means for the timestamps of the blocks themselves. No block with the
  required time and height lies below the result. The result itself has the required time unless it is
  the block at the height bound, which the search also accepts for the time of an earlier block.\<close>

lemma FindEarliest_own_time:
  assumes l: "linked m S" and ti: "time_ok m S" and t: "t \<in> S"
    and p: "FindEarliestAtLeast m (branch m t) time h = Some p" and pos: "h \<le> 0 \<or> h < bi_nHeight (m p)"
  shows "time \<le> GetBlockTime (m p)"
proof -
  have good: "anc m p t" "GetBlockTimeMax (m p) \<ge> time"
    and least: "\<And>q. anc m q t \<Longrightarrow> GetBlockTimeMax (m q) \<ge> time \<Longrightarrow> bi_nHeight (m q) \<ge> h \<Longrightarrow>
      bi_nHeight (m p) \<le> bi_nHeight (m q)"
    using FindEarliest_correct[OF l ti t, of time h] p by auto
  have pS: "p \<in> S" by (rule anc_height(1)[OF l t good(1)])
  have tm: "bi_nTimeMax (m p) =
      (case bi_pprev (m p) of None \<Rightarrow> bi_nTime (m p) | Some q \<Rightarrow> max (bi_nTimeMax (m q)) (bi_nTime (m p)))"
    using ti pS by (simp add: time_ok_def)
  show ?thesis
  proof (cases "bi_pprev (m p)")
    case None
    then show ?thesis using tm good(2) by (simp add: GetBlockTime_def GetBlockTimeMax_def)
  next
    case (Some q)
    have q: "q \<in> S" "bi_nHeight (m p) = bi_nHeight (m q) + 1" "0 \<le> bi_nHeight (m q)"
      using linkedD(1,3)[OF l pS] Some linkedD(1)[OF l, of q] by auto
    have "anc m q t" by (rule anc_trans[OF anc_step[of m p q q, OF Some anc_refl] good(1)])
    then have "GetBlockTimeMax (m q) < time"
      using least[of q] q(2,3) pos by (cases "GetBlockTimeMax (m q) \<ge> time") auto
    then show ?thesis using tm Some good(2)
      by (auto simp: GetBlockTime_def GetBlockTimeMax_def max_def split: if_splits)
  qed
qed

lemma GetBlockTime_le_Max:
  assumes "time_ok m S" "p \<in> S"
  shows "GetBlockTime (m p) \<le> GetBlockTimeMax (m p)"
proof -
  have "bi_nTime (m p) \<le> bi_nTimeMax (m p)" using assms by (auto simp: time_ok_def split: option.splits)
  then show ?thesis by (simp add: GetBlockTime_def GetBlockTimeMax_def word_le_def)
qed

section \<open>A small index\<close>

text \<open>Genesis, two blocks on it and one more on the first of them.\<close>

definition fork_heap :: heap where
  "fork_heap = (\<lambda>p.
     let b = (CBlockIndex_init CBlockHeader_SetNull)\<lparr>bi_hash := Some p, bi_nTime := 100, bi_nTimeMax := 100\<rparr> in
     if p = [1] \<or> p = [2] then b\<lparr>bi_pprev := Some [0], bi_nHeight := 1\<rparr>
     else if p = [3] then b\<lparr>bi_pprev := Some [1], bi_pskip := Some [0], bi_nHeight := 2, bi_nTime := 200, bi_nTimeMax := 200\<rparr>
     else b)"

definition fork_keys :: "ptr set" where
  "fork_keys = {[0], [1], [2], [3]}"

lemma up_numeral: "up m (numeral n) p = (case bi_pprev (m p) of None \<Rightarrow> None | Some q \<Rightarrow> up m (pred_numeral n) q)"
  by (simp add: numeral_eq_Suc)

lemmas fork_defs = up_numeral fork_heap_def fork_keys_def Let_def CBlockIndex_init_def

lemma fork_linked: "linked fork_heap fork_keys" "time_ok fork_heap fork_keys" "\<forall>p \<in> fork_keys. bi_hash (fork_heap p) = Some p"
proof -
  have "GetSkipHeight 2 = 0" by (simp add: GetSkipHeight_def InvertLowestOne_def)
  then show "linked fork_heap fork_keys" by (simp add: linked_def linked_entry_def fork_defs)
  show "time_ok fork_heap fork_keys" "\<forall>p \<in> fork_keys. bi_hash (fork_heap p) = Some p"
    by (simp_all add: time_ok_def fork_defs)
qed

lemma fork_anc: "\<forall>p \<in> fork_keys. anc fork_heap [0] p"
proof -
  have "up fork_heap 0 [0] = Some [0]" "up fork_heap 1 [1] = Some [0]" "up fork_heap 1 [2] = Some [0]" "up fork_heap 2 [3] = Some [0]"
    by (simp_all add: fork_defs)
  then show ?thesis unfolding anc_def fork_keys_def by blast
qed

section \<open>Properties\<close>

text \<open>C27: The skip list is only an optimisation: on a linked index \<open>GetAncestor\<close> returns exactly the entry reached
by following predecessors one by one, finds one at every height from zero to the height of the entry, and
returns null for every other height.\<close>

theorem ancestor_skip_list_exact:
  assumes "linked m S" "p \<in> S"
  shows "GetAncestor m p h = (if 0 \<le> h \<and> h \<le> bi_nHeight (m p) then up m (nat (bi_nHeight (m p) - h)) p else None) \<and>
    (0 \<le> h \<and> h \<le> bi_nHeight (m p) \<longrightarrow> (\<exists>q \<in> S. GetAncestor m p h = Some q \<and> bi_nHeight (m q) = h))"
proof -
  have "0 \<le> h \<Longrightarrow> h \<le> bi_nHeight (m p) \<Longrightarrow> hgt m p - nat h = nat (bi_nHeight (m p) - h)" by (simp add: nat_diff_distrib)
  moreover have "\<exists>q \<in> S. GetAncestor m p h = Some q \<and> bi_nHeight (m q) = h" if "0 \<le> h" "h \<le> bi_nHeight (m p)"
    using GetAncestor_exists[OF assms that] by blast
  ultimately show ?thesis using GetAncestor_correct[OF assms, of h] by auto
qed

theorem ancestor_skip_list_exact_witness: "GetAncestor fork_heap [3] 0 = up fork_heap 2 [3] \<and> GetAncestor fork_heap [3] 5 = None"
  using ancestor_skip_list_exact[OF fork_linked(1), of "[3]" 0] ancestor_skip_list_exact[OF fork_linked(1), of "[3]" 5]
  by (simp add: fork_defs)

text \<open>C28: \<open>LastCommonAncestor\<close> always returns on a linked index, without tripping its assertion, and returns the
common ancestor every other common ancestor is an ancestor of, or null when there is none.\<close>

theorem last_common_ancestor_greatest:
  assumes "linked m S" "a \<in> S" "b \<in> S"
  shows "\<exists>r. LastCommonAncestor m a b = Some r \<and> greatest_common m a b r"
  by (rule LastCommonAncestor_correct[OF assms])

theorem last_common_ancestor_greatest_witness:
  "\<exists>r. LastCommonAncestor fork_heap [3] [2] = Some r \<and> greatest_common fork_heap [3] [2] r"
  using last_common_ancestor_greatest[OF fork_linked(1), of "[3]" "[2]"] by (simp add: fork_keys_def)

text \<open>C29: The vector of the active chain refines the branch of its tip: from the branch of any earlier tip
\<open>SetTip\<close>, which stops at the first entry already in place, ends with exactly the ancestors of the new tip in
order of height; membership is then being an ancestor of the tip, and \<open>FindFork\<close> returns the last common
ancestor with the tip.\<close>

theorem active_chain_refines_branch:
  assumes "linked m S" "chain_ok m S v" "t \<in> S" "bi_nHeight (m t) \<le> int32_max" "p \<in> S"
  shows "SetTip m v t = Some (branch m t) \<and> chain_ok m S (branch m t) \<and> Chain_Tip (branch m t) = Some t \<and>
    Chain_Height (branch m t) = bi_nHeight (m t) \<and>
    (Chain_Contains m (branch m t) (Some p) \<longleftrightarrow> anc m p t) \<and>
    (\<exists>r. FindFork m (branch m t) (Some p) = Some r \<and> greatest_common m p t r)"
  using SetTip_correct[OF assms(1,2,3)] branch_contains[OF assms(1,3,5)] FindFork_correct[OF assms(1,3,4,5)]
    branch_height[of m t] linkedD(1)[OF assms(1,3)] assms(4) branch_nth[of "hgt m t" m t]
  by (auto simp: Chain_Tip_def branch_length)

theorem active_chain_refines_branch_witness:
  "SetTip fork_heap (branch fork_heap [2]) [3] = Some (branch fork_heap [3]) \<and>
   branch fork_heap [3] = [Some [0], Some [1], Some [3]]"
proof -
  have "chain_ok fork_heap fork_keys (branch fork_heap [2])" by (auto simp: chain_ok_def fork_keys_def)
  moreover have "[3] \<in> fork_keys" "bi_nHeight (fork_heap [3]) \<le> int32_max" by (simp_all add: fork_defs)
  moreover have "branch fork_heap [3] = [Some [0], Some [1], Some [3]]"
    by (simp add: branch_def fork_defs upt_rec)
  ultimately show ?thesis using active_chain_refines_branch[OF fork_linked(1)] by blast
qed

text \<open>C30: The binary search of \<open>FindEarliestAtLeast\<close> never skips a block: no block of the active chain with the
  required timestamp and height lies below the block it returns, and there is none when it returns null. The block
  returned has the required height, and above the height bound (or without one) the required timestamp.\<close>

theorem find_earliest_never_skips:
  assumes "linked m S" "time_ok m S" "t \<in> S"
  shows "case FindEarliestAtLeast m (branch m t) time h of
      None \<Rightarrow> \<forall>q. anc m q t \<longrightarrow> \<not> (time \<le> GetBlockTime (m q) \<and> h \<le> bi_nHeight (m q))
    | Some p \<Rightarrow> anc m p t \<and> h \<le> bi_nHeight (m p) \<and>
        (\<forall>q. anc m q t \<and> time \<le> GetBlockTime (m q) \<and> h \<le> bi_nHeight (m q) \<longrightarrow> bi_nHeight (m p) \<le> bi_nHeight (m q)) \<and>
        (h \<le> 0 \<or> h < bi_nHeight (m p) \<longrightarrow> time \<le> GetBlockTime (m p))"
proof -
  have le: "GetBlockTime (m q) \<le> GetBlockTimeMax (m q)" if "anc m q t" for q
    by (rule GetBlockTime_le_Max[OF assms(2) anc_height(1)[OF assms(1,3) that]])
  show ?thesis
  proof (cases "FindEarliestAtLeast m (branch m t) time h")
    case None
    then show ?thesis using FindEarliest_correct[OF assms, of time h] le by force
  next
    case (Some p)
    then show ?thesis
      using FindEarliest_correct[OF assms, of time h] FindEarliest_own_time[OF assms Some] le by force
  qed
qed

theorem find_earliest_never_skips_witness:
  "\<exists>p. FindEarliestAtLeast fork_heap (branch fork_heap [3]) 150 0 = Some p \<and> 150 \<le> GetBlockTime (fork_heap p)"
proof (cases "FindEarliestAtLeast fork_heap (branch fork_heap [3]) 150 0")
  case None
  with find_earliest_never_skips[OF fork_linked(1,2), of "[3]" 150 0]
  have "\<forall>q. anc fork_heap q [3] \<longrightarrow> \<not> (150 \<le> GetBlockTime (fork_heap q) \<and> 0 \<le> bi_nHeight (fork_heap q))"
    by (simp add: fork_keys_def)
  with anc_refl[of fork_heap "[3]"] have False by (auto simp: GetBlockTime_def fork_defs)
  then show ?thesis ..
next
  case (Some p)
  with find_earliest_never_skips[OF fork_linked(1,2), of "[3]" 150 0] show ?thesis by (simp add: fork_keys_def)
qed

text \<open>C31: A block locator is always produced: for an entry below height 2^30 the walk ends, the doubling step stays
within 32 bits, and the locator starts with the entry's own hash, names only ancestors in strictly falling
height, and ends with the root of its tree.\<close>

theorem locator_terminates:
  assumes "linked m S" "\<forall>p \<in> S. bi_hash (m p) = Some p" "p \<in> S" "bi_nHeight (m p) < 2 ^ 30"
  shows "\<exists>qs. LocatorEntries m (Some p) = Some (p # qs) \<and> (\<forall>q \<in> set qs. anc m q p) \<and>
    up m (nat (bi_nHeight (m p))) p = Some (last (p # qs)) \<and>
    sorted_wrt (\<lambda>a b. bi_nHeight (m a) > bi_nHeight (m b)) (p # qs)"
proof -
  have "hgt m p = 0 \<or> int (hgt m p) + 1 \<le> 2 ^ 30" using assms(4) by linarith
  then obtain qs where qs: "locator_walk m (Some p) 1 [] = Some ([] @ p # qs)" "\<forall>q \<in> set qs. anc m q p"
      "up m (hgt m p) p = Some (last (p # qs))" "sorted_wrt (\<lambda>a b. hgt m a > hgt m b) (p # qs)"
    using locator_walk_correct[OF assms(1,2,3) refl, of 1 "[]"] by auto
  have "sorted_wrt (\<lambda>a b. bi_nHeight (m a) > bi_nHeight (m b)) (p # qs)"
    by (rule sorted_wrt_mono_rel[OF _ qs(4)]) auto
  then show ?thesis using qs by (simp add: LocatorEntries_def)
qed

theorem locator_terminates_witness: "\<exists>qs. LocatorEntries fork_heap (Some [3]) = Some ([3] # qs) \<and> up fork_heap 2 [3] = Some (last ([3] # qs))"
  using locator_terminates[OF fork_linked(1,3), of "[3]"] by (auto simp: fork_defs)

text \<open>C32: The download frontier never skips a hole: in an index with one root \<open>ClampLastCommonToRootFirst\<close> returns,
its common point lies on the branch of the best known header at or above the fork with our tip, and every block
between that fork and the common point has a usable body.\<close>

theorem download_frontier_safe:
  assumes "linked m S" "bk \<in> S" "tip \<in> S" "\<forall>p \<in> S. anc m g p" "case last_common of None \<Rightarrow> True | Some x \<Rightarrow> x \<in> S"
  shows "\<exists>r c. ClampLastCommonToRootFirst m last_common bk tip ac = Some r \<and> LastCommonAncestor m tip bk = Some (Some c) \<and>
    anc m (lc_last_common r) bk \<and> anc m c (lc_last_common r) \<and>
    (\<forall>p. anc m p (lc_last_common r) \<and> bi_nHeight (m c) < bi_nHeight (m p) \<longrightarrow> HasUsableBlockBody m (Some p) ac)"
proof -
  have lc: "\<And>x. last_common = Some x \<Longrightarrow> x \<in> S" using assms(5) by simp
  obtain c where c: "LastCommonAncestor m tip bk = Some (Some c)"
    by (rule LastCommonAncestor_tree[OF assms(1,3,2)]) (use assms(2,3,4) in auto)
  obtain r where "ClampLastCommonToRootFirst m last_common bk tip ac = Some r" "anc m (lc_last_common r) bk"
      "anc m c (lc_last_common r)"
      "\<And>p. anc m p (lc_last_common r) \<Longrightarrow> bi_nHeight (m c) < bi_nHeight (m p) \<Longrightarrow> HasUsableBlockBody m (Some p) ac"
    by (rule ClampLastCommon_correct[OF assms(1,2,3,4) lc, where ac = ac]) (use c in auto)
  with c show ?thesis by blast
qed

theorem download_frontier_safe_witness:
  "\<exists>r. ClampLastCommonToRootFirst fork_heap (Some [3]) [3] [2] None = Some r \<and> anc fork_heap (lc_last_common r) [3]"
  using download_frontier_safe[OF fork_linked(1) _ _ fork_anc, of "[3]" "[2]" "Some [3]" None] by (auto simp: fork_keys_def)

end
