(* ===== verification/Chain_Work.thy ===== *)
theory Chain_Work
  imports Chain_Walks "HOL-Library.Product_Lexorder"
begin

text \<open>
  The work of the block index: the work of one block, claimed and authenticated work along a branch, the order
  the best header is chosen by, and the step that adds a header, which keeps the index linked and its work
  consistent.
\<close>

section \<open>The work of a block\<close>

definition target_of :: "u32 \<Rightarrow> nat" where
  "target_of bits =
     (let r = SetCompact bits in
      if cr_negative r \<or> cr_overflow r then 0 else uval (cr_value r))"

definition block_work :: "u32 \<Rightarrow> nat" where
  "block_work bits = (if target_of bits = 0 then 0 else 2 ^ 256 div (target_of bits + 1))"

lemma target_not_max:
  assumes "\<not> cr_overflow (SetCompact c)"
  shows "uval (cr_value (SetCompact c)) + 1 < 2 ^ 256"
proof -
  define m s where "m = unat c mod 2 ^ 23" and "s = unat c div 2 ^ 24"
  have v: "uval (cr_value (SetCompact c)) = compact_value m s mod 2 ^ 256" "\<not> 2 ^ 256 \<le> compact_value m s"
    using SetCompact_all(2,3)[of c] assms by (simp_all only: m_def s_def simp_thms)
  then have e: "uval (cr_value (SetCompact c)) = compact_value m s" by (simp only: not_le mod_less)
  show ?thesis
  proof (cases "s \<le> 3")
    case True
    have "compact_value m s \<le> m" using True by (simp add: compact_value_def)
    moreover have "m < 2 ^ 23" by (simp add: m_def)
    ultimately have "compact_value m s + 1 \<le> 2 ^ 23" by linarith
    also have "\<dots> < 2 ^ 256" by simp
    finally show ?thesis unfolding e .
  next
    case False
    then have "256 dvd compact_value m s" by (simp add: compact_value_def dvd_power)
    moreover have "\<not> 256 dvd (2 ^ 256 - 1 :: nat)" by simp
    ultimately have "compact_value m s \<noteq> 2 ^ 256 - 1" by metis
    then show ?thesis unfolding e using v(2) by linarith
  qed
qed

lemma div_complement: "t + 1 < (B :: nat) \<Longrightarrow> B div (t + 1) = (B - 1 - t) div (t + 1) + 1"
proof -
  assume "t + 1 < B"
  then have "B = (B - 1 - t) + (t + 1)" by simp
  then have "B div (t + 1) = ((B - 1 - t) + (t + 1)) div (t + 1)" by (rule arg_cong)
  also have "\<dots> = (B - 1 - t) div (t + 1) + 1" by (rule div_add_self2) simp
  finally show ?thesis .
qed

lemma GetBlockProof_correct: "\<exists>w. GetBlockProof b = Some w \<and> wf256 w \<and> uval w = block_work (bi_nBits b)"
proof -
  define r where "r = SetCompact (bi_nBits b)"
  define t where "t = uval (cr_value r)"
  have wf: "wf256 (cr_value r)" unfolding r_def by (rule SetCompact_all(1))
  show ?thesis
  proof (cases "cr_negative r \<or> cr_overflow r \<or> t = 0")
    case True
    then show ?thesis using uint_EqualTo_0[OF wf] uval_zero
      by (auto simp: GetBlockProof_def Let_def r_def t_def block_work_def target_of_def)
  next
    case False
    have t: "t + 1 < 2 ^ 256" "0 < t" using target_not_max[of "bi_nBits b"] False by (simp_all add: t_def r_def)
    have one: "wf256 (uint_of_u64 1)" "uval (uint_of_u64 1) = 1" by (simp_all add: uval_of_u64)
    have n: "uval (uint_not (cr_value r)) = 2 ^ 256 - 1 - t" "wf256 (uint_not (cr_value r))"
      using uint_not_correct[of "cr_value r"] wf by (simp_all add: uint_not_def wf256_def WIDTH_def t_def)
    have a: "uval (uint_add (cr_value r) (uint_of_u64 1)) = t + 1" "wf256 (uint_add (cr_value r) (uint_of_u64 1))"
      using uint_add_correct[OF wf one(1)] t(1) by (simp_all only: one(2) t_def[symmetric] mod_less)
    obtain q where q: "uint_div (uint_not (cr_value r)) (uint_add (cr_value r) (uint_of_u64 1)) = Some q" "wf256 q"
        "uval q = (2 ^ 256 - 1 - t) div (t + 1)"
      using uint_div_correct(2)[OF n(2) a(2)] unfolding a(1) n(1) by auto
    have e: "2 ^ 256 div (t + 1) = (2 ^ 256 - 1 - t) div (t + 1) + 1" by (rule div_complement[OF t(1)])
    have "(2 :: nat) ^ 256 div (t + 1) \<le> 2 ^ 256 div 2" using t(2) by (intro div_le_mono2) simp_all
    also have "\<dots> < 2 ^ 256" by simp
    finally have lt: "uval q + 1 < 2 ^ 256" by (simp only: q(3) e)
    have "uval (uint_add q (uint_of_u64 1)) = 2 ^ 256 div (t + 1)" "wf256 (uint_add q (uint_of_u64 1))"
      using uint_add_correct[OF q(2) one(1)] lt by (simp_all only: one(2) mod_less q(3) e)
    moreover have "block_work (bi_nBits b) = 2 ^ 256 div (t + 1)"
      using False by (simp only: block_work_def target_of_def r_def[symmetric] Let_def t_def[symmetric]) simp
    ultimately show ?thesis
      using False uint_EqualTo_0[OF wf] q(1) unfolding GetBlockProof_def Let_def r_def[symmetric] t_def[symmetric]
      by (auto simp del: power_numeral)
  qed
qed

section \<open>Claimed and authenticated work\<close>

definition work_entry :: "heap \<Rightarrow> ptr \<Rightarrow> bool" where
  "work_entry m p \<longleftrightarrow>
     wf256 (bi_nChainWork (m p)) \<and> wf256 (bi_nAuthenticatedChainWork (m p)) \<and>
     (let w = block_work (bi_nBits (m p));
          c = (case bi_pprev (m p) of None \<Rightarrow> 0 | Some q \<Rightarrow> uval (bi_nChainWork (m q)));
          a = (case bi_pprev (m p) of None \<Rightarrow> 0 | Some q \<Rightarrow> uval (bi_nAuthenticatedChainWork (m q))) in
      uval (bi_nChainWork (m p)) = c + w \<and>
      (uval (bi_nAuthenticatedChainWork (m p)) = a + w \<or> uval (bi_nAuthenticatedChainWork (m p)) = a))"

definition work_ok :: "heap \<Rightarrow> ptr set \<Rightarrow> bool" where
  "work_ok m S \<longleftrightarrow> (\<forall>p \<in> S. work_entry m p)"

lemma work_okD:
  assumes "work_ok m S" "p \<in> S"
  shows "wf256 (bi_nChainWork (m p))" "wf256 (bi_nAuthenticatedChainWork (m p))"
  using assms by (auto simp: work_ok_def work_entry_def)

lemma authenticated_le_claimed:
  assumes l: "linked m S" and w: "work_ok m S"
  shows "p \<in> S \<Longrightarrow> hgt m p = n \<Longrightarrow> uval (bi_nAuthenticatedChainWork (m p)) \<le> uval (bi_nChainWork (m p))"
proof (induction n arbitrary: p)
  case (0 p)
  then have "bi_pprev (m p) = None" using linkedD(2)[OF l 0(1)] by simp
  moreover have "work_entry m p" using w 0(1) by (simp add: work_ok_def)
  ultimately show ?case by (auto simp: work_entry_def Let_def)
next
  case (Suc n p)
  obtain q where q: "bi_pprev (m p) = Some q" using linkedD(2)[OF l Suc.prems(1)] Suc.prems(2) by auto
  have "q \<in> S" "hgt m q = n" using linkedD(3)[OF l Suc.prems(1) q] Suc.prems(2) by auto
  then have "uval (bi_nAuthenticatedChainWork (m q)) \<le> uval (bi_nChainWork (m q))" using Suc.IH by blast
  moreover have "work_entry m p" using w Suc.prems(1) by (simp add: work_ok_def)
  ultimately show ?case using q by (auto simp: work_entry_def Let_def)
qed

text \<open>The adjusted work, on numbers.\<close>

definition adjusted :: "CBlockIndex \<Rightarrow> nat \<Rightarrow> nat" where
  "adjusted b n =
     uval (bi_nAuthenticatedChainWork b) +
     min (uval (bi_nChainWork b) - uval (bi_nAuthenticatedChainWork b)) ((block_work (bi_nBits b) * n) mod 2 ^ 256)"

definition wf_work :: "CBlockIndex \<Rightarrow> bool" where
  "wf_work b \<longleftrightarrow> wf256 (bi_nChainWork b) \<and> wf256 (bi_nAuthenticatedChainWork b) \<and>
     uval (bi_nAuthenticatedChainWork b) \<le> uval (bi_nChainWork b) \<and> bi_hash b \<noteq> None"

lemma unauthenticated_work_correct:
  assumes "wf_work b"
  shows "uval (unauthenticated_work b) = uval (bi_nChainWork b) - uval (bi_nAuthenticatedChainWork b)"
    "wf256 (unauthenticated_work b)"
proof -
  note wf = assms[unfolded wf_work_def]
  have c: "wf256 (bi_nChainWork b)" and a: "wf256 (bi_nAuthenticatedChainWork b)"
    and le: "uval (bi_nAuthenticatedChainWork b) \<le> uval (bi_nChainWork b)" using wf by simp_all
  note m = uint_order(5,6)[OF c a]
  have "uval (uint_min (bi_nChainWork b) (bi_nAuthenticatedChainWork b)) = uval (bi_nAuthenticatedChainWork b)"
    using m(1) le by simp
  then show "uval (unauthenticated_work b) = uval (bi_nChainWork b) - uval (bi_nAuthenticatedChainWork b)"
      "wf256 (unauthenticated_work b)"
    using uint_sub_correct(2,3)[OF c m(2)] le by (simp_all add: unauthenticated_work_def)
qed

lemma GetTrustAdjusted_correct:
  assumes "wf_work b"
  shows "\<exists>w. GetTrustAdjustedChainWork b n = Some w \<and> wf256 w \<and> uval w = adjusted b (unat n)"
proof -
  note wf = assms[unfolded wf_work_def]
  obtain pr where pr: "GetBlockProof b = Some pr" "wf256 pr" "uval pr = block_work (bi_nBits b)"
    using GetBlockProof_correct by blast
  note u = unauthenticated_work_correct[OF assms]
  have al: "uval (uint_mul32 pr n) = (block_work (bi_nBits b) * unat n) mod 2 ^ 256" "wf256 (uint_mul32 pr n)"
    using uint_mul32_correct[OF pr(2)] pr(3) by (simp_all add: mult.commute)
  note mi = uint_order(5,6)[OF u(2) al(2)]
  have lt: "adjusted b (unat n) < 2 ^ 256"
    using uval_256[of "bi_nChainWork b"] wf by (auto simp: adjusted_def)
  have "uval (uint_add (bi_nAuthenticatedChainWork b) (uint_min (unauthenticated_work b) (uint_mul32 pr n))) = adjusted b (unat n)"
    using uint_add_correct(1)[of "bi_nAuthenticatedChainWork b" "uint_min (unauthenticated_work b) (uint_mul32 pr n)"] wf mi lt
    by (simp only: adjusted_def u(1) al(1) mod_less simp_thms)
  then show ?thesis using pr(1) uint_add_correct(2)[of "bi_nAuthenticatedChainWork b"] wf mi(2)
    by (simp add: GetTrustAdjustedChainWork_def Let_def)
qed

section \<open>The order of headers\<close>

lemma memcmp_less_value:
  "length xs = length ys \<Longrightarrow> memcmp_less xs ys \<longleftrightarrow> le_value (rev xs) < le_value (rev ys)"
proof (induction xs ys rule: list_induct2)
  case (Cons x xs y ys)
  let ?a = "le_value (rev xs)" and ?b = "le_value (rev ys)" and ?n = "256 ^ length xs :: nat"
  have b: "?a < ?n" "?b < ?n" using le_value_bound[of "rev xs"] le_value_bound[of "rev ys"] Cons.hyps by simp_all
  have "?a + ?n * unat x < ?b + ?n * unat y \<longleftrightarrow> x < y \<or> x = y \<and> ?a < ?b"
  proof (cases "x = y")
    case False
    show ?thesis
    proof (cases "x < y")
      case True
      then have "unat x + 1 \<le> unat y" by (simp add: word_less_nat_alt)
      then have "?n * (unat x + 1) \<le> ?n * unat y" by (rule mult_le_mono2)
      then show ?thesis using b True False by (simp add: distrib_left)
    next
      case no: False
      then have "unat y + 1 \<le> unat x" using False by (simp add: word_less_nat_alt word_unat_eq_iff)
      then have "?n * (unat y + 1) \<le> ?n * unat x" by (rule mult_le_mono2)
      then show ?thesis using b no False by (simp add: distrib_left)
    qed
  qed simp
  then show ?case using Cons by (simp add: le_value_append)
qed simp

definition header_key :: "u32 \<Rightarrow> CBlockIndex \<Rightarrow> int \<times> int \<times> int \<times> int \<times> int" where
  "header_key n b =
     (let un = uval (bi_nChainWork b) - uval (bi_nAuthenticatedChainWork b) in
      (int (adjusted b (unat n)), int (uval (bi_nAuthenticatedChainWork b)), - int un,
       if un = 0 then 0 else - bi_nHeight b,
       if un = 0 then 0 else - int (le_value (rev (case bi_hash b of None \<Rightarrow> [] | Some h \<Rightarrow> h)))))"

lemma Prefer_key:
  assumes a: "wf_work a" "bi_hash a = Some ha" "length ha = 32" and b: "wf_work b" "bi_hash b = Some hb" "length hb = 32"
  shows "PreferTrustAdjustedHeader a b n = Some (header_key n a < header_key n b)"
proof -
  obtain x where x: "GetTrustAdjustedChainWork a n = Some x" "wf256 x" "uval x = adjusted a (unat n)"
    using GetTrustAdjusted_correct[OF a(1)] by blast
  obtain y where y: "GetTrustAdjustedChainWork b n = Some y" "wf256 y" "uval y = adjusted b (unat n)"
    using GetTrustAdjusted_correct[OF b(1)] by blast
  note wa = a(1)[unfolded wf_work_def] and wb = b(1)[unfolded wf_work_def]
  note ua = unauthenticated_work_correct[OF a(1)] and ub = unauthenticated_work_correct[OF b(1)]
  have A: "wf256 (bi_nAuthenticatedChainWork a)" "wf256 (bi_nAuthenticatedChainWork b)" "wf256 (bi_nChainWork a)" "wf256 (bi_nChainWork b)"
    using wa wb by simp_all
  have xy: "x \<noteq> y \<longleftrightarrow> adjusted a (unat n) \<noteq> adjusted b (unat n)" using uval_eq_iff[OF x(2) y(2)] x(3) y(3) by simp
  have full: "adjusted a (unat n) = uval (bi_nAuthenticatedChainWork a)" if "uval (bi_nChainWork a) = uval (bi_nAuthenticatedChainWork a)"
    using that by (simp add: adjusted_def)
  have full': "adjusted b (unat n) = uval (bi_nAuthenticatedChainWork b)" if "uval (bi_nChainWork b) = uval (bi_nAuthenticatedChainWork b)"
    using that by (simp add: adjusted_def)
  have hs: "memcmp_less hb ha \<longleftrightarrow> le_value (rev hb) < le_value (rev ha)" using memcmp_less_value a(3) b(3) by simp
  have la: "uval (bi_nAuthenticatedChainWork a) \<le> uval (bi_nChainWork a)" and lb: "uval (bi_nAuthenticatedChainWork b) \<le> uval (bi_nChainWork b)"
    using wa wb by simp_all
  show ?thesis
    unfolding PreferTrustAdjustedHeader_def x(1) y(1) bind.bind_lunit Let_def
    unfolding xy uint_order(2)[OF x(2) y(2)] uint_order(2)[OF A(1) A(3)] uint_order(2)[OF A(2) A(4)]
      uint_order(2)[OF A(1) A(2)] uval_eq_iff[OF A(1) A(2)] uval_eq_iff[OF ua(2) ub(2)] uint_order(2)[OF ub(2) ua(2)]
      ua(1) ub(1) x(3) y(3) a(2) b(2) bind.bind_lunit hs header_key_def Let_def option.case
    using la lb full full' by (auto simp: less_prod_def)
qed

section \<open>Adding a header\<close>

lemma up_fresh:
  assumes l: "linked m S" and h: "h \<notin> S"
  shows "p \<in> S \<Longrightarrow> up (m(h := b)) k p = up m k p"
proof (induction k arbitrary: p)
  case (Suc k)
  then have "p \<noteq> h" using h by blast
  then show ?case using Suc linkedD(3)[OF l Suc.prems] by (auto split: option.splits)
qed simp

lemma linked_fresh:
  assumes l: "linked m S" and h: "h \<notin> S"
  shows "linked (m(h := b)) S"
proof -
  have "linked_entry (m(h := b)) S p" if p: "p \<in> S" for p
  proof -
    have "p \<noteq> h" using p h by blast
    moreover have "linked_entry m S p" using l p by (simp add: linked_def)
    moreover have "q \<noteq> h" if "bi_pprev (m p) = Some q" for q using linkedD(3)[OF l p that] h by blast
    ultimately show ?thesis using up_fresh[OF l h p] by (auto simp: linked_entry_def split: option.splits)
  qed
  then show ?thesis by (simp add: linked_def)
qed

lemma linked_insert: "linked m S \<Longrightarrow> linked_entry m (insert h S) h \<Longrightarrow> linked m (insert h S)"
  unfolding linked_def linked_entry_def by (auto split: option.splits)

lemma work_time_fresh:
  assumes l: "linked m S" and h: "h \<notin> S"
  shows "work_ok m S \<Longrightarrow> work_ok (m(h := b)) S" "time_ok m S \<Longrightarrow> time_ok (m(h := b)) S"
proof -
  have q: "p \<noteq> h" "bi_pprev (m p) = Some q \<Longrightarrow> q \<noteq> h" if "p \<in> S" for p q
    using that h linkedD(3)[OF l that, of q] by blast+
  show "work_ok m S \<Longrightarrow> work_ok (m(h := b)) S"
    using q by (auto simp: work_ok_def work_entry_def Let_def split: option.splits)
  show "time_ok m S \<Longrightarrow> time_ok (m(h := b)) S"
    using q by (auto simp: time_ok_def split: option.splits)
qed

lemma RaiseValidity_tree: "\<exists>x f. RaiseValidity b BLOCK_VALID_TREE = Some (b\<lparr>bi_nStatus := x\<rparr>, f)"
proof -
  have "BLOCK_VALID_TREE AND NOT BLOCK_VALID_MASK = 0" by (simp add: BLOCK_VALID_TREE_def BLOCK_VALID_MASK_def)
  moreover have "b = b\<lparr>bi_nStatus := bi_nStatus b\<rparr>" by simp
  ultimately show ?thesis unfolding RaiseValidity_def by metis
qed

lemma UpdateAuthenticated_cases:
  assumes "GetBlockProof b = Some w"
  obtains w' where "UpdateAuthenticatedChainWork m params b =
      Some (b\<lparr>bi_nAuthenticatedChainWork :=
        uint_add (case bi_pprev b of None \<Rightarrow> uint_zero | Some q \<Rightarrow> bi_nAuthenticatedChainWork (m q)) w'\<rparr>)"
    "w' = w \<or> w' = uint_zero"
  using assms that[of w] that[of uint_zero]
  by (cases "IsBlockAuthenticated m params b") (simp_all add: UpdateAuthenticatedChainWork_def GetBlockAuthenticatedProof_def)

lemma fill_new_entry_fields:
  assumes b: "bi_pprev b = None"
  shows "\<exists>b' w w'. fill_new_entry params m b prev = Some b' \<and> bi_hash b' = bi_hash b \<and> bi_nBits b' = bi_nBits b \<and>
    bi_pprev b' = prev \<and>
    bi_nHeight b' = (case prev of None \<Rightarrow> bi_nHeight b | Some q \<Rightarrow> NextBlockHeightOrLimit (bi_nHeight (m q))) \<and>
    bi_pskip b' = (case prev of None \<Rightarrow> bi_pskip b | Some q \<Rightarrow> GetAncestor m q (int (GetSkipHeight (nat (bi_nHeight b'))))) \<and>
    bi_nTimeMax b' = (case prev of None \<Rightarrow> bi_nTime b | Some q \<Rightarrow> max (bi_nTimeMax (m q)) (bi_nTime b)) \<and>
    wf256 w \<and> uval w = block_work (bi_nBits b) \<and> (w' = w \<or> w' = uint_zero) \<and>
    bi_nChainWork b' = uint_add (case prev of None \<Rightarrow> uint_zero | Some q \<Rightarrow> bi_nChainWork (m q)) w \<and>
    bi_nAuthenticatedChainWork b' = uint_add (case prev of None \<Rightarrow> uint_zero | Some q \<Rightarrow> bi_nAuthenticatedChainWork (m q)) w' \<and>
    bi_nTime b' = bi_nTime b"
proof -
  define b1 where "b1 = (case prev of None \<Rightarrow> b
      | Some q \<Rightarrow> BuildSkip m (b\<lparr>bi_pprev := Some q, bi_nHeight := NextBlockHeightOrLimit (bi_nHeight (m q))\<rparr>))"
  define b2 where "b2 = b1\<lparr>bi_nTimeMax := (case prev of None \<Rightarrow> bi_nTime b1 | Some q \<Rightarrow> max (bi_nTimeMax (m q)) (bi_nTime b1))\<rparr>"
  obtain w where w: "GetBlockProof b2 = Some w" "wf256 w" "uval w = block_work (bi_nBits b2)" using GetBlockProof_correct by blast
  define b3 where "b3 = b2\<lparr>bi_nChainWork := uint_add (case prev of None \<Rightarrow> uint_zero | Some q \<Rightarrow> bi_nChainWork (m q)) w\<rparr>"
  have "GetBlockProof b3 = Some w" using w(1) by (simp add: GetBlockProof_def b3_def)
  then obtain w' where w': "UpdateAuthenticatedChainWork m params b3 = Some (b3\<lparr>bi_nAuthenticatedChainWork :=
        uint_add (case bi_pprev b3 of None \<Rightarrow> uint_zero | Some q \<Rightarrow> bi_nAuthenticatedChainWork (m q)) w'\<rparr>)"
    "w' = w \<or> w' = uint_zero" by (rule UpdateAuthenticated_cases[where m = m and params = params]) blast
  define b4 where "b4 = b3\<lparr>bi_nAuthenticatedChainWork :=
        uint_add (case bi_pprev b3 of None \<Rightarrow> uint_zero | Some q \<Rightarrow> bi_nAuthenticatedChainWork (m q)) w'\<rparr>"
  obtain x f where x: "RaiseValidity b4 BLOCK_VALID_TREE = Some (b4\<lparr>bi_nStatus := x\<rparr>, f)" using RaiseValidity_tree by blast
  have "fill_new_entry params m b prev = Some (b4\<lparr>bi_nStatus := x\<rparr>)"
    unfolding fill_new_entry_def Let_def b1_def[symmetric] b2_def[symmetric] w(1) bind.bind_lunit b3_def[symmetric] w'(1)
      b4_def[symmetric] x by simp
  moreover have "bi_pprev b1 = prev" "bi_hash b1 = bi_hash b" "bi_nBits b1 = bi_nBits b" "bi_nTime b1 = bi_nTime b"
    "bi_nHeight b1 = (case prev of None \<Rightarrow> bi_nHeight b | Some q \<Rightarrow> NextBlockHeightOrLimit (bi_nHeight (m q)))"
    "bi_pskip b1 = (case prev of None \<Rightarrow> bi_pskip b | Some q \<Rightarrow> GetAncestor m q (int (GetSkipHeight (nat (bi_nHeight b1)))))"
    using b by (auto simp: b1_def BuildSkip_def split: option.splits)
  ultimately show ?thesis using w w'
    by (intro exI[of _ "b4\<lparr>bi_nStatus := x\<rparr>"] exI[of _ w] exI[of _ w']) (cases prev; simp add: b4_def b3_def b2_def)
qed

definition index_ok :: "BlockManager \<Rightarrow> bool" where
  "index_ok bm \<longleftrightarrow>
     (let m = bm_heap bm; S = set (bm_keys bm) in
      linked m S \<and> work_ok m S \<and> time_ok m S \<and> (\<forall>p \<in> S. bi_hash (m p) = Some p \<and> length p = 32) \<and>
      (case bm_best_header bm of None \<Rightarrow> True | Some q \<Rightarrow> q \<in> S))"

lemma wf_work_index:
  assumes "linked m S" "work_ok m S" "p \<in> S" "bi_hash (m p) = Some p"
  shows "wf_work (m p)"
  using work_okD[OF assms(2,3)] authenticated_le_claimed[OF assms(1,2,3) refl] assms(4) by (simp add: wf_work_def)

lemma block_work_less: "block_work bits < 2 ^ 256"
proof -
  obtain w where "wf256 w" "uval w = block_work bits"
    using GetBlockProof_correct[of "CBlockIndex_init CBlockHeader_SetNull\<lparr>bi_nBits := bits\<rparr>"] by auto
  then show ?thesis using uval_256 by metis
qed

text \<open>The new entry is linked and its work and time follow those of its predecessor.\<close>

lemma new_entry_ok:
  assumes l: "linked m S" and w: "work_ok m S" and h: "h \<notin> S" and n: "m h = b"
    and f: "wf256 pw" "uval pw = block_work (bi_nBits b)" "aw = pw \<or> aw = uint_zero"
    and p: "bi_pprev b = prev" "\<And>q. prev = Some q \<Longrightarrow> q \<in> S \<and> bi_nHeight b = bi_nHeight (m q) + 1 \<and>
        uval (bi_nChainWork (m q)) + block_work (bi_nBits b) < 2 ^ 256"
    and r: "prev = None \<Longrightarrow> bi_nHeight b = 0 \<and> bi_pskip b = None"
    and s: "bi_pskip b = (case prev of None \<Rightarrow> None | Some q \<Rightarrow> GetAncestor m q (int (GetSkipHeight (nat (bi_nHeight b)))))"
    and c: "bi_nChainWork b = uint_add (case prev of None \<Rightarrow> uint_zero | Some q \<Rightarrow> bi_nChainWork (m q)) pw"
    and a: "bi_nAuthenticatedChainWork b = uint_add (case prev of None \<Rightarrow> uint_zero | Some q \<Rightarrow> bi_nAuthenticatedChainWork (m q)) aw"
  shows "linked_entry m (insert h S) h" "work_entry m h"
proof -
  show "linked_entry m (insert h S) h"
  proof (cases prev)
    case None
    then show ?thesis using r n p(1) by (simp add: linked_entry_def)
  next
    case (Some q)
    note q = p(2)[OF Some]
    have q0: "0 \<le> bi_nHeight (m q)" using linkedD(1)[OF l] q by blast
    have hh: "hgt m h = Suc (hgt m q)" using q q0 n by simp
    have lt: "GetSkipHeight (Suc (hgt m q)) \<le> hgt m q" using GetSkipHeight_less[of "Suc (hgt m q)"] by simp
    have e: "nat (bi_nHeight b) = Suc (hgt m q)" using hh n by simp
    have "GetAncestor m q (int (GetSkipHeight (nat (bi_nHeight b)))) = up m (hgt m q - GetSkipHeight (Suc (hgt m q))) q"
      unfolding e using GetAncestor_correct[OF l, of q] q lt q0 by simp
    moreover have "up m (Suc (hgt m q) - GetSkipHeight (Suc (hgt m q))) h = up m (hgt m q - GetSkipHeight (Suc (hgt m q))) q"
      using Suc_diff_le[OF lt] n p(1) Some by simp
    ultimately show ?thesis using s Some n p(1) q q0 hh by (auto simp: linked_entry_def split: option.splits)
  qed
  have aw: "wf256 aw" "uval aw = block_work (bi_nBits b) \<or> uval aw = 0" using f uval_zero by auto
  show "work_entry m h"
  proof (cases prev)
    case None
    then show ?thesis using n p(1) c a f(1,2) aw uval_zero uint_add_correct[OF uval_zero(2) f(1)] uint_add_correct[OF uval_zero(2) aw(1)]
        block_work_less[of "bi_nBits b"]
      by (auto simp: work_entry_def simp del: power_numeral)
  next
    case (Some q)
    note q = p(2)[OF Some]
    have qS: "q \<in> S" using q by blast
    note wq = work_okD[OF w qS]
    have le: "uval (bi_nAuthenticatedChainWork (m q)) \<le> uval (bi_nChainWork (m q))" by (rule authenticated_le_claimed[OF l w qS refl])
    have C: "uval (bi_nChainWork b) = uval (bi_nChainWork (m q)) + block_work (bi_nBits b)" "wf256 (bi_nChainWork b)"
      using c Some uint_add_correct[OF wq(1) f(1)] f(2) q by (simp_all only: option.case mod_less)
    have "uval (bi_nAuthenticatedChainWork (m q)) + uval aw < 2 ^ 256" using le q aw(2) by linarith
    then have A: "uval (bi_nAuthenticatedChainWork b) = uval (bi_nAuthenticatedChainWork (m q)) + uval aw" "wf256 (bi_nAuthenticatedChainWork b)"
      using a Some uint_add_correct[OF wq(2) aw(1)] by (simp_all only: option.case mod_less)
    show ?thesis using n p(1) Some C A aw(2) by (auto simp: work_entry_def Let_def)
  qed
qed

lemma index_okD:
  assumes "index_ok bm"
  shows "linked (bm_heap bm) (set (bm_keys bm))" "work_ok (bm_heap bm) (set (bm_keys bm))" "time_ok (bm_heap bm) (set (bm_keys bm))"
    "p \<in> set (bm_keys bm) \<Longrightarrow> bi_hash (bm_heap bm p) = Some p \<and> length p = 32"
    "bm_best_header bm = Some q \<Longrightarrow> q \<in> set (bm_keys bm)"
  using assms by (auto simp: index_ok_def Let_def split: option.splits)

lemma AddToBlockIndex_correct:
  assumes ok: "index_ok bm" and self: "hashPrevBlock block \<noteq> CBlockHeader_GetHash block"
    and room: "\<And>q. q \<in> set (bm_keys bm) \<Longrightarrow> q = hashPrevBlock block \<Longrightarrow> bi_nHeight (bm_heap bm q) < int32_max \<and>
      uval (bi_nChainWork (bm_heap bm q)) + block_work (nBits block) < 2 ^ 256"
  shows "\<exists>bm'. AddToBlockIndex params bm block = Some (bm', CBlockHeader_GetHash block) \<and> index_ok bm' \<and>
    set (bm_keys bm') = insert (CBlockHeader_GetHash block) (set (bm_keys bm)) \<and>
    (\<forall>p \<in> set (bm_keys bm). bm_heap bm' p = bm_heap bm p)"
proof (cases "CBlockHeader_GetHash block \<in> set (bm_keys bm)")
  case True
  then show ?thesis using ok by (auto simp: AddToBlockIndex_def)
next
  case fresh: False
  define h where "h = CBlockHeader_GetHash block"
  define S where "S = set (bm_keys bm)"
  define b0 where "b0 = (CBlockIndex_init block)\<lparr>bi_hash := Some h\<rparr>"
  define m0 where "m0 = (bm_heap bm)(h := b0)"
  define prev where "prev = (if hashPrevBlock block \<in> set (h # bm_keys bm) then Some (hashPrevBlock block) else None)"
  note okD = index_okD[OF ok]
  have hS: "h \<notin> S" using fresh by (simp add: h_def S_def)
  have prev: "q \<in> S \<and> q = hashPrevBlock block \<and> q \<noteq> h" if "prev = Some q" for q
    using that self by (auto simp: prev_def h_def S_def split: if_splits)
  have f0: "bi_pprev b0 = None" "bi_hash b0 = Some h" "bi_nBits b0 = nBits block" "bi_nHeight b0 = 0" "bi_pskip b0 = None"
      "bi_nTime b0 = nTime block" by (simp_all add: b0_def CBlockIndex_init_def)
  obtain b w w' where b: "fill_new_entry params m0 b0 prev = Some b" "bi_hash b = Some h" "bi_nBits b = nBits block"
      "bi_pprev b = prev" "bi_nHeight b = (case prev of None \<Rightarrow> 0 | Some q \<Rightarrow> NextBlockHeightOrLimit (bi_nHeight (m0 q)))"
      "bi_pskip b = (case prev of None \<Rightarrow> None | Some q \<Rightarrow> GetAncestor m0 q (int (GetSkipHeight (nat (bi_nHeight b)))))"
      "bi_nTimeMax b = (case prev of None \<Rightarrow> nTime block | Some q \<Rightarrow> max (bi_nTimeMax (m0 q)) (nTime block))"
      "wf256 w" "uval w = block_work (nBits block)" "w' = w \<or> w' = uint_zero"
      "bi_nChainWork b = uint_add (case prev of None \<Rightarrow> uint_zero | Some q \<Rightarrow> bi_nChainWork (m0 q)) w"
      "bi_nAuthenticatedChainWork b = uint_add (case prev of None \<Rightarrow> uint_zero | Some q \<Rightarrow> bi_nAuthenticatedChainWork (m0 q)) w'"
      "bi_nTime b = nTime block"
    using fill_new_entry_fields[OF f0(1), of params m0 prev] unfolding f0 by blast
  define m where "m = m0(h := b)"
  have m: "m = (bm_heap bm)(h := b)" by (simp add: m_def m0_def)
  have l: "linked m S" and l0: "linked m0 S" and wk: "work_ok m S" and tm: "time_ok m S"
    unfolding m m0_def using linked_fresh[OF _ hS] work_time_fresh[OF _ hS] okD(1,2,3) by (simp_all add: S_def)
  have same: "m0 q = bm_heap bm q" "m q = bm_heap bm q" if "q \<in> S" for q using that hS by (auto simp: m m0_def)
  have anc: "GetAncestor m0 q x = GetAncestor m q x" if "q \<in> S" for q x
    using GetAncestor_correct[OF l0 that] GetAncestor_correct[OF l that] same[OF that]
      up_fresh[OF okD(1) hS[unfolded S_def] that[unfolded S_def]] by (simp add: m m0_def)
  have entry: "linked_entry m (insert h S) h" "work_entry m h"
  proof -
    have hb: "m h = b" by (simp add: m)
    have pr: "q \<in> S \<and> bi_nHeight b = bi_nHeight (m q) + 1 \<and> uval (bi_nChainWork (m q)) + block_work (bi_nBits b) < 2 ^ 256"
      if "prev = Some q" for q
      using prev[OF that] room[of q] b(3,5) that same[of q] by (auto simp: S_def NextBlockHeightOrLimit_def)
    have sk: "bi_pskip b = (case prev of None \<Rightarrow> None | Some q \<Rightarrow> GetAncestor m q (int (GetSkipHeight (nat (bi_nHeight b)))))"
      using b(6) anc prev by (cases prev) auto
    have cw: "bi_nChainWork b = uint_add (case prev of None \<Rightarrow> uint_zero | Some q \<Rightarrow> bi_nChainWork (m q)) w"
        "bi_nAuthenticatedChainWork b = uint_add (case prev of None \<Rightarrow> uint_zero | Some q \<Rightarrow> bi_nAuthenticatedChainWork (m q)) w'"
      using b(11,12) prev same by (cases prev; auto)+
    have root: "prev = None \<Longrightarrow> bi_nHeight b = 0 \<and> bi_pskip b = None" using b(5,6) by simp
    note N = new_entry_ok[OF l wk hS hb b(8) b(9)[folded b(3)] b(10) b(4) pr root sk cw]
    show "linked_entry m (insert h S) h" "work_entry m h" using N by blast+
  qed
  have mh: "m h = b" by (simp add: m)
  have "bi_nTimeMax b = (case prev of None \<Rightarrow> bi_nTime b | Some q \<Rightarrow> max (bi_nTimeMax (m q)) (bi_nTime b))"
  proof (cases prev)
    case (Some q)
    have "q \<in> S" using prev[OF Some] by blast
    then have "m0 q = m q" by (simp only: same)
    then show ?thesis using b(7,13) Some by simp
  qed (use b(7,13) in simp)
  then have time: "time_ok m (insert h S)" using tm
    by (cases prev) (simp_all add: time_ok_def mh b(4))
  have wk': "work_ok m (insert h S)" using wk entry(2) by (simp add: work_ok_def)
  have l': "linked m (insert h S)" by (rule linked_insert[OF l entry(1)])
  have hash: "bi_hash (m p) = Some p \<and> length p = 32" if "p \<in> insert h S" for p
    using that okD(4)[of p] b(2) by (auto simp: m S_def h_def GetHash_identity)
  have "\<exists>pf. (case bm_best_header bm of None \<Rightarrow> Some True
      | Some q \<Rightarrow> PreferTrustAdjustedHeader (m q) b TRUST_ADJUSTED_WORK_ALLOWANCE_BLOCKS) = Some pf"
  proof (cases "bm_best_header bm")
    case (Some q)
    then have q: "q \<in> insert h S" using okD(5) by (simp add: S_def)
    have hh: "h \<in> insert h S" by simp
    have "m h = b" by (simp add: m)
    then show ?thesis
      using Some Prefer_key[OF wf_work_index[OF l' wk' q] _ _ wf_work_index[OF l' wk' hh]] hash[OF q] hash[OF hh] by auto
  qed auto
  then obtain pf where pf: "(case bm_best_header bm of None \<Rightarrow> Some True
      | Some q \<Rightarrow> PreferTrustAdjustedHeader (m q) b TRUST_ADJUSTED_WORK_ALLOWANCE_BLOCKS) = Some pf" by blast
  define bm' where "bm' = bm\<lparr>bm_heap := m, bm_keys := h # bm_keys bm, bm_children := (case prev of None \<Rightarrow> bm_children bm
      | Some q \<Rightarrow> (bm_children bm)(q := bm_children bm q @ [h])), bm_dirty := h # bm_dirty bm,
      bm_best_header := (if pf then Some h else bm_best_header bm)\<rparr>"
  have "AddToBlockIndex params bm block = Some (bm', h)"
    unfolding AddToBlockIndex_def h_def[symmetric] Let_def b0_def[symmetric] m0_def[symmetric] prev_def[symmetric]
      b(1) bind.bind_lunit m_def[symmetric] pf bm'_def using fresh[folded h_def] by simp
  moreover have "index_ok bm'"
    using l' wk' time hash okD(5) by (auto simp: index_ok_def bm'_def S_def[symmetric] Let_def split: option.splits)
  ultimately show ?thesis using same by (auto simp: bm'_def S_def h_def)
qed

section \<open>Runs of the block manager\<close>

text \<open>A header may be added when it is not its own parent and its parent leaves room for one more block and its
  work.\<close>

definition admissible :: "BlockManager \<Rightarrow> CBlockHeader \<Rightarrow> bool" where
  "admissible bm block \<longleftrightarrow>
     hashPrevBlock block \<noteq> CBlockHeader_GetHash block \<and>
     (hashPrevBlock block \<in> set (bm_keys bm) \<longrightarrow>
        bi_nHeight (bm_heap bm (hashPrevBlock block)) < int32_max \<and>
        uval (bi_nChainWork (bm_heap bm (hashPrevBlock block))) + block_work (nBits block) < 2 ^ 256)"

inductive header_run :: "Params \<Rightarrow> BlockManager \<Rightarrow> bool" for params where
  empty: "bm_keys bm = [] \<Longrightarrow> bm_best_header bm = None \<Longrightarrow> header_run params bm"
| add: "header_run params bm \<Longrightarrow> admissible bm block \<Longrightarrow> AddToBlockIndex params bm block = Some (bm', p) \<Longrightarrow>
    header_run params bm'"

lemma AddToBlockIndex_admissible:
  assumes "index_ok bm" "admissible bm block"
  shows "\<exists>bm'. AddToBlockIndex params bm block = Some (bm', CBlockHeader_GetHash block) \<and> index_ok bm' \<and>
    set (bm_keys bm') = insert (CBlockHeader_GetHash block) (set (bm_keys bm)) \<and>
    (\<forall>p \<in> set (bm_keys bm). bm_heap bm' p = bm_heap bm p)"
  by (rule AddToBlockIndex_correct[OF assms(1)]) (use assms(2) in \<open>auto simp: admissible_def\<close>)

lemma header_run_index_ok: "header_run params bm \<Longrightarrow> index_ok bm"
proof (induction rule: header_run.induct)
  case (empty bm)
  then show ?case by (simp add: index_ok_def linked_def work_ok_def time_ok_def Let_def)
next
  case (add bm block bm' p)
  then show ?case using AddToBlockIndex_admissible[OF add.IH add.hyps(2), of params] by auto
qed

section \<open>Properties\<close>

text \<open>C33: Every index the block manager can reach by adding headers is linked, with valid skip pointers, claimed
work that is the sum of the proofs of its ancestors, authenticated work that never runs ahead of it, and largest
times that never fall; and in every such index adding an admissible header succeeds, files it under its hash and
leaves every other entry as it was.\<close>

theorem block_index_invariant:
  assumes "header_run params bm"
  shows "index_ok bm \<and>
    (admissible bm block \<longrightarrow>
      (\<exists>bm'. AddToBlockIndex params bm block = Some (bm', CBlockHeader_GetHash block) \<and> header_run params bm' \<and>
        set (bm_keys bm') = insert (CBlockHeader_GetHash block) (set (bm_keys bm)) \<and>
        (\<forall>p \<in> set (bm_keys bm). bm_heap bm' p = bm_heap bm p)))"
proof -
  have ok: "index_ok bm" by (rule header_run_index_ok[OF assms])
  have "\<exists>bm'. AddToBlockIndex params bm block = Some (bm', CBlockHeader_GetHash block) \<and> header_run params bm' \<and>
      set (bm_keys bm') = insert (CBlockHeader_GetHash block) (set (bm_keys bm)) \<and>
      (\<forall>p \<in> set (bm_keys bm). bm_heap bm' p = bm_heap bm p)" if a: "admissible bm block"
    using AddToBlockIndex_admissible[OF ok a, of params] header_run.add[OF assms a] by blast
  with ok show ?thesis by blast
qed

definition no_headers :: BlockManager where
  "no_headers = \<lparr>bm_heap = fork_heap, bm_keys = [], bm_children = (\<lambda>_. []), bm_dirty = [], bm_best_header = None\<rparr>"

theorem block_index_invariant_witness:
  "\<exists>bm'. AddToBlockIndex (Params_init 1 [] False False False 90 900) no_headers (CBlockHeader_SetNull\<lparr>hashPrevBlock := []\<rparr>) =
      Some (bm', CBlockHeader_GetHash (CBlockHeader_SetNull\<lparr>hashPrevBlock := []\<rparr>)) \<and>
    header_run (Params_init 1 [] False False False 90 900) bm'"
proof -
  have "header_run (Params_init 1 [] False False False 90 900) no_headers"
    by (rule header_run.empty) (simp_all add: no_headers_def)
  moreover have "length (CBlockHeader_GetHash (CBlockHeader_SetNull\<lparr>hashPrevBlock := []\<rparr>)) = 32"
    by (simp add: GetHash_identity)
  then have "admissible no_headers (CBlockHeader_SetNull\<lparr>hashPrevBlock := []\<rparr>)"
    by (auto simp: admissible_def no_headers_def)
  ultimately show ?thesis using block_index_invariant by blast
qed

text \<open>C34: On a consistent index the work a header is ranked by lies between its authenticated and its claimed work,
exceeds the authenticated work by at most the allowance times the proof of the block, and is exactly the claimed
work once everything is authenticated: a forged suffix of headers cannot buy more than the allowance.\<close>

theorem trust_adjusted_work_bounded:
  assumes "linked m S" "work_ok m S" "p \<in> S" "bi_hash (m p) = Some p"
  shows "\<exists>w. GetTrustAdjustedChainWork (m p) n = Some w \<and> wf256 w \<and>
    uval (bi_nAuthenticatedChainWork (m p)) \<le> uval w \<and> uval w \<le> uval (bi_nChainWork (m p)) \<and>
    uval w \<le> uval (bi_nAuthenticatedChainWork (m p)) + block_work (bi_nBits (m p)) * unat n \<and>
    (bi_nAuthenticatedChainWork (m p) = bi_nChainWork (m p) \<longrightarrow> w = bi_nChainWork (m p))"
proof -
  have wf: "wf_work (m p)" by (rule wf_work_index[OF assms])
  obtain w where w: "GetTrustAdjustedChainWork (m p) n = Some w" "wf256 w" "uval w = adjusted (m p) (unat n)"
    using GetTrustAdjusted_correct[OF wf] by blast
  have le: "uval (bi_nAuthenticatedChainWork (m p)) \<le> uval (bi_nChainWork (m p))" and c: "wf256 (bi_nChainWork (m p))"
    using wf by (simp_all add: wf_work_def)
  have "(block_work (bi_nBits (m p)) * unat n) mod 2 ^ 256 \<le> block_work (bi_nBits (m p)) * unat n" by (rule mod_less_eq_dividend)
  then have "adjusted (m p) (unat n) \<le> uval (bi_nAuthenticatedChainWork (m p)) + block_work (bi_nBits (m p)) * unat n"
    unfolding adjusted_def by linarith
  moreover have "uval (bi_nAuthenticatedChainWork (m p)) \<le> adjusted (m p) (unat n)" "adjusted (m p) (unat n) \<le> uval (bi_nChainWork (m p))"
    using le by (auto simp: adjusted_def)
  moreover have "w = bi_nChainWork (m p)" if "bi_nAuthenticatedChainWork (m p) = bi_nChainWork (m p)"
    using uval_eq_iff[OF w(2) c] w(3) that by (simp add: adjusted_def)
  ultimately show ?thesis using w by auto
qed

lemma fork_work: "work_ok fork_heap fork_keys"
proof -
  have "SetCompact 0 = SetCompact (0 :: u32)" ..
  moreover have "uval (cr_value (SetCompact 0)) = 0" by (simp add: SetCompact_def Let_def uval_of_u64)
  ultimately have "block_work 0 = 0" by (simp add: block_work_def target_of_def Let_def)
  then show ?thesis by (simp add: work_ok_def work_entry_def fork_defs CBlockHeader_SetNull_def uval_zero)
qed

theorem trust_adjusted_work_bounded_witness:
  "\<exists>w. GetTrustAdjustedChainWork (fork_heap [3]) 6 = Some w \<and> w = bi_nChainWork (fork_heap [3])"
proof -
  have "[3] \<in> fork_keys" by (simp add: fork_keys_def)
  moreover have "bi_nAuthenticatedChainWork (fork_heap [3]) = bi_nChainWork (fork_heap [3])" by (simp add: fork_defs)
  ultimately show ?thesis
    using trust_adjusted_work_bounded[OF fork_linked(1) fork_work, of "[3]" 6] fork_linked(3) by auto
qed

text \<open>C35: The choice of the best header is a strict weak order: \<open>PreferTrustAdjustedHeader\<close> compares a key of five
numbers lexicographically (adjusted work, authenticated work, then the smaller unauthenticated suffix, and only
where there is such a suffix the lower height and the smaller hash), so it is asymmetric and transitive, its ties
are transitive, and fully authenticated headers of equal work tie.\<close>

theorem header_preference_order:
  assumes "wf_work a" "bi_hash a = Some ha" "length ha = 32" "wf_work b" "bi_hash b = Some hb" "length hb = 32"
  shows "PreferTrustAdjustedHeader a b n = Some (header_key n a < header_key n b)"
  by (rule Prefer_key[OF assms])

theorem header_preference_order_witness:
  "let a = fork_heap (replicate 32 1); b = fork_heap (replicate 32 2) in
    PreferTrustAdjustedHeader a b 6 = Some (header_key 6 a < header_key 6 b)"
proof -
  have "wf_work (fork_heap (replicate 32 x))" "bi_hash (fork_heap (replicate 32 x)) = Some (replicate 32 x)" for x
    by (simp_all add: wf_work_def fork_defs uval_zero)
  then show ?thesis
    using header_preference_order[of "fork_heap (replicate 32 1)" "replicate 32 1" "fork_heap (replicate 32 2)" "replicate 32 2" 6]
    unfolding Let_def by simp
qed

end
