(* ===== verification/Retarget.thy ===== *)
theory Retarget
  imports Arith256 Params
begin

text \<open>
  The arithmetic of difficulty targets in \<open>pow.cpp\<close>: the saturating operations, the scaling of a target by a
  ratio of time spans, the reduction of rescale ratios, the transition target of the MatMul epoch, and the ASERT
  exponential with its fixed-point polynomial. A division by zero throws, which is \<open>None\<close>. The unbounded
  \<open>cpp_int\<close> of the transition target is a natural number.
\<close>

unbundle bit_operations_syntax

section \<open>Saturating operations\<close>

definition uint_max :: arith_uint256 where
  "uint_max = uint_not uint_zero"

definition uint_or :: "arith_uint256 \<Rightarrow> arith_uint256 \<Rightarrow> arith_uint256" where
  "uint_or a b = map2 (OR) a b"

definition SaturatingLeftShift256 :: "arith_uint256 \<Rightarrow> nat \<Rightarrow> arith_uint256" where
  "SaturatingLeftShift256 val shift =
     (if shift = 0 \<or> val = uint_of_u64 0 then val
      else if shift \<ge> 256 then (if val = uint_of_u64 0 then uint_of_u64 0 else uint_max)
      else let mask = uint_shr uint_max shift in
        if uint_gt val mask then uint_max else uint_shl val shift)"

definition EstimatePreHashGateSpacing :: "arith_uint256 \<Rightarrow> u64 option" where
  "EstimatePreHashGateSpacing pre_hash_target =
     (if pre_hash_target = uint_of_u64 0 then Some (- 1)
      else do {
        quotient \<leftarrow> uint_div uint_max pre_hash_target;
        if uint_bits quotient > 63 then Some (- 1)
        else Some (max 1 (uint_GetLow64 quotient + 1))
      })"

definition ClampRetargetResult :: "arith_uint256 \<Rightarrow> arith_uint256 \<Rightarrow> arith_uint256" where
  "ClampRetargetResult target pow_limit =
     (let target = (if uint_EqualTo target 0 then uint_of_u64 1 else target) in
      if uint_gt target pow_limit then pow_limit else target)"

definition SaturatingMultiplyByUint32 :: "arith_uint256 \<Rightarrow> u32 \<Rightarrow> arith_uint256 option" where
  "SaturatingMultiplyByUint32 value factor =
     (if uint_EqualTo value 0 \<or> factor = 0 then Some (uint_of_u64 0)
      else do {
        q \<leftarrow> uint_div uint_max (uint_of_u64 (ucast factor));
        if uint_gt value q then Some uint_max else Some (uint_mul32 value factor)
      })"

text \<open>The four clamps at the head of \<open>ScaleTargetByTimespan\<close>.\<close>

definition clamp_timespan :: "int \<Rightarrow> u32" where
  "clamp_timespan t =
     (let t = (if t \<le> 0 then 1 else t); t = (if t > uint32_max then uint32_max else t) in of_int t)"

definition ScaleTargetByTimespan :: "arith_uint256 \<Rightarrow> int \<Rightarrow> int \<Rightarrow> arith_uint256 option" where
  "ScaleTargetByTimespan target actual_timespan target_timespan =
     (let actual_u = clamp_timespan actual_timespan; target_u = clamp_timespan target_timespan in do {
        quotient \<leftarrow> uint_div target (uint_of_u64 (ucast target_u));
        let remainder = uint_sub target (uint_mul32 quotient target_u);
        q \<leftarrow> uint_div uint_max (uint_of_u64 (ucast actual_u));
        if uint_gt quotient q then Some uint_max
        else do {
          let scaled = uint_mul32 quotient actual_u;
          remainder \<leftarrow> uint_div (uint_mul32 remainder actual_u) (uint_of_u64 (ucast target_u));
          if uint_gt scaled (uint_sub uint_max remainder) then Some uint_max
          else Some (uint_add scaled remainder)
        }
      })"

section \<open>Rescale ratios\<close>

definition ReduceRescaleRatioToU64 :: "int \<Rightarrow> int \<Rightarrow> (u64 \<times> u64) option" where
  "ReduceRescaleRatioToU64 num den =
     (if num \<le> 0 \<or> den \<le> 0 then None
      else let g = gcd num den in Some (of_int (num sdiv g), of_int (den sdiv g)))"

definition ReduceRescaleRatioToU32 :: "int \<Rightarrow> int \<Rightarrow> (u32 \<times> u32) option" where
  "ReduceRescaleRatioToU32 num den =
     (if num \<le> 0 \<or> den \<le> 0 then None
      else let g = gcd num den; rn = num sdiv g; rd = den sdiv g in
        if rn > uint32_max \<or> rd > uint32_max then None else Some (of_int rn, of_int rd))"

definition to_wide :: "arith_uint256 \<Rightarrow> nat" where
  "to_wide value =
     (let encoded = ArithToUint256 value in
      fold (\<lambda>limb wide. wide * 2 ^ 64 + unat (ReadLE64 (drop (limb * 8) encoded))) [3, 2, 1, 0] 0)"

definition from_wide :: "nat \<Rightarrow> arith_uint256" where
  "from_wide value =
     fst (fold (\<lambda>limb (narrowed, value).
       let word = of_nat (value mod 2 ^ 32) :: u32 in
       (uint_or narrowed (uint_shl (uint_of_u64 (ucast word)) (limb * 32)), value div 2 ^ 32)) [0..<8] (uint_of_u64 0, value))"

text \<open>Here \<open>None\<close> is \<open>std::nullopt\<close>.\<close>

definition DeriveMatMulEpochATransitionTarget ::
    "arith_uint256 \<Rightarrow> u32 \<Rightarrow> u64 \<Rightarrow> u64 \<Rightarrow> arith_uint256 \<Rightarrow> arith_uint256 option" where
  "DeriveMatMulEpochATransitionTarget parent_target pre_hash_epsilon_bits attempt_rate_num attempt_rate_den pow_limit =
     (if uint_EqualTo parent_target 0 \<or> attempt_rate_num = 0 \<or> attempt_rate_den = 0 \<or> uint_EqualTo pow_limit 0 then None
      else
        let pre_hash_target = SaturatingLeftShift256 parent_target (unat pre_hash_epsilon_bits);
            numerator = to_wide parent_target * to_wide pre_hash_target * unat attempt_rate_num;
            denominator = unat attempt_rate_den * 2 ^ 256;
            target = numerator div denominator;
            wide_limit = to_wide pow_limit;
            target = (if target > wide_limit then wide_limit else target);
            target = (if target = 0 then 1 else target) in
        Some (from_wide target))"

definition MatMulAsertFailClosedBits :: "u32 option" where
  "MatMulAsertFailClosedBits = GetCompact (uint_of_u64 1) False"

section \<open>The slew guard\<close>

definition NORMAL_SLEW_GUARD_SHIFT :: nat where
  "NORMAL_SLEW_GUARD_SHIFT = 2"

definition ApplyDgwSlewGuard :: "arith_uint256 \<Rightarrow> arith_uint256 \<Rightarrow> int \<Rightarrow> Params \<Rightarrow> arith_uint256" where
  "ApplyDgwSlewGuard candidate_target parent_target next_height params =
     (if next_height < nDgwSlewGuardHeight params then candidate_target
      else
        let max_ease_target = SaturatingLeftShift256 parent_target NORMAL_SLEW_GUARD_SHIFT;
            candidate_target = (if uint_gt candidate_target max_ease_target then max_ease_target else candidate_target);
            min_harden_target = uint_shr parent_target NORMAL_SLEW_GUARD_SHIFT;
            min_harden_target = (if uint_EqualTo min_harden_target 0 then uint_of_u64 1 else min_harden_target) in
        if uint_lt candidate_target min_harden_target then min_harden_target else candidate_target)"

section \<open>The ASERT target\<close>

definition ASERT_RADIX_BITS :: nat where "ASERT_RADIX_BITS = 16"
definition ASERT_POLY_COEFF_1 :: int where "ASERT_POLY_COEFF_1 = 195766423245049"
definition ASERT_POLY_COEFF_2 :: int where "ASERT_POLY_COEFF_2 = 971821376"
definition ASERT_POLY_COEFF_3 :: int where "ASERT_POLY_COEFF_3 = 5127"

text \<open>A left shift of a signed \<open>__int128\<close> keeps the low 128 bits.\<close>

definition i128 :: "int \<Rightarrow> int" where
  "i128 x = sint (of_int x :: 128 word)"

text \<open>The exponent \<open>(time_diff - target_spacing * (height_diff + 1)) * 2^16 / half_life\<close>, cut to 64 bits.\<close>

definition asert_exponent :: "int \<Rightarrow> int \<Rightarrow> int \<Rightarrow> int \<Rightarrow> int option" where
  "asert_exponent time_diff height_diff half_life target_spacing = do {
     next \<leftarrow> i64_chk (height_diff + 1);
     let ideal_delta = target_spacing * next;
     let exponent_input = time_diff - ideal_delta;
     let exponent_scaled = i128 (exponent_input * 2 ^ ASERT_RADIX_BITS);
     let exponent_q = exponent_scaled sdiv half_life;
     Some (if exponent_q > int64_max then int64_max
           else if exponent_q < int64_min then int64_min
           else exponent_q)
   }"

definition asert_factor :: "int \<Rightarrow> u32" where
  "asert_factor frac =
     (let poly = ASERT_POLY_COEFF_1 * frac + ASERT_POLY_COEFF_2 * frac * frac + ASERT_POLY_COEFF_3 * frac * frac * frac
                 + 2 ^ 47 in
      2 ^ ASERT_RADIX_BITS + of_int (poly div 2 ^ 48))"

text \<open>The anchor target times the factor, shifted by the whole part of the exponent.\<close>

definition asert_apply :: "arith_uint256 \<Rightarrow> u32 \<Rightarrow> int \<Rightarrow> arith_uint256 option" where
  "asert_apply anchor_target factor net_shift =
     (if net_shift \<le> - 256 then Some (uint_of_u64 0)
      else if net_shift < 0 then
        let right_shift = nat (- net_shift) in do {
          q \<leftarrow> uint_div uint_max (uint_of_u64 (ucast factor));
          if uint_gt anchor_target q then SaturatingMultiplyByUint32 (uint_shr anchor_target right_shift) factor
          else do {
            next_target \<leftarrow> SaturatingMultiplyByUint32 anchor_target factor;
            Some (uint_shr next_target right_shift)
          }
        }
      else if net_shift \<ge> 256 then Some uint_max
      else do {
        next_target \<leftarrow> SaturatingMultiplyByUint32 anchor_target factor;
        Some (if net_shift > 0 then SaturatingLeftShift256 next_target (nat net_shift) else next_target)
      })"

definition CalculateMatMulAsertTarget ::
    "arith_uint256 \<Rightarrow> int \<Rightarrow> int \<Rightarrow> int \<Rightarrow> Params \<Rightarrow> arith_uint256 \<Rightarrow> arith_uint256 option" where
  "CalculateMatMulAsertTarget anchor_target time_diff height_diff half_life params pow_limit =
     (if uint_EqualTo anchor_target 0 \<or> uint_gt anchor_target pow_limit then Some pow_limit
      else if height_diff < 0 then Some (uint_of_u64 1)
      else if half_life \<le> 0 \<or> nPowTargetSpacing params \<le> 0 then Some (uint_of_u64 1)
      else do {
        exponent \<leftarrow> asert_exponent time_diff height_diff half_life (nPowTargetSpacing params);
        let shifts = exponent div 2 ^ ASERT_RADIX_BITS;
        let frac = exponent mod 2 ^ ASERT_RADIX_BITS;
        let factor = asert_factor frac;
        let net_shift = shifts - int ASERT_RADIX_BITS;
        next_target \<leftarrow> asert_apply anchor_target factor net_shift;
        let next_target = (if uint_EqualTo next_target 0 then uint_of_u64 1 else next_target);
        Some (ClampRetargetResult next_target pow_limit)
      })"

definition WARMUP_RESTART_GAP_THRESHOLD_MULTIPLIER :: int where "WARMUP_RESTART_GAP_THRESHOLD_MULTIPLIER = 2"
definition WARMUP_RESTART_GAP_DAMPING_DIVISOR :: int where "WARMUP_RESTART_GAP_DAMPING_DIVISOR = 2"

definition DampenWarmupTimespanForRestartGap :: "int \<Rightarrow> int \<Rightarrow> int option" where
  "DampenWarmupTimespanForRestartGap observed_timespan target_timespan =
     (if \<not> target_timespan > 0 then None
      else do {
        threshold \<leftarrow> (if target_timespan > int64_max sdiv WARMUP_RESTART_GAP_THRESHOLD_MULTIPLIER then Some int64_max
                      else i64_chk (target_timespan * WARMUP_RESTART_GAP_THRESHOLD_MULTIPLIER));
        if observed_timespan \<le> threshold then Some observed_timespan
        else do {
          excess \<leftarrow> i64_chk (observed_timespan - target_timespan);
          i64_chk (target_timespan + excess sdiv WARMUP_RESTART_GAP_DAMPING_DIVISOR)
        }
      })"

section \<open>Saturating arithmetic on values\<close>

lemma uint_max_value: "uval uint_max = 2 ^ 256 - 1" "wf256 uint_max"
proof -
  have "uval uint_max + uval uint_zero + 1 = 2 ^ (32 * length uint_zero)"
    using uint_not_correct[of uint_zero] by (simp add: uint_max_def uint_not_def)
  moreover have "32 * length uint_zero = 256" using uval_zero(2) by (simp add: wf256_def WIDTH_def)
  ultimately show "uval uint_max = 2 ^ 256 - 1" by (simp add: uval_zero)
  show "wf256 uint_max" using uval_zero(2) by (simp add: uint_max_def uint_not_def wf256_def)
qed

lemma uval_le_max: "wf256 a \<Longrightarrow> uval a \<le> 2 ^ 256 - 1"
  using uval_256[of a] by simp

lemma uval_u64_0: "uval (uint_of_u64 0) = 0" "wf256 (uint_of_u64 0)"
  by (simp_all add: uval_of_u64)

lemma uval_u64_1: "uval (uint_of_u64 1) = 1" "wf256 (uint_of_u64 1)"
  by (simp_all add: uval_of_u64)

lemma uval_u32: "uval (uint_of_u64 (ucast (b :: u32))) = unat b" "wf256 (uint_of_u64 (ucast (b :: u32)))"
  by (simp_all add: uval_of_u64 unat_ucast_u64)

lemma eq_u64_0: "wf256 a \<Longrightarrow> a = uint_of_u64 0 \<longleftrightarrow> uval a = 0"
  using uval_eq_iff[of a "uint_of_u64 0"] by (simp add: uval_u64_0)

lemma max_div_less_iff: "0 < (f :: nat) \<Longrightarrow> M div f < v \<longleftrightarrow> M < v * f"
  by (simp add: div_less_iff_less_mult)

lemma uint_div_u32:
  assumes "wf256 a" "0 < unat (b :: u32)"
  obtains q where "uint_div a (uint_of_u64 (ucast b)) = Some q" "wf256 q" "uval q = uval a div unat b"
  using uint_div_correct(2)[OF assms(1) uval_u32(2), of b] uval_u32(1)[of b] assms(2) by auto

lemma uint_mul32_exact:
  assumes "wf256 a" "uval a * unat b < 2 ^ 256" shows "uval (uint_mul32 a b) = uval a * unat b"
  using uint_mul32_correct(1)[OF assms(1), of b] assms(2) by simp

lemma SaturatingLeftShift256_value:
  assumes a: "wf256 a"
  shows "uval (SaturatingLeftShift256 a s) = min (2 ^ 256 - 1) (uval a * 2 ^ s)" "wf256 (SaturatingLeftShift256 a s)"
proof -
  define M :: nat where "M = 2 ^ 256 - 1"
  have M: "x mod 2 ^ 256 = x" if "x \<le> M" for x using that by (simp add: M_def)
  have "wf256 (SaturatingLeftShift256 a s) \<and> uval (SaturatingLeftShift256 a s) = min M (uval a * 2 ^ s)"
  proof (cases "s = 0 \<or> uval a = 0")
    case True
    have "SaturatingLeftShift256 a s = a" using True by (auto simp: SaturatingLeftShift256_def eq_u64_0[OF a])
    then show ?thesis using True a uval_le_max[OF a] by (auto simp: M_def)
  next
    case False
    then have nz: "s \<noteq> 0" "0 < uval a" "a \<noteq> uint_of_u64 0" using eq_u64_0[OF a] by auto
    show ?thesis
    proof (cases "256 \<le> s")
      case True
      have "M \<le> 2 ^ s" using power_increasing[OF True, of "2 :: nat"] by (simp add: M_def)
      then have "M \<le> uval a * 2 ^ s" using nz(2) by (simp add: le_trans[of M "2 ^ s"])
      then show ?thesis using nz True uint_max_value by (simp add: SaturatingLeftShift256_def M_def)
    next
      case False
      note sh = uint_shr_correct[OF uint_max_value(2), of s] uint_shl_correct[OF a, of s]
      have gt: "uint_gt a (uint_shr uint_max s) \<longleftrightarrow> M < uval a * 2 ^ s"
        using max_div_less_iff[of "2 ^ s" M "uval a"] sh(1) uint_max_value(1) by (simp only: uint_order(1)[OF a sh(2)] M_def) simp
      show ?thesis
      proof (cases "M < uval a * 2 ^ s")
        case True
        then show ?thesis using nz False gt uint_max_value by (simp add: SaturatingLeftShift256_def M_def)
      next
        case le: False
        have "SaturatingLeftShift256 a s = uint_shl a s" using nz False gt le by (simp add: SaturatingLeftShift256_def)
        then show ?thesis using sh(3,4) M[of "uval a * 2 ^ s"] le by (simp only: min_def) auto
      qed
    qed
  qed
  then show "uval (SaturatingLeftShift256 a s) = min (2 ^ 256 - 1) (uval a * 2 ^ s)" "wf256 (SaturatingLeftShift256 a s)"
    by (simp_all only: M_def)
qed

lemma ClampRetargetResult_value:
  assumes t: "wf256 t" and l: "wf256 l"
  shows "uval (ClampRetargetResult t l) = min (uval l) (max 1 (uval t))" "wf256 (ClampRetargetResult t l)"
proof -
  define t' where "t' = (if uint_EqualTo t 0 then uint_of_u64 1 else t)"
  have t': "wf256 t'" "uval t' = max 1 (uval t)" using t by (auto simp: t'_def uint_EqualTo_0 uval_u64_1)
  have "ClampRetargetResult t l = (if uint_gt t' l then l else t')" by (simp add: ClampRetargetResult_def t'_def Let_def)
  then show "uval (ClampRetargetResult t l) = min (uval l) (max 1 (uval t))" "wf256 (ClampRetargetResult t l)"
    using t' l by (auto simp: uint_order)
qed

lemma SaturatingMultiplyByUint32_value:
  assumes v: "wf256 v"
  shows "\<exists>r. SaturatingMultiplyByUint32 v f = Some r \<and> wf256 r \<and> uval r = min (2 ^ 256 - 1) (uval v * unat f)"
proof (cases "uval v = 0 \<or> f = 0")
  case True
  then show ?thesis using v by (auto simp: SaturatingMultiplyByUint32_def uint_EqualTo_0 uval_u64_0)
next
  case False
  define M :: nat where "M = 2 ^ 256 - 1"
  have M: "x mod 2 ^ 256 = x" if "x \<le> M" for x using that by (simp add: M_def)
  have f: "0 < unat f" using False by (simp add: unat_gt_0)
  obtain q where q: "uint_div uint_max (uint_of_u64 (ucast f)) = Some q" "wf256 q" "uval q = M div unat f"
    using uint_div_u32[OF uint_max_value(2), of f] f uint_max_value(1) by (auto simp: M_def)
  have r: "SaturatingMultiplyByUint32 v f = Some (if M < uval v * unat f then uint_max else uint_mul32 v f)"
    using False v q max_div_less_iff[OF f, of M "uval v"] by (simp add: SaturatingMultiplyByUint32_def uint_EqualTo_0 uint_order)
  have le: "uval (uint_mul32 v f) = uval v * unat f" if "\<not> M < uval v * unat f"
    using M[of "uval v * unat f"] that uint_mul32_correct(1)[OF v, of f] by simp
  show ?thesis using r le uint_mul32_correct(2)[OF v, of f] uint_max_value by (auto simp only: M_def[symmetric] min_def split: if_splits)
qed

section \<open>Scaling by a ratio of time spans\<close>

definition span_nat :: "int \<Rightarrow> nat" where
  "span_nat t = nat (min uint32_max (max 1 t))"

lemma span_nat_bounds: "0 < span_nat t" "span_nat t < 2 ^ 32"
  by (simp_all add: span_nat_def)

lemma clamp_timespan_value: "unat (clamp_timespan t) = span_nat t"
proof -
  define u where "u = min uint32_max (max 1 t)"
  have u: "0 \<le> u" "u < 2 ^ 32" by (simp_all add: u_def)
  have c: "clamp_timespan t = of_int u" by (simp add: clamp_timespan_def Let_def u_def min_def max_def)
  have "uint (of_int u :: u32) = u" using u by (simp only: uint_word_of_int len_bit0 len_num1) simp
  then have "nat (uint (of_int u :: u32)) = nat u" by (simp only:)
  then show ?thesis by (simp add: c span_nat_def u_def)
qed

lemma floor_scale_split: "0 < b \<Longrightarrow> (q * b + r) * a div b = q * a + r * a div (b :: nat)"
proof -
  assume b: "0 < b"
  have "(q * b + r) * a = r * a + q * a * b" by (simp add: algebra_simps)
  then show ?thesis using b by simp
qed

lemma ScaleTargetByTimespan_value:
  assumes t: "wf256 t"
  shows "\<exists>r. ScaleTargetByTimespan t actual ts = Some r \<and> wf256 r \<and>
    uval r = min (2 ^ 256 - 1) (uval t * span_nat actual div span_nat ts)"
proof -
  define M :: nat where "M = 2 ^ 256 - 1"
  define a b where "a = clamp_timespan actual" and "b = clamp_timespan ts"
  define A B where "A = unat a" and "B = unat b"
  define Q R where "Q = uval t div B" and "R = uval t mod B"
  have M: "x mod 2 ^ 256 = x" if "x \<le> M" for x using that by (simp add: M_def)
  have tM: "uval t \<le> M" using uval_le_max[OF t] by (simp add: M_def)
  have AB: "0 < A" "A < 2 ^ 32" "0 < B" "B < 2 ^ 32"
    using span_nat_bounds by (simp_all add: A_def B_def a_def b_def clamp_timespan_value)
  have split: "uval t = Q * B + R" "R < B" using AB by (simp_all add: Q_def R_def)
  have "R * A \<le> 2 ^ 32 * 2 ^ 32" using split(2) AB by (intro mult_mono) auto
  also have "\<dots> \<le> M" by (simp add: M_def)
  finally have RA: "R * A \<le> M" .
  obtain q where q: "uint_div t (uint_of_u64 (ucast b)) = Some q" "wf256 q" "uval q = Q"
    using uint_div_u32[OF t, of b] AB by (auto simp: Q_def B_def)
  obtain d where d: "uint_div uint_max (uint_of_u64 (ucast a)) = Some d" "wf256 d" "uval d = M div A"
    using uint_div_u32[OF uint_max_value(2), of a] AB uint_max_value(1) by (auto simp: M_def A_def)
  note qb = uint_mul32_correct[OF q(2), of b]
  have qb': "uval (uint_mul32 q b) = Q * B" using qb(1) M[of "Q * B"] split(1) tM q(3) by (simp add: B_def)
  define r where "r = uint_sub t (uint_mul32 q b)"
  have r: "wf256 r" "uval r = R"
    using uint_sub_correct(2,3)[OF t qb(2)] qb' split(1) by (simp_all add: r_def)
  note ra = uint_mul32_correct[OF r(1), of a]
  have ra': "uval (uint_mul32 r a) = R * A" using ra(1) M[of "R * A"] RA r(2) by (simp add: A_def)
  obtain e where e: "uint_div (uint_mul32 r a) (uint_of_u64 (ucast b)) = Some e" "wf256 e" "uval e = R * A div B"
    using uint_div_u32[OF ra(2), of b] AB ra' by (auto simp: B_def)
  have sum: "uval t * A div B = Q * A + R * A div B" using floor_scale_split[OF AB(3), of Q R A] split(1) by simp
  have gt: "uint_gt q d \<longleftrightarrow> M < Q * A"
    using max_div_less_iff[OF AB(1), of M Q] q(3) d(3) by (simp add: uint_order(1)[OF q(2) d(2)])
  have eM: "uval e \<le> M" using uval_le_max[OF e(2)] by (simp add: M_def)
  have m: "uval (uint_sub uint_max e) = M - uval e" "wf256 (uint_sub uint_max e)"
    using uint_sub_correct(2,3)[OF uint_max_value(2) e(2)] eM uint_max_value(1) by (simp_all add: M_def)
  note qa = uint_mul32_correct[OF q(2), of a]
  have res: "ScaleTargetByTimespan t actual ts =
      Some (if uint_gt q d then uint_max
            else if uint_gt (uint_mul32 q a) (uint_sub uint_max e) then uint_max
            else uint_add (uint_mul32 q a) e)"
    using q(1) d(1) e(1) by (simp add: ScaleTargetByTimespan_def Let_def a_def[symmetric] b_def[symmetric] r_def[symmetric])
  have mx: "uval uint_max = M" "wf256 uint_max" using uint_max_value by (simp_all add: M_def)
  have "\<exists>r. ScaleTargetByTimespan t actual ts = Some r \<and> wf256 r \<and> uval r = min M (uval t * A div B)"
  proof (cases "M < Q * A")
    case True
    then show ?thesis using res gt mx sum by simp
  next
    case False
    have qa': "uval (uint_mul32 q a) = Q * A" using qa(1) M[of "Q * A"] False q(3) by (simp add: A_def)
    have gt2: "uint_gt (uint_mul32 q a) (uint_sub uint_max e) \<longleftrightarrow> M < Q * A + R * A div B"
      using m qa' e(3) eM by (auto simp: uint_order(1)[OF qa(2) m(2)])
    note ad = uint_add_correct[OF qa(2) e(2)]
    have le: "uval (uint_add (uint_mul32 q a) e) = Q * A + R * A div B" if "\<not> M < Q * A + R * A div B"
      using M[of "Q * A + R * A div B"] that ad(1) qa' e(3) by simp
    show ?thesis using res gt gt2 False le ad(2) mx sum by auto
  qed
  then show ?thesis by (simp only: A_def B_def a_def b_def clamp_timespan_value M_def)
qed

section \<open>Reduced ratios\<close>

lemma gcd_div_pos: "0 < num \<Longrightarrow> 0 < den \<Longrightarrow> 0 < num div gcd num (den :: int)"
  using zdiv_mono1[of "gcd num den" num "gcd num den"] gcd_le1_int[of num den] by (simp add: gcd_eq_0_iff pos_imp_zdiv_pos_iff)

lemma ReduceRescaleRatioToU32_value:
  assumes "ReduceRescaleRatioToU32 num den = Some (rn, rd)"
  shows "0 < num" "0 < den" "0 < unat rn" "0 < unat rd" "int (unat rn) * den = int (unat rd) * num"
proof -
  let ?g = "gcd num den"
  show nd: "0 < num" "0 < den" using assms by (auto simp: ReduceRescaleRatioToU32_def split: if_splits)
  have g: "0 < ?g" using nd by (simp add: gcd_pos_int)
  have p: "0 < num div ?g" "0 < den div ?g" using gcd_div_pos[of num den] gcd_div_pos[of den num] nd by (simp_all add: gcd.commute)
  have r: "num div ?g \<le> uint32_max" "den div ?g \<le> uint32_max" "rn = of_int (num div ?g)" "rd = of_int (den div ?g)"
    using assms nd g by (auto simp: ReduceRescaleRatioToU32_def Let_def split: if_splits)
  have v: "int (unat (of_int x :: u32)) = x" if "0 < x" "x \<le> uint32_max" for x
    using that by (simp add: uint_word_of_int)
  have rr: "int (unat rn) = num div ?g" "int (unat rd) = den div ?g" using v p r by simp_all
  then show "0 < unat rn" "0 < unat rd" using p by linarith+
  have "num div ?g * den = num div ?g * (den div ?g * ?g)" by simp
  also have "\<dots> = den div ?g * (num div ?g * ?g)" by (simp only: ac_simps)
  finally show "int (unat rn) * den = int (unat rd) * num" using rr by simp
qed

lemma ReduceRescaleRatioToU64_value:
  assumes "0 < num" "num \<le> int64_max" "0 < den" "den \<le> int64_max"
  obtains rn rd where "ReduceRescaleRatioToU64 num den = Some (rn, rd)" "rn \<noteq> 0" "rd \<noteq> 0"
    "unat rn * nat den = unat rd * nat num"
proof -
  let ?g = "gcd num den"
  have g: "0 < ?g" using assms by (simp add: gcd_pos_int)
  have p: "0 < num div ?g" "0 < den div ?g"
    using gcd_div_pos[of num den] gcd_div_pos[of den num] assms by (simp_all add: gcd.commute)
  have le: "x div ?g \<le> x" if "0 < x" for x
    using zdiv_mono2[of x 1 ?g] that g by simp
  have b: "num div ?g \<le> int64_max" "den div ?g \<le> int64_max"
    using le[OF assms(1)] le[OF assms(3)] assms(2,4) by linarith+
  have v: "int (unat (of_int x :: u64)) = x" if "0 < x" "x \<le> int64_max" for x
    using that by (simp add: uint_word_of_int)
  note vn = v[OF p(1) b(1)] and vd = v[OF p(2) b(2)]
  have "num div ?g * den = num div ?g * (den div ?g * ?g)" by simp
  also have "\<dots> = den div ?g * (num div ?g * ?g)" by (simp only: ac_simps)
  finally have "int (unat (of_int (num div ?g) :: u64) * nat den) = int (unat (of_int (den div ?g) :: u64) * nat num)"
    using assms by (simp only: of_nat_mult vn vd int_nat_eq) simp
  then have eq: "unat (of_int (num div ?g) :: u64) * nat den = unat (of_int (den div ?g) :: u64) * nat num"
    by (simp only: of_nat_eq_iff)
  show thesis
  proof (rule that[OF _ _ _ eq])
    show "ReduceRescaleRatioToU64 num den = Some (of_int (num div ?g), of_int (den div ?g))"
      using assms g by (simp add: ReduceRescaleRatioToU64_def Let_def)
    show "(of_int (num div ?g) :: u64) \<noteq> 0" "(of_int (den div ?g) :: u64) \<noteq> 0" using vn vd p by auto
  qed
qed

section \<open>Wide integers\<close>

lemma uval_or: "length a = length b \<Longrightarrow> uval (map2 (OR) a b) = uval a OR uval b"
proof (induction a b rule: list_induct2)
  case (Cons x xs y ys)
  have d: "uval (z # zs) = unat z OR push_bit 32 (uval zs)" for z zs
    using or_disjoint[OF unat_u32[of z], of "uval zs"] by (simp only: uval.simps push_bit_eq_mult mult.commute)
  have "map2 (OR) (x # xs) (y # ys) = (x OR y) # map2 (OR) xs ys" by simp
  then show ?case using Cons.IH by (simp only: d unsigned_or_eq push_bit_or ac_simps)
qed simp

lemma uint_or_high:
  assumes a: "wf256 a" and b: "wf256 b" and lo: "uval a < 2 ^ n" and hi: "uval b = 2 ^ n * k"
  shows "uval (uint_or a b) = uval a + uval b" "wf256 (uint_or a b)"
  using uval_or[of a b] a b or_disjoint[OF lo, of k] hi by (simp_all add: uint_or_def wf256_def)

lemma from_wide_fold:
  assumes "k \<le> 8"
  defines "step \<equiv> \<lambda>limb (narrowed, value).
       let word = of_nat (value mod 2 ^ 32) :: u32 in
       (uint_or narrowed (uint_shl (uint_of_u64 (ucast word)) (limb * 32)), value div 2 ^ 32)"
  shows "\<exists>a. fold step [0..<k] (uint_of_u64 0, v) = (a, v div 2 ^ (32 * k)) \<and> wf256 a \<and> uval a = v mod 2 ^ (32 * k)"
  using assms(1)
proof (induction k)
  case (Suc k)
  then obtain a where a: "fold step [0..<k] (uint_of_u64 0, v) = (a, v div 2 ^ (32 * k))" "wf256 a" "uval a = v mod 2 ^ (32 * k)" by auto
  define w where "w = v div 2 ^ (32 * k) mod 2 ^ 32"
  define d where "d = uint_shl (uint_of_u64 (ucast (of_nat w :: u32))) (k * 32)"
  have w: "w < 2 ^ 32" by (simp add: w_def)
  have "32 * k + 32 \<le> 256" using Suc.prems by simp
  then have p: "2 ^ (32 * k) * 2 ^ 32 \<le> (2 :: nat) ^ 256" by (simp only: power_add[symmetric] power_increasing_iff)
  have "2 ^ (32 * k) * w < 2 ^ 256"
    by (rule less_le_trans[OF _ p]) (simp add: w[simplified])
  then have d: "uval d = 2 ^ (32 * k) * w" "wf256 d"
    using uint_shl_correct[OF uval_u32(2), of "of_nat w" "k * 32"] uval_u32(1)[of "of_nat w"] w
    by (simp_all add: d_def mult.commute unat_of_nat)
  note o = uint_or_high[OF a(2) d(2), of "32 * k" w]
  have lo: "uval a < 2 ^ (32 * k)" by (simp add: a(3))
  have e: "v div 2 ^ (32 * k) div 2 ^ 32 = v div 2 ^ (32 * Suc k)"
    by (simp only: div_mult2_eq[symmetric] power_add[symmetric]) (simp add: add.commute)
  have m: "v mod 2 ^ (32 * Suc k) = v mod 2 ^ (32 * k) + 2 ^ (32 * k) * w"
    by (simp only: mult_Suc_right power_add w_def add.commute[of 32]) (simp only: mod_mult2_eq add.commute)
  have "fold step [0..<Suc k] (uint_of_u64 0, v) = (uint_or a d, v div 2 ^ (32 * Suc k))"
    using a(1) e by (simp add: step_def w_def d_def)
  then show ?case using o lo d(1) a(3) m by auto
qed (simp add: uval_u64_0)

lemma from_wide_value: "uval (from_wide v) = v mod 2 ^ 256" "wf256 (from_wide v)"
  using from_wide_fold[of 8 v] by (auto simp: from_wide_def)

lemma to_wide_value:
  assumes "wf256 a" shows "to_wide a = uval a"
proof -
  define e where "e = ArithToUint256 a"
  have "length (concat (map WriteLE32 a)) = 4 * length a" by (induction a) (simp_all add: WriteLE32_def)
  then have len: "length e = 32" using assms by (simp add: e_def ArithToUint256_def wf256_def WIDTH_def)
  have limb: "le_value (drop n e) = le_value (drop (n + 8) e) * 2 ^ 64 + unat (ReadLE64 (drop n e))" if "n \<le> 24" for n
  proof -
    have "drop n e = take 8 (drop n e) @ drop (n + 8) e"
      using append_take_drop_id[of 8 "drop n e"] by (simp add: add.commute)
    then have "le_value (drop n e) = le_value (take 8 (drop n e) @ drop (n + 8) e)" by simp
    also have "\<dots> = le_value (take 8 (drop n e)) + 2 ^ 64 * le_value (drop (n + 8) e)"
      using that len by (simp add: le_value_append)
    finally show ?thesis using le_value_bound[of "take 8 (drop n e)"] that len
      by (simp add: ReadLE64_def unat_of_nat)
  qed
  have "to_wide a = le_value (drop 0 e)"
    using limb[of 24] limb[of 16] limb[of 8] limb[of 0] len by (simp add: to_wide_def Let_def e_def[symmetric])
  then show ?thesis by (simp add: e_def ArithToUint256_value)
qed

lemma DeriveMatMulEpochATransitionTarget_value:
  assumes p: "wf256 p" and l: "wf256 l" and nz: "uval p \<noteq> 0" "n \<noteq> 0" "d \<noteq> 0" "uval l \<noteq> 0"
  shows "\<exists>r. DeriveMatMulEpochATransitionTarget p eps n d l = Some r \<and> wf256 r \<and>
    uval r = max 1 (min (uval l) (uval p * min (2 ^ 256 - 1) (uval p * 2 ^ unat eps) * unat n div (unat d * 2 ^ 256)))"
proof -
  note s = SaturatingLeftShift256_value[OF p, of "unat eps"]
  define t where "t = uval p * uval (SaturatingLeftShift256 p (unat eps)) * unat n div (unat d * 2 ^ 256)"
  define u where "u = max 1 (min (uval l) t)"
  have u: "(if (if uval l < t then uval l else t) = 0 then 1 else if uval l < t then uval l else t) = u"
    by (simp add: u_def min_def max_def)
  have "u \<le> max 1 (uval l)" by (simp add: u_def)
  also have "max 1 (uval l) = uval l" using nz(4) by simp
  finally have "u < 2 ^ 256" using uval_256[OF l] by (rule le_less_trans)
  then have "uval (from_wide u) = u" by (simp only: from_wide_value mod_less)
  moreover have "DeriveMatMulEpochATransitionTarget p eps n d l = Some (from_wide u)"
    using nz by (simp only: DeriveMatMulEpochATransitionTarget_def Let_def uint_EqualTo_0[OF p] uint_EqualTo_0[OF l]
        to_wide_value[OF p] to_wide_value[OF l] to_wide_value[OF s(2)] t_def[symmetric] u simp_thms if_False)
  ultimately show ?thesis using from_wide_value(2)[of u] by (simp only: u_def t_def s(1)) blast
qed

section \<open>The exponent and the polynomial\<close>

definition asert_poly :: "nat \<Rightarrow> nat" where
  "asert_poly f = 195766423245049 * f + 971821376 * f * f + 5127 * f * f * f + 2 ^ 47"

definition asert_fac :: "nat \<Rightarrow> nat" where
  "asert_fac f = 2 ^ 16 + asert_poly f div 2 ^ 48"

lemma asert_fac_mono: "f \<le> g \<Longrightarrow> asert_fac f \<le> asert_fac g"
  by (auto simp only: asert_fac_def asert_poly_def intro!: add_mono mult_mono div_le_mono)

lemma asert_fac_bounds: "2 ^ 16 \<le> asert_fac f" "f < 2 ^ 16 \<Longrightarrow> asert_fac f \<le> 2 ^ 17"
proof -
  show "2 ^ 16 \<le> asert_fac f" by (simp add: asert_fac_def)
  assume "f < 2 ^ 16"
  then have "asert_fac f \<le> asert_fac 65535" by (intro asert_fac_mono) simp
  also have "\<dots> \<le> 2 ^ 17" by (simp add: asert_fac_def asert_poly_def)
  finally show "asert_fac f \<le> 2 ^ 17" .
qed

lemma asert_fac_0: "asert_fac 0 = 2 ^ 16"
  by (simp add: asert_fac_def asert_poly_def)

lemma asert_factor_value:
  assumes "f < 2 ^ 16" shows "unat (asert_factor (int f)) = asert_fac f"
proof -
  define p where "p = asert_poly f div 2 ^ 48"
  have le: "2 ^ 16 + p \<le> 2 ^ 17" using asert_fac_bounds(2)[OF assms] by (simp add: asert_fac_def p_def)
  have "(ASERT_POLY_COEFF_1 * int f + ASERT_POLY_COEFF_2 * int f * int f + ASERT_POLY_COEFF_3 * int f * int f * int f + 2 ^ 47) div 2 ^ 48
      = int p"
    by (simp add: p_def asert_poly_def ASERT_POLY_COEFF_1_def ASERT_POLY_COEFF_2_def ASERT_POLY_COEFF_3_def zdiv_int)
  then have "asert_factor (int f) = of_nat (2 ^ 16 + p)" by (simp add: asert_factor_def ASERT_RADIX_BITS_def)
  then have "unat (asert_factor (int f)) = 2 ^ 16 + p" using le by (simp only: unat_of_nat) simp
  then show ?thesis by (simp add: asert_fac_def p_def)
qed

lemma sdiv_mono:
  assumes "(a :: int) \<le> b" "0 < c" shows "a sdiv c \<le> b sdiv c"
proof -
  have neg: "x sdiv c = - (- x div c)" if "x < 0" for x using that assms(2) by (simp add: signed_divide_int_def)
  consider "0 \<le> a" | "a < 0" "0 \<le> b" | "b < 0" using assms(1) by linarith
  then show ?thesis
  proof cases
    case 2
    have "0 \<le> - a div c" "0 \<le> b div c" using 2 assms(2) by (simp_all add: pos_imp_zdiv_nonneg_iff)
    then show ?thesis using neg[of a] 2 assms(2) by simp
  qed (use assms neg[of a] neg[of b] zdiv_mono1[of a b c] zdiv_mono1[of "- b" "- a" c] in \<open>auto simp: less_imp_le\<close>)
qed

lemma i128_id: "- (2 ^ 127) \<le> x \<Longrightarrow> x < 2 ^ 127 \<Longrightarrow> i128 x = x"
  by (simp add: i128_def sint_sbintrunc' signed_take_bit_int_eq_self)

text \<open>How far the chain is behind its schedule, and the exponent that lag gives.\<close>

definition asert_lag :: "int \<Rightarrow> int \<Rightarrow> int \<Rightarrow> int" where
  "asert_lag time_diff height_diff target_spacing = time_diff - target_spacing * (height_diff + 1)"

definition lag_exponent :: "int \<Rightarrow> int \<Rightarrow> int" where
  "lag_exponent lag half_life = max int64_min (min int64_max (lag * 2 ^ 16 sdiv half_life))"

lemma lag_exponent_mono: "lag \<le> lag' \<Longrightarrow> 0 < half_life \<Longrightarrow> lag_exponent lag half_life \<le> lag_exponent lag' half_life"
  using sdiv_mono[of "lag * 2 ^ 16" "lag' * 2 ^ 16" half_life] by (auto simp: lag_exponent_def)

lemma lag_exponent_multiple: "0 < half_life \<Longrightarrow> \<bar>k\<bar> \<le> 2 ^ 40 \<Longrightarrow> lag_exponent (k * half_life) half_life = k * 2 ^ 16"
proof -
  assume h: "0 < half_life" and k: "\<bar>k\<bar> \<le> 2 ^ 40"
  have "k * half_life * 2 ^ 16 sdiv half_life = k * 2 ^ 16"
    using h by (simp add: signed_divide_int_def sgn_mult abs_mult mult.assoc mult.left_commute[of _ half_life] sgn_mult_abs)
  then show ?thesis using k by (simp add: lag_exponent_def)
qed

lemma asert_exponent_value:
  assumes "in_i64 time_diff" "0 \<le> height_diff" "height_diff < 2 ^ 32" "0 < target_spacing" "in_i64 target_spacing"
  shows "asert_exponent time_diff height_diff half_life target_spacing =
    Some (lag_exponent (asert_lag time_diff height_diff target_spacing) half_life)"
proof -
  define d where "d = target_spacing * (height_diff + 1)"
  have "d \<le> 2 ^ 63 * 2 ^ 33" unfolding d_def using assms by (intro mult_mono) (auto simp: fold_defs)
  moreover have "0 \<le> d" using assms by (simp add: d_def)
  ultimately have "- (2 ^ 127) \<le> (time_diff - d) * 2 ^ 16" "(time_diff - d) * 2 ^ 16 < 2 ^ 127"
    using assms(1) by (simp_all add: fold_defs)
  then have "i128 ((time_diff - d) * 2 ^ 16) = (time_diff - d) * 2 ^ 16" by (rule i128_id)
  moreover have "i64_chk (height_diff + 1) = Some (height_diff + 1)" using assms by (simp add: fold_defs)
  ultimately show ?thesis
    by (auto simp: asert_exponent_def asert_lag_def lag_exponent_def ASERT_RADIX_BITS_def d_def[symmetric] Let_def)
qed

section \<open>Applying the factor\<close>

definition asert_ideal :: "nat \<Rightarrow> nat \<Rightarrow> int \<Rightarrow> nat" where
  "asert_ideal A F s = min (2 ^ 256 - 1) (if s < 0 then A * F div 2 ^ nat (- s) else A * F * 2 ^ nat s)"

lemma asert_ideal_mono:
  assumes "F \<le> F' * 2 ^ k" shows "asert_ideal A F s \<le> asert_ideal A F' (s + int k)"
proof -
  have N: "A * F \<le> A * F' * 2 ^ k" using assms by (simp add: mult.assoc)
  have "(if s < 0 then A * F div 2 ^ nat (- s) else A * F * 2 ^ nat s) \<le>
      (if s + int k < 0 then A * F' div 2 ^ nat (- (s + int k)) else A * F' * 2 ^ nat (s + int k))"
  proof (cases "s < 0")
    case True
    have le: "A * F div 2 ^ nat (- s) \<le> A * F' * 2 ^ k div 2 ^ nat (- s)" by (rule div_le_mono[OF N])
    show ?thesis
    proof (cases "s + int k < 0")
      case neg: True
      have "nat (- s) = nat (- (s + int k)) + k" using neg by linarith
      then have "A * F' * 2 ^ k div 2 ^ nat (- s) = A * F' div 2 ^ nat (- (s + int k))" by (simp add: power_add)
      then show ?thesis using True neg le by simp
    next
      case False
      have "k = nat (s + int k) + nat (- s)" using True False by linarith
      then have "(2 :: nat) ^ k = 2 ^ nat (s + int k) * 2 ^ nat (- s)" by (metis power_add)
      then have "A * F' * 2 ^ k div 2 ^ nat (- s) = A * F' * 2 ^ nat (s + int k)"
        by (simp only: mult.assoc[symmetric] nonzero_mult_div_cancel_right) simp
      then show ?thesis using True False le by simp
    qed
  next
    case False
    have "nat (s + int k) = k + nat s" using False by linarith
    then have "A * F' * 2 ^ nat (s + int k) = A * F' * 2 ^ k * 2 ^ nat s" by (simp add: power_add)
    moreover have "A * F * 2 ^ nat s \<le> A * F' * 2 ^ k * 2 ^ nat s" by (rule mult_right_mono[OF N]) simp
    ultimately show ?thesis using False by (simp only:) simp
  qed
  then show ?thesis unfolding asert_ideal_def by (rule min.mono[OF order_refl])
qed

text \<open>The exponential of the lag, as the code approximates it.\<close>

definition asert_target :: "nat \<Rightarrow> int \<Rightarrow> nat" where
  "asert_target A e = asert_ideal A (asert_fac (nat (e mod 2 ^ 16))) (e div 2 ^ 16 - 16)"

lemma asert_target_mono:
  assumes "e \<le> e'" shows "asert_target A e \<le> asert_target A e'"
proof -
  define f f' where "f = nat (e mod 2 ^ 16)" and "f' = nat (e' mod 2 ^ 16)"
  have f: "f < 2 ^ 16" "f' < 2 ^ 16" by (simp_all add: f_def f'_def nat_less_iff)
  have "e div 2 ^ 16 \<le> e' div 2 ^ 16" using assms by (rule zdiv_mono1) simp
  then obtain k where k: "e' div 2 ^ 16 - 16 = e div 2 ^ 16 - 16 + int k" using zle_iff_zadd by fastforce
  have "asert_fac f \<le> asert_fac f' * 2 ^ k"
  proof (cases k)
    case 0
    have eq: "e' div 2 ^ 16 = e div 2 ^ 16" using k 0 by simp
    have "e mod 2 ^ 16 \<le> e' mod 2 ^ 16"
      using assms by (simp only: minus_mult_div_eq_mod[symmetric] eq diff_right_mono)
    then have "f \<le> f'" by (simp add: f_def f'_def nat_mono)
    then show ?thesis using asert_fac_mono 0 by simp
  next
    case (Suc j)
    have "asert_fac f \<le> 2 ^ 16 * 2" using asert_fac_bounds(2)[OF f(1)] by simp
    also have "\<dots> \<le> asert_fac f' * 2 ^ k" using asert_fac_bounds(1)[of f'] Suc by (intro mult_mono) auto
    finally show ?thesis .
  qed
  then show ?thesis unfolding asert_target_def k f_def[symmetric] f'_def[symmetric] by (rule asert_ideal_mono)
qed

lemma asert_target_multiple:
  assumes "A \<le> 2 ^ 256 - 1"
  shows "asert_target A (k * 2 ^ 16) = min (2 ^ 256 - 1) (if k < 0 then A div 2 ^ nat (- k) else A * 2 ^ nat k)"
proof -
  have m: "k * 2 ^ 16 mod 2 ^ 16 = 0" "k * 2 ^ 16 div 2 ^ 16 = k" by simp_all
  have e: "(2 :: nat) ^ nat (k - 16) * 2 ^ 16 = 2 ^ nat k" if "16 \<le> k"
    using that by (simp only: power_add[symmetric]) (simp add: nat_diff_distrib')
  have n: "(2 :: nat) ^ nat (16 - k) = 2 ^ nat (- k) * 2 ^ 16" if "k < 0"
    using that by (simp only: power_add[symmetric]) (simp add: nat_add_distrib[symmetric] del: nat_add_distrib)
  have h: "(2 :: nat) ^ 16 = 2 ^ nat k * 2 ^ nat (16 - k)" if "0 \<le> k" "k < 16"
    using that by (simp only: power_add[symmetric]) (simp add: nat_diff_distrib')
  consider "k < 0" | "0 \<le> k" "k < 16" | "16 \<le> k" by linarith
  then show ?thesis
  proof cases
    case 1
    then show ?thesis using n by (simp only: asert_target_def m asert_ideal_def nat_0 asert_fac_0) simp
  next
    case 2
    have "A * 2 ^ 16 div 2 ^ nat (16 - k) = A * 2 ^ nat k" using 2
      by (simp only: h mult.assoc[symmetric] nonzero_mult_div_cancel_right) simp
    then show ?thesis using 2 by (simp only: asert_target_def m asert_ideal_def nat_0 asert_fac_0) simp
  next
    case 3
    have "A * 2 ^ 16 * 2 ^ nat (k - 16) = A * 2 ^ nat k" using e[OF 3] by (simp only: mult.assoc mult.commute[of "2 ^ 16"])
    then show ?thesis using 3 by (simp only: asert_target_def m asert_ideal_def nat_0 asert_fac_0) simp
  qed
qed

lemma shift_first_bounds:
  assumes "0 < F" shows "A div 2 ^ n * F \<le> A * F div 2 ^ n" "A * F div 2 ^ n < A div 2 ^ n * F + (F :: nat)"
proof -
  have "A div 2 ^ n * F * 2 ^ n \<le> A * F" using div_times_less_eq_dividend[of A "2 ^ n"] by (simp add: mult.commute mult.left_commute)
  then show "A div 2 ^ n * F \<le> A * F div 2 ^ n" by (simp add: less_eq_div_iff_mult_less_eq)
  have "A < (A div 2 ^ n + 1) * 2 ^ n" using dividend_less_div_times[of "2 ^ n" A] by simp
  from mult_strict_right_mono[OF this assms] have "A * F < (A div 2 ^ n + 1) * F * 2 ^ n"
    by (simp only: mult.assoc mult.commute[of F])
  then have "A * F div 2 ^ n < (A div 2 ^ n + 1) * F" by (simp only: div_less_iff_less_mult zero_less_power zero_less_numeral)
  then show "A * F div 2 ^ n < A div 2 ^ n * F + F" by simp
qed

lemma sat_shift: "min M (min M x * 2 ^ n) = min M (x * 2 ^ n :: nat)"
proof (cases "x \<le> M")
  case False
  have "M \<le> x * 2 ^ n" "M \<le> M * 2 ^ n" using False by (auto simp: le_trans[of M x])
  then show ?thesis using False by simp
qed simp

lemma asert_apply_value:
  assumes a: "wf256 a" and pos: "0 < uval a" "0 < unat F"
  shows "\<exists>r. asert_apply a F s = Some r \<and> wf256 r \<and> uval r \<le> asert_ideal (uval a) (unat F) s \<and>
    asert_ideal (uval a) (unat F) s < uval r + unat F \<and>
    (uval a * unat F < 2 ^ 256 \<longrightarrow> uval r = asert_ideal (uval a) (unat F) s)"
proof -
  define M :: nat where "M = 2 ^ 256 - 1"
  define A f where "A = uval a" and "f = unat F"
  define n where "n = nat (- s)"
  have A: "A < 2 ^ 256" "0 < A" "0 < f" using uval_256[OF a] pos by (simp_all add: A_def f_def)
  have M1: "M < 2 ^ 256" "2 ^ 256 \<le> Suc M" by (simp_all add: M_def)
  have ideal: "asert_ideal A f s = min M (if s < 0 then A * f div 2 ^ n else A * f * 2 ^ nat s)"
    by (simp only: asert_ideal_def M_def n_def)
  obtain q where q: "uint_div uint_max (uint_of_u64 (ucast F)) = Some q" "wf256 q" "uval q = M div f"
    using uint_div_u32[OF uint_max_value(2) pos(2)] uint_max_value(1) by (auto simp: M_def f_def)
  have gt: "uint_gt a q \<longleftrightarrow> M < A * f"
    using max_div_less_iff[OF A(3), of M A] q(3) by (simp add: uint_order(1)[OF a q(2)] A_def)
  obtain p where p: "SaturatingMultiplyByUint32 a F = Some p" "wf256 p" "uval p = min M (A * f)"
    using SaturatingMultiplyByUint32_value[OF a, of F] by (auto simp: M_def A_def f_def)
  have "\<exists>r. asert_apply a F s = Some r \<and> wf256 r \<and> uval r \<le> asert_ideal A f s \<and> asert_ideal A f s < uval r + f \<and>
      (A * f \<le> M \<longrightarrow> uval r = asert_ideal A f s)"
  proof -
    consider "s \<le> - 256" | "- 256 < s" "s < 0" "M < A * f" | "- 256 < s" "s < 0" "A * f \<le> M" | "256 \<le> s" | "0 \<le> s" "s < 256"
      by linarith
    then show ?thesis
    proof cases
      case 1
      have p2: "(2 :: nat) ^ 256 \<le> 2 ^ n" using 1 by (intro power_increasing) (auto simp: n_def)
      have "A * f < 2 ^ 256 * f" using A by simp
      also have "\<dots> \<le> 2 ^ n * f" using p2 by simp
      finally have "A * f div 2 ^ n < f" by (simp add: div_less_iff_less_mult mult.commute)
      moreover have "A * f div 2 ^ n = 0" if "A * f \<le> M" using that p2 M1 by (intro div_less) linarith
      ultimately show ?thesis using 1 uval_u64_0 by (auto simp: asert_apply_def ideal)
    next
      case 2
      note sh = uint_shr_correct[OF a, of n]
      obtain r where "SaturatingMultiplyByUint32 (uint_shr a n) F = Some r" "wf256 r" "uval r = min M (A div 2 ^ n * f)"
        using SaturatingMultiplyByUint32_value[OF sh(2), of F] sh(1) by (auto simp: M_def A_def f_def)
      moreover have "asert_apply a F s = SaturatingMultiplyByUint32 (uint_shr a n) F"
        using 2 q gt by (simp add: asert_apply_def n_def)
      ultimately show ?thesis using 2 shift_first_bounds[OF A(3), of A n] A by (auto simp: ideal)
    next
      case 3
      have "asert_apply a F s = Some (uint_shr p n)" using 3 q gt p by (simp add: asert_apply_def n_def)
      moreover have "A * f div 2 ^ n \<le> M" using 3(3) div_le_dividend le_trans by blast
      ultimately show ?thesis using 3 uint_shr_correct[OF p(2), of n] p(3) A by (simp add: ideal)
    next
      case 4
      have "(2 :: nat) ^ 256 \<le> 2 ^ nat s" using 4 by (intro power_increasing) auto
      then have "M \<le> 2 ^ nat s" using M1 by linarith
      also have "\<dots> \<le> A * f * 2 ^ nat s" using A by simp
      finally show ?thesis using 4 uint_max_value A by (simp add: asert_apply_def ideal M_def)
    next
      case 5
      have "asert_apply a F s = Some (SaturatingLeftShift256 p (nat s))"
        using 5 p by (auto simp: asert_apply_def SaturatingLeftShift256_def)
      moreover have "uval (SaturatingLeftShift256 p (nat s)) = min M (A * f * 2 ^ nat s)"
        using SaturatingLeftShift256_value(1)[OF p(2), of "nat s"] p(3) sat_shift[of M "A * f" "nat s"] by (simp only: M_def)
      ultimately show ?thesis using 5 SaturatingLeftShift256_value(2)[OF p(2), of "nat s"] A by (simp add: ideal)
    qed
  qed
  moreover have "A * f \<le> M \<longleftrightarrow> A * f < 2 ^ 256" using M1 by linarith
  ultimately show ?thesis by (simp only: A_def f_def)
qed

lemma clamp_min: "L \<le> M \<Longrightarrow> min L (max 1 (min M x)) = min L (max 1 (x :: nat))"
  by (auto simp: min_def max_def)

lemma clamp_close:
  assumes "x \<le> y" "y < x + D"
  shows "min L (max 1 x) \<le> min L (max 1 y) \<and> min L (max 1 y) < min L (max 1 x) + (D :: nat)"
  using assms by (auto simp: min_def max_def)

lemma CalculateMatMulAsertTarget_value:
  assumes a: "wf256 a" "0 < uval a" "uval a \<le> uval l" and l: "wf256 l"
    and t: "in_i64 time_diff" "0 \<le> height_diff" "height_diff < 2 ^ 32" "0 < half_life"
    and p: "0 < nPowTargetSpacing p" "in_i64 (nPowTargetSpacing p)"
  defines "e \<equiv> lag_exponent (asert_lag time_diff height_diff (nPowTargetSpacing p)) half_life"
  shows "\<exists>r. CalculateMatMulAsertTarget a time_diff height_diff half_life p l = Some r \<and> wf256 r \<and>
    1 \<le> uval r \<and> uval r \<le> uval l \<and>
    uval r \<le> min (uval l) (max 1 (asert_target (uval a) e)) \<and>
    min (uval l) (max 1 (asert_target (uval a) e)) < uval r + 2 ^ 17 \<and>
    (uval a * 2 ^ 17 < 2 ^ 256 \<longrightarrow> uval r = min (uval l) (max 1 (asert_target (uval a) e)))"
proof -
  define f where "f = nat (e mod 2 ^ 16)"
  have f: "f < 2 ^ 16" "int f = e mod 2 ^ 16" by (simp_all add: f_def nat_less_iff)
  note F = asert_factor_value[OF f(1)] asert_fac_bounds(1)[of f] asert_fac_bounds(2)[OF f(1)]
  have "(0 :: nat) < 2 ^ 16" by simp
  then have "0 < asert_fac f" using F(2) by (rule less_le_trans)
  then have "0 < unat (asert_factor (int f))" by (simp only: F(1))
  note ap = asert_apply_value[OF a(1,2) this, of "e div 2 ^ 16 - 16"]
  have "asert_target (uval a) e = asert_ideal (uval a) (asert_fac f) (e div 2 ^ 16 - 16)" by (simp only: asert_target_def f_def)
  with ap obtain n where
    n: "asert_apply a (asert_factor (e mod 2 ^ 16)) (e div 2 ^ 16 - 16) = Some n" "wf256 n"
      "uval a * asert_fac f < 2 ^ 256 \<longrightarrow> uval n = asert_target (uval a) e"
      "uval n \<le> asert_target (uval a) e" "asert_target (uval a) e < uval n + asert_fac f"
    unfolding f(2) F(1)[unfolded f(2)] by auto
  note close = clamp_close[OF n(4) less_le_trans[OF n(5) add_left_mono[OF F(3)]], of "uval l"]
  define m where "m = (if uint_EqualTo n 0 then uint_of_u64 1 else n)"
  have m: "wf256 m" "uval m = max 1 (uval n)" using n(2) by (auto simp: m_def uint_EqualTo_0 uval_u64_1)
  have "\<not> uint_EqualTo a 0" "\<not> uint_gt a l" using a l by (simp_all add: uint_EqualTo_0 uint_order)
  then have "CalculateMatMulAsertTarget a time_diff height_diff half_life p l = Some (ClampRetargetResult m l)"
    using asert_exponent_value[OF t(1-3) p, of half_life] n(1) t p
    by (simp add: CalculateMatMulAsertTarget_def ASERT_RADIX_BITS_def e_def m_def Let_def)
  moreover have "uval a * 2 ^ 17 < 2 ^ 256 \<longrightarrow>
      min (uval l) (max 1 (uval n)) = min (uval l) (max 1 (asert_target (uval a) e))"
  proof
    assume "uval a * 2 ^ 17 < 2 ^ 256"
    with mult_le_mono2[OF F(3)] have "uval a * asert_fac f < 2 ^ 256" by (rule le_less_trans)
    with n(3) have "uval n = asert_target (uval a) e" by (rule mp)
    then show "min (uval l) (max 1 (uval n)) = min (uval l) (max 1 (asert_target (uval a) e))" by (simp only:)
  qed
  moreover have "uval (ClampRetargetResult m l) = min (uval l) (max 1 (uval n))" "wf256 (ClampRetargetResult m l)"
    using ClampRetargetResult_value[OF m(1) l] m(2) by simp_all
  moreover have "1 \<le> min (uval l) (max 1 (uval n))" "min (uval l) (max 1 (uval n)) \<le> uval l" using a(2,3) by simp_all
  ultimately show ?thesis using close
    by (intro exI[of _ "ClampRetargetResult m l"]) (simp only: simp_thms)
qed

definition within :: "nat \<Rightarrow> nat \<Rightarrow> nat \<Rightarrow> bool" where
  "within err x y \<longleftrightarrow> x \<le> y \<and> y \<le> x + err"

lemma asert_within:
  assumes a: "wf256 a" "0 < uval a" "uval a \<le> uval l" and l: "wf256 l"
    and t: "in_i64 time_diff" "0 \<le> height_diff" "height_diff < 2 ^ 32" "0 < half_life"
    and p: "0 < nPowTargetSpacing p" "in_i64 (nPowTargetSpacing p)"
  shows "\<exists>r. CalculateMatMulAsertTarget a time_diff height_diff half_life p l = Some r \<and>
    1 \<le> uval r \<and> uval r \<le> uval l \<and>
    within (if uval a * 2 ^ 17 < 2 ^ 256 then 0 else 2 ^ 17 - 1) (uval r) (min (uval l)
      (max 1 (asert_target (uval a) (lag_exponent (asert_lag time_diff height_diff (nPowTargetSpacing p)) half_life))))"
proof -
  define I where "I = min (uval l)
    (max 1 (asert_target (uval a) (lag_exponent (asert_lag time_diff height_diff (nPowTargetSpacing p)) half_life)))"
  obtain r where r: "CalculateMatMulAsertTarget a time_diff height_diff half_life p l = Some r"
    "1 \<le> uval r" "uval r \<le> uval l" "uval r \<le> I" "I < uval r + 2 ^ 17"
    "uval a * 2 ^ 17 < 2 ^ 256 \<longrightarrow> uval r = I"
    using CalculateMatMulAsertTarget_value[OF a l t p] unfolding I_def by blast
  have "within (if uval a * 2 ^ 17 < 2 ^ 256 then 0 else 2 ^ 17 - 1) (uval r) I"
    using r(4-6) by (cases "uval a * 2 ^ 17 < 2 ^ 256") (simp_all only: within_def if_True if_False, simp_all)
  with r(1-3) show ?thesis unfolding I_def by blast
qed

lemma span_nat_u32:
  assumes "0 < unat (w :: u32)" shows "span_nat (uint w) = unat w"
proof -
  have "unat w \<le> 4294967295" using unat_u32[of w] by simp
  then have "int (unat w) \<le> uint32_max" by linarith
  then have "min uint32_max (max 1 (int (unat w))) = int (unat w)" using assms by linarith
  then have "span_nat (int (unat w)) = unat w" by (simp only: span_nat_def nat_int)
  then show ?thesis by simp
qed

lemma reduced_scale:
  assumes "wf256 t" and red: "ReduceRescaleRatioToU32 num den = Some (rn, rd)"
  shows "\<exists>r. ScaleTargetByTimespan t (uint rn) (uint rd) = Some r \<and> wf256 r \<and>
    uval r = min (2 ^ 256 - 1) (uval t * nat num div nat den)"
proof -
  note r = ReduceRescaleRatioToU32_value[OF red]
  have "int (unat rn * nat den) = int (unat rd * nat num)" using r by simp
  then have eq: "unat rn * nat den = unat rd * nat num" by (simp only: of_nat_eq_iff)
  have "uval t * nat num div nat den = (uval t * nat num * unat rd) div (nat den * unat rd)" using r by simp
  also have "\<dots> = (uval t * unat rn * nat den) div (unat rd * nat den)" using eq by (simp add: ac_simps)
  also have "\<dots> = uval t * unat rn div unat rd" using r by simp
  finally show ?thesis
    using ScaleTargetByTimespan_value[OF assms(1), of "uint rn" "uint rd"] by (simp only: span_nat_u32[OF r(3)] span_nat_u32[OF r(4)])
qed

section \<open>Properties\<close>

text \<open>C36: A one-time rescale is exact. Scaling a target by two time spans gives the floor of target times the
  first over the second, each cut to \<open>[1, 2^32)\<close>, saturated at \<open>2^256 - 1\<close>; and when the ratio \<open>num / den\<close>
  reduces to 32 bits, scaling by the reduced terms gives the floor of target times \<open>num\<close> over \<open>den\<close>, so no
  calibration is distorted by the cut.\<close>

theorem rescale_exact:
  assumes "wf256 t"
  shows "(\<exists>r. ScaleTargetByTimespan t actual ts = Some r \<and> wf256 r \<and>
      uval r = min (2 ^ 256 - 1) (uval t * span_nat actual div span_nat ts)) \<and>
    (\<forall>rn rd. ReduceRescaleRatioToU32 num den = Some (rn, rd) \<longrightarrow>
      (\<exists>r. ScaleTargetByTimespan t (uint rn) (uint rd) = Some r \<and> wf256 r \<and>
        uval r = min (2 ^ 256 - 1) (uval t * nat num div nat den)))"
  using ScaleTargetByTimespan_value[OF assms] reduced_scale[OF assms] by blast

theorem rescale_exact_witness:
  "\<exists>r. ScaleTargetByTimespan (uint_of_u64 1000) (uint (2 :: u32)) (uint (3 :: u32)) = Some r \<and> uval r = 666"
proof -
  have "gcd 2199023255552 3298534883328 = (1099511627776 :: int)" by code_simp
  then have "ReduceRescaleRatioToU32 2199023255552 3298534883328 = Some (2, 3)" by (simp add: ReduceRescaleRatioToU32_def)
  with rescale_exact[OF uval_of_u64(2), of 1000 1 1 2199023255552 3298534883328]
  obtain r where "ScaleTargetByTimespan (uint_of_u64 1000) (uint (2 :: u32)) (uint (3 :: u32)) = Some r"
    "uval r = min (2 ^ 256 - 1) (uval (uint_of_u64 1000) * nat 2199023255552 div nat 3298534883328)" by blast
  then show ?thesis by (simp add: uval_of_u64)
qed

text \<open>C37: The ASERT rule. On every valid anchor the next target is between 1 and the limit and less than \<open>2^17\<close>
  below the fixed-point exponential of how far the chain is behind its schedule (cut to the same range), never
  above it; so a chain \<open>k\<close> half-lives behind (ahead) has its target multiplied (divided) by \<open>2^k\<close> up to that
  error, and being later, or fewer blocks ahead, makes the target harder by less than \<open>2^17\<close> at most. For an
  anchor below \<open>2^239\<close> the factor is applied before the shift and there is no error: the three statements hold
  exactly.\<close>

theorem asert_follows_schedule:
  assumes a: "wf256 a" "0 < uval a" "uval a \<le> uval l" and l: "wf256 l"
    and t: "in_i64 time_diff" "0 \<le> height_diff" "height_diff < 2 ^ 32" "0 < half_life"
    and t': "in_i64 time_diff'" "0 \<le> height_diff'" "height_diff' < 2 ^ 32"
    and p: "0 < nPowTargetSpacing p" "in_i64 (nPowTargetSpacing p)"
  defines "lag \<equiv> asert_lag time_diff height_diff (nPowTargetSpacing p)"
    and "lag' \<equiv> asert_lag time_diff' height_diff' (nPowTargetSpacing p)"
    and "err \<equiv> if uval a * 2 ^ 17 < 2 ^ 256 then 0 else 2 ^ 17 - 1"
  shows "\<exists>r r'. CalculateMatMulAsertTarget a time_diff height_diff half_life p l = Some r \<and>
    CalculateMatMulAsertTarget a time_diff' height_diff' half_life p l = Some r' \<and>
    1 \<le> uval r \<and> uval r \<le> uval l \<and>
    within err (uval r) (min (uval l) (max 1 (asert_target (uval a) (lag_exponent lag half_life)))) \<and>
    (lag \<le> lag' \<longrightarrow> uval r \<le> uval r' + err) \<and>
    (\<forall>k. \<bar>k\<bar> \<le> 2 ^ 40 \<and> lag = k * half_life \<longrightarrow>
      within err (uval r) (min (uval l) (max 1 (if k < 0 then uval a div 2 ^ nat (- k) else uval a * 2 ^ nat k))))"
proof -
  let ?I = "\<lambda>lag. min (uval l) (max 1 (asert_target (uval a) (lag_exponent lag half_life)))"
  obtain r r' where r: "CalculateMatMulAsertTarget a time_diff height_diff half_life p l = Some r" "1 \<le> uval r" "uval r \<le> uval l"
      "within err (uval r) (?I lag)"
    and r': "CalculateMatMulAsertTarget a time_diff' height_diff' half_life p l = Some r'" "within err (uval r') (?I lag')"
    using asert_within[OF a l t p] asert_within[OF a l t' t(4) p] unfolding lag_def lag'_def err_def by blast
  have mono: "uval r \<le> uval r' + err" if "lag \<le> lag'"
  proof -
    have "?I lag \<le> ?I lag'"
      using asert_target_mono[OF lag_exponent_mono[OF that t(4)], of "uval a"] by (intro min.mono max.mono) simp_all
    then show ?thesis using r(4) r'(2) unfolding within_def by linarith
  qed
  have exact: "within err (uval r) (min (uval l) (max 1 (if k < 0 then uval a div 2 ^ nat (- k) else uval a * 2 ^ nat k)))"
    if "\<bar>k\<bar> \<le> 2 ^ 40" "lag = k * half_life" for k
  proof -
    have e: "lag_exponent lag half_life = k * 2 ^ 16" using lag_exponent_multiple[OF t(4) that(1)] that(2) by (simp only:)
    show ?thesis using r(4)
      by (simp only: e asert_target_multiple[OF uval_le_max[OF a(1)]] clamp_min[OF uval_le_max[OF l]])
  qed
  show ?thesis using r r'(1) mono exact by blast
qed

theorem asert_follows_schedule_witness:
  "\<exists>r. CalculateMatMulAsertTarget (uint_of_u64 1000) 7290 0 3600 (Params_init 1 [] False False False 90 1) (uint_of_u64 1000000) = Some r \<and>
    uval r = 4000"
proof -
  let ?p = "Params_init 1 [] False False False 90 1"
  have p: "nPowTargetSpacing ?p = 90" by (simp add: Params_init_def)
  have l: "asert_lag 7290 0 90 = 2 * 3600" by (simp add: asert_lag_def)
  from asert_follows_schedule[of "uint_of_u64 1000" "uint_of_u64 1000000" 7290 0 3600 7290 0 ?p] show ?thesis
    by (auto simp: uval_of_u64 fold_defs p l within_def)
qed

end
