(* ===== verification/Asert.thy ===== *)
theory Asert
  imports Retarget Chain_Walks
begin

text \<open>
  The difficulty rule of MatMul networks in \<open>pow.cpp\<close>: the validation of its parameters, the choice of the
  anchor, the time credit of clamped blocks with its cache on the index entries, and \<open>MatMulAsert\<close>. A function
  that writes the cache returns the new heap; a failing assertion or division by zero is \<open>None\<close>.
\<close>

unbundle bit_operations_syntax

section \<open>Heights and the anchor\<close>

definition IsDisabledHeight :: "int \<Rightarrow> bool" where
  "IsDisabledHeight h \<longleftrightarrow> h = int32_max"

definition IsMatMulAsertHalfLifeUpgradeConfigured :: "Params \<Rightarrow> bool" where
  "IsMatMulAsertHalfLifeUpgradeConfigured params \<longleftrightarrow> \<not> IsDisabledHeight (nMatMulAsertHalfLifeUpgradeHeight params)"

definition IsMatMulPowLimitUpgradeConfigured :: "Params \<Rightarrow> bool" where
  "IsMatMulPowLimitUpgradeConfigured params \<longleftrightarrow> \<not> IsDisabledHeight (nMatMulPowLimitUpgradeHeight params)"

definition IsMatMulPreHashEpsilonBitsUpgradeConfigured :: "Params \<Rightarrow> bool" where
  "IsMatMulPreHashEpsilonBitsUpgradeConfigured params \<longleftrightarrow> \<not> IsDisabledHeight (nMatMulPreHashEpsilonBitsUpgradeHeight params)"

text \<open>One step of the anchor choice: a live height the tip has passed and that lies above the anchor so far.\<close>

definition later_anchor :: "int \<Rightarrow> int \<Rightarrow> int \<Rightarrow> int" where
  "later_anchor tip h anchor_height =
     (if \<not> IsDisabledHeight h \<and> tip \<ge> h \<and> h > anchor_height then h else anchor_height)"

definition LatestMatMulAsertPreUpgradeAnchorHeight :: "CBlockIndex option \<Rightarrow> Params \<Rightarrow> int" where
  "LatestMatMulAsertPreUpgradeAnchorHeight pindexLast params =
     (let anchor_height = nMatMulAsertHeight params in
      case pindexLast of
        None \<Rightarrow> anchor_height
      | Some b \<Rightarrow>
          let tip = bi_nHeight b;
              anchor_height =
                (if nMatMulAsertRetune2Height params \<ge> nMatMulAsertHeight params \<and> tip \<ge> nMatMulAsertRetune2Height params
                 then nMatMulAsertRetune2Height params
                 else if nMatMulAsertRetuneHeight params \<ge> nMatMulAsertHeight params \<and> tip \<ge> nMatMulAsertRetuneHeight params
                 then nMatMulAsertRetuneHeight params
                 else anchor_height);
              anchor_height = later_anchor tip (nMatMulV4Height params) anchor_height;
              anchor_height = later_anchor tip (nMatMulBMX4CHeight params) anchor_height;
              anchor_height = later_anchor tip (nMatMulDRLTHeight params) anchor_height;
              anchor_height = later_anchor tip (nMatMulRCHeight params) anchor_height;
              anchor_height = later_anchor tip (nMatMulRCCoupledHeight params) anchor_height;
              anchor_height = later_anchor tip (nMatMulPowLimitUpgradeHeight params) anchor_height in
          later_anchor tip (nMatMulStallRecoveryHeight params) anchor_height)"

record MatMulAsertHalfLifeInfo =
  current_half_life_s :: int
  current_anchor_height :: int
  upgrade_configured :: bool
  upgrade_active :: bool
  upgrade_height :: int
  upgrade_half_life_s :: int

definition ResolveMatMulAsertHalfLifeInfo :: "CBlockIndex option \<Rightarrow> Params \<Rightarrow> MatMulAsertHalfLifeInfo" where
  "ResolveMatMulAsertHalfLifeInfo pindexLast params =
     (let configured = IsMatMulAsertHalfLifeUpgradeConfigured params;
          info = \<lparr>current_half_life_s = nMatMulAsertHalfLife params,
                  current_anchor_height = LatestMatMulAsertPreUpgradeAnchorHeight pindexLast params,
                  upgrade_configured = configured,
                  upgrade_active = False,
                  upgrade_height = (if configured then nMatMulAsertHalfLifeUpgradeHeight params else - 1),
                  upgrade_half_life_s = (if configured then nMatMulAsertHalfLifeUpgrade params else nMatMulAsertHalfLife params)\<rparr> in
      case pindexLast of
        None \<Rightarrow> info
      | Some b \<Rightarrow>
          if configured \<and> bi_nHeight b \<ge> nMatMulAsertHalfLifeUpgradeHeight params then
            info\<lparr>upgrade_active := True, current_half_life_s := nMatMulAsertHalfLifeUpgrade params,
                 current_anchor_height := max (current_anchor_height info) (nMatMulAsertHalfLifeUpgradeHeight params)\<rparr>
          else info)"

record MatMulPreHashEpsilonBitsInfo =
  current_bits :: u32
  next_block_bits :: u32
  eps_upgrade_configured :: bool
  eps_upgrade_active :: bool
  eps_upgrade_height :: int
  upgrade_bits :: u32

definition ResolveMatMulPreHashEpsilonBitsInfo :: "int \<Rightarrow> Params \<Rightarrow> MatMulPreHashEpsilonBitsInfo" where
  "ResolveMatMulPreHashEpsilonBitsInfo current_tip_height params =
     (let next_height = (if current_tip_height < int32_max then current_tip_height + 1 else current_tip_height);
          configured = IsMatMulPreHashEpsilonBitsUpgradeConfigured params in
      \<lparr>current_bits = GetMatMulPreHashEpsilonBitsForHeight params current_tip_height,
       next_block_bits = GetMatMulPreHashEpsilonBitsForHeight params next_height,
       eps_upgrade_configured = configured,
       eps_upgrade_active = IsMatMulPreHashEpsilonBitsUpgradeActive params current_tip_height,
       eps_upgrade_height = (if configured then nMatMulPreHashEpsilonBitsUpgradeHeight params else - 1),
       upgrade_bits = (if configured then nMatMulPreHashEpsilonBitsUpgrade params else nMatMulPreHashEpsilonBits params)\<rparr>)"

section \<open>The time credit of clamped blocks\<close>

definition cache_mix :: "u64 \<Rightarrow> u64 \<Rightarrow> u64" where
  "cache_mix v key = key XOR (v + 0x9e3779b97f4a7c15 + push_bit 6 key + drop_bit 2 key)"

definition ClampedAsertCreditCacheKey :: "CBlockIndex \<Rightarrow> int \<Rightarrow> int \<Rightarrow> int \<Rightarrow> u64" where
  "ClampedAsertCreditCacheKey block recovery_height max_advance min_interval =
     (let key = 0x9e3779b97f4a7c15;
          key = cache_mix (ucast (of_int recovery_height :: u32)) key;
          key = cache_mix (of_int max_advance) key;
          key = cache_mix (of_int min_interval) key;
          key = cache_mix (ucast (bi_nTime block)) key;
          key = cache_mix (ucast (of_int (bi_nHeight block) :: u32)) key in
      if key = 0 then 1 else key)"

definition key_for :: "Params \<Rightarrow> CBlockIndex \<Rightarrow> u64" where
  "key_for params block =
     ClampedAsertCreditCacheKey block (nMatMulStallRecoveryHeight params) (nMatMulMaxBlockTimeAdvance params)
       (MatMulAsertClampedMinIntervalSeconds params)"

text \<open>The walk towards the anchor, which stops at the first block with a matching cache key: the blocks it
  passed, nearest to the tip first, and the credit to start from.\<close>

partial_function (option) uncached_walk :: "heap \<Rightarrow> Params \<Rightarrow> ptr \<Rightarrow> ptr option \<Rightarrow> ptr list \<Rightarrow> (ptr list \<times> int) option" where
  [code]: "uncached_walk m params anchor pindex uncached =
     (case pindex of
        None \<Rightarrow> Some (uncached, 0)
      | Some p \<Rightarrow>
          if p = anchor \<or> \<not> bi_nHeight (m p) \<ge> nMatMulStallRecoveryHeight params then Some (uncached, 0)
          else if bi_nMatMulClampedAsertCreditKey (m p) = key_for params (m p)
          then Some (uncached, bi_nMatMulClampedAsertCredit (m p))
          else uncached_walk m params anchor (bi_pprev (m p)) (uncached @ [p]))"

definition credit_after :: "heap \<Rightarrow> Params \<Rightarrow> ptr \<Rightarrow> ptr \<Rightarrow> int \<Rightarrow> int" where
  "credit_after m params block prev credit =
     (let min_interval = MatMulAsertClampedMinIntervalSeconds params;
          max_time = MaxMatMulAllowedBlockTime params (bi_nHeight (m block)) (GetBlockTime (m prev)) (GetMedianTimePast m prev) in
      case max_time of
        None \<Rightarrow> credit
      | Some cap \<Rightarrow>
          if GetBlockTime (m block) \<ge> cap then
            let actual = GetBlockTime (m block) - GetBlockTime (m prev);
                actual = (if actual < 0 then 0 else actual) in
            if actual < min_interval then
              (if credit > int64_max - (min_interval - actual) then int64_max else credit + (min_interval - actual))
            else credit
          else credit)"

definition store_credit :: "heap \<Rightarrow> Params \<Rightarrow> ptr \<Rightarrow> int \<Rightarrow> heap" where
  "store_credit m params block credit =
     m(block := (m block)\<lparr>bi_nMatMulClampedAsertCredit := credit, bi_nMatMulClampedAsertCreditKey := key_for params (m block)\<rparr>)"

text \<open>The second loop, over the blocks passed, farthest from the tip first.\<close>

fun credit_loop :: "heap \<Rightarrow> Params \<Rightarrow> ptr list \<Rightarrow> int \<Rightarrow> int \<times> heap" where
  "credit_loop m params [] credit = (credit, m)"
| "credit_loop m params (block # rest) credit =
     (case bi_pprev (m block) of
        None \<Rightarrow> (credit, m)
      | Some prev \<Rightarrow>
          let credit = credit_after m params block prev credit; m = store_credit m params block credit in
          if credit = int64_max then (credit, m) else credit_loop m params rest credit)"

definition MatMulAsertClampedTimeCredit :: "heap \<Rightarrow> ptr option \<Rightarrow> ptr option \<Rightarrow> Params \<Rightarrow> (int \<times> heap) option" where
  "MatMulAsertClampedTimeCredit m pindexLast anchor params =
     (case (pindexLast, anchor) of
        (Some p, Some a) \<Rightarrow>
          if \<not> IsMatMulStallRecoveryActive params (bi_nHeight (m p)) then Some (0, m)
          else if MatMulAsertClampedMinIntervalSeconds params \<le> 0 then Some (0, m)
          else do {
            (uncached, credit) \<leftarrow> uncached_walk m params a (Some p) [];
            Some (credit_loop m params (rev uncached) credit)
          }
      | _ \<Rightarrow> Some (0, m))"

section \<open>Validation of the parameters\<close>

text \<open>Each group of checks of \<open>ValidateMatMulAsertParams\<close> is true when it does not reject. A height is live when
  it is not disabled; a ratio is inert when its terms are equal.\<close>

definition live :: "int \<Rightarrow> bool" where
  "live h \<longleftrightarrow> \<not> IsDisabledHeight h"

definition valid_scalars :: "Params \<Rightarrow> bool" where
  "valid_scalars params \<longleftrightarrow>
     \<not> nMatMulAsertHalfLife params \<le> 0 \<and>
     \<not> nPowTargetSpacing params \<le> 0 \<and>
     nMatMulAsertBootstrapFactor params \<noteq> 0 \<and>
     nMatMulAsertRetuneHardeningFactor params \<noteq> 0 \<and>
     \<not> (nMatMulAsertRetune2TargetNum params = 0 \<or> nMatMulAsertRetune2TargetDen params = 0) \<and>
     \<not> (nMatMulStallRecoveryAsertNum params = 0 \<or> nMatMulStallRecoveryAsertDen params = 0) \<and>
     ReduceRescaleRatioToU32 (uint (nMatMulStallRecoveryAsertNum params)) (uint (nMatMulStallRecoveryAsertDen params)) \<noteq> None \<and>
     \<not> nMatMulMaxBlockTimeAdvance params < 0 \<and>
     \<not> nMatMulAsertClampedMinInterval params < 0"

definition valid_stall_recovery :: "Params \<Rightarrow> bool" where
  "valid_stall_recovery params \<longleftrightarrow>
     (live (nMatMulStallRecoveryHeight params) \<longrightarrow>
       \<not> nMatMulStallRecoveryHeight params < nMatMulAsertHeight params \<and>
       (\<forall>other \<in> {nMatMulAsertHeight params, nMatMulAsertRetuneHeight params, nMatMulAsertRetune2Height params,
            nMatMulV4Height params, nMatMulBMX4CHeight params, nMatMulDRLTHeight params, nMatMulRCHeight params,
            nMatMulRCCoupledHeight params, nMatMulPowLimitUpgradeHeight params, nMatMulAsertHalfLifeUpgradeHeight params}.
         \<not> (live other \<and> other = nMatMulStallRecoveryHeight params)))"

definition valid_v4_bmx4c :: "Params \<Rightarrow> bool" where
  "valid_v4_bmx4c params \<longleftrightarrow>
     ReduceRescaleRatioToU32 (nMatMulV4AsertRescaleNum params) (nMatMulV4AsertRescaleDen params) \<noteq> None \<and>
     \<not> (live (nMatMulV4Height params) \<and> nMatMulV4Height params < nMatMulAsertHeight params) \<and>
     ReduceRescaleRatioToU32 (nMatMulBMX4CAsertRescaleNum params) (nMatMulBMX4CAsertRescaleDen params) \<noteq> None \<and>
     \<not> (live (nMatMulBMX4CHeight params) \<and> nMatMulBMX4CHeight params < nMatMulAsertHeight params)"

definition valid_drlt :: "Params \<Rightarrow> bool" where
  "valid_drlt params \<longleftrightarrow>
     ReduceRescaleRatioToU32 (nMatMulDRLTAsertRescaleNum params) (nMatMulDRLTAsertRescaleDen params) \<noteq> None \<and>
     \<not> (live (nMatMulDRLTHeight params) \<and> nMatMulDRLTHeight params < nMatMulAsertHeight params) \<and>
     \<not> (live (nMatMulDRLTHeight params) \<and> live (nMatMulBMX4CHeight params) \<and>
        nMatMulDRLTHeight params < nMatMulBMX4CHeight params) \<and>
     \<not> (live (nMatMulDRLTHeight params) \<and> live (nMatMulBMX4CHeight params) \<and>
        nMatMulDRLTHeight params = nMatMulBMX4CHeight params \<and>
        nMatMulDRLTAsertRescaleNum params \<noteq> nMatMulDRLTAsertRescaleDen params)"

definition valid_rc :: "Params \<Rightarrow> bool" where
  "valid_rc params \<longleftrightarrow>
     (if IsMatMulV47EpochAActivationTuple params
      then ReduceRescaleRatioToU64 (nMatMulRCAsertRescaleNum params) (nMatMulRCAsertRescaleDen params) \<noteq> None
      else ReduceRescaleRatioToU32 (nMatMulRCAsertRescaleNum params) (nMatMulRCAsertRescaleDen params) \<noteq> None) \<and>
     \<not> (live (nMatMulRCHeight params) \<and> nMatMulRCHeight params < nMatMulAsertHeight params) \<and>
     \<not> (live (nMatMulRCHeight params) \<and> live (nMatMulDRLTHeight params) \<and>
        nMatMulRCHeight params < nMatMulDRLTHeight params) \<and>
     \<not> (live (nMatMulRCHeight params) \<and> live (nMatMulDRLTHeight params) \<and>
        nMatMulRCHeight params = nMatMulDRLTHeight params \<and>
        nMatMulDRLTAsertRescaleNum params \<noteq> nMatMulDRLTAsertRescaleDen params)"

definition valid_coupled :: "Params \<Rightarrow> bool" where
  "valid_coupled params \<longleftrightarrow>
     ReduceRescaleRatioToU32 (nMatMulRCCoupledAsertRescaleNum params) (nMatMulRCCoupledAsertRescaleDen params) \<noteq> None \<and>
     \<not> (live (nMatMulRCCoupledHeight params) \<and> nMatMulRCCoupledHeight params < nMatMulAsertHeight params) \<and>
     \<not> (live (nMatMulRCCoupledHeight params) \<and> live (nMatMulRCHeight params) \<and>
        nMatMulRCCoupledHeight params < nMatMulRCHeight params) \<and>
     \<not> (live (nMatMulRCCoupledHeight params) \<and> live (nMatMulRCHeight params) \<and>
        nMatMulRCCoupledHeight params = nMatMulRCHeight params \<and>
        nMatMulRCCoupledAsertRescaleNum params \<noteq> nMatMulRCCoupledAsertRescaleDen params)"

definition valid_unified_heights :: "Params \<Rightarrow> bool" where
  "valid_unified_heights params \<longleftrightarrow>
     \<not> (live (nMatMulBMX4CHeight params) \<and> live (nMatMulV4Height params) \<and>
        nMatMulBMX4CHeight params < nMatMulV4Height params) \<and>
     \<not> (live (nMatMulBMX4CHeight params) \<and> live (nMatMulV4Height params) \<and>
        nMatMulBMX4CHeight params = nMatMulV4Height params \<and>
        nMatMulV4AsertRescaleNum params \<noteq> nMatMulV4AsertRescaleDen params) \<and>
     \<not> (live (nMatMulRCHeight params) \<and> live (nMatMulBMX4CHeight params) \<and>
        nMatMulRCHeight params = nMatMulBMX4CHeight params \<and>
        nMatMulBMX4CAsertRescaleNum params \<noteq> nMatMulBMX4CAsertRescaleDen params) \<and>
     \<not> (live (nMatMulRCHeight params) \<and> live (nMatMulV4Height params) \<and>
        nMatMulRCHeight params = nMatMulV4Height params \<and>
        nMatMulV4AsertRescaleNum params \<noteq> nMatMulV4AsertRescaleDen params)"

definition shadowed_by_earlier :: "Params \<Rightarrow> int \<Rightarrow> bool" where
  "shadowed_by_earlier params h \<longleftrightarrow>
     live (nMatMulAsertHeight params) \<and> h = nMatMulAsertHeight params \<or>
     live (nMatMulAsertRetuneHeight params) \<and> h = nMatMulAsertRetuneHeight params \<or>
     live (nMatMulAsertRetune2Height params) \<and> h = nMatMulAsertRetune2Height params \<or>
     live (nMatMulPowLimitUpgradeHeight params) \<and> h = nMatMulPowLimitUpgradeHeight params \<or>
     live (nMatMulStallRecoveryHeight params) \<and> h = nMatMulStallRecoveryHeight params"

text \<open>\<open>shares h\<close>: one of the given profile heights is live and equal to \<open>h\<close>.\<close>

definition shares :: "int \<Rightarrow> int list \<Rightarrow> bool" where
  "shares h others \<longleftrightarrow> list_ex (\<lambda>other. live other \<and> h = other) others"

definition valid_no_shadowing :: "Params \<Rightarrow> bool" where
  "valid_no_shadowing params \<longleftrightarrow>
     \<not> (live (nMatMulV4Height params) \<and> nMatMulV4AsertRescaleNum params \<noteq> nMatMulV4AsertRescaleDen params \<and>
        (shadowed_by_earlier params (nMatMulV4Height params) \<or>
         shares (nMatMulV4Height params) [nMatMulRCHeight params])) \<and>
     \<not> (live (nMatMulBMX4CHeight params) \<and> nMatMulBMX4CAsertRescaleNum params \<noteq> nMatMulBMX4CAsertRescaleDen params \<and>
        (shadowed_by_earlier params (nMatMulBMX4CHeight params) \<or>
         shares (nMatMulBMX4CHeight params) [nMatMulRCHeight params])) \<and>
     \<not> (live (nMatMulDRLTHeight params) \<and> nMatMulDRLTAsertRescaleNum params \<noteq> nMatMulDRLTAsertRescaleDen params \<and>
        (shadowed_by_earlier params (nMatMulDRLTHeight params) \<or>
         shares (nMatMulDRLTHeight params) [nMatMulV4Height params, nMatMulBMX4CHeight params, nMatMulRCHeight params])) \<and>
     \<not> (live (nMatMulRCHeight params) \<and> nMatMulRCAsertRescaleNum params \<noteq> nMatMulRCAsertRescaleDen params \<and>
        shadowed_by_earlier params (nMatMulRCHeight params)) \<and>
     \<not> (live (nMatMulRCCoupledHeight params) \<and>
        nMatMulRCCoupledAsertRescaleNum params \<noteq> nMatMulRCCoupledAsertRescaleDen params \<and>
        (shadowed_by_earlier params (nMatMulRCCoupledHeight params) \<or>
         shares (nMatMulRCCoupledHeight params)
           [nMatMulV4Height params, nMatMulBMX4CHeight params, nMatMulDRLTHeight params, nMatMulRCHeight params]))"

definition valid_retunes :: "Params \<Rightarrow> bool" where
  "valid_retunes params \<longleftrightarrow>
     (let retune_enabled = live (nMatMulAsertRetuneHeight params);
          retune2_enabled = live (nMatMulAsertRetune2Height params);
          retune_non_inert = (retune_enabled \<and> nMatMulAsertRetuneHardeningFactor params > 1);
          retune2_non_inert =
            (retune2_enabled \<and> nMatMulAsertRetune2TargetNum params \<noteq> nMatMulAsertRetune2TargetDen params) in
      \<not> (retune_enabled \<and> nMatMulAsertRetuneHeight params < nMatMulAsertHeight params) \<and>
      \<not> (retune2_enabled \<and> nMatMulAsertRetune2Height params < nMatMulAsertHeight params) \<and>
      \<not> (retune_enabled \<and> retune2_enabled \<and> nMatMulAsertRetune2Height params < nMatMulAsertRetuneHeight params) \<and>
      \<not> (retune_non_inert \<and> nMatMulAsertRetuneHeight params = nMatMulAsertHeight params) \<and>
      \<not> (retune2_non_inert \<and> nMatMulAsertRetune2Height params = nMatMulAsertHeight params) \<and>
      \<not> (retune2_non_inert \<and> retune_enabled \<and> nMatMulAsertRetune2Height params = nMatMulAsertRetuneHeight params))"

definition valid_pow_limit_upgrade :: "Params \<Rightarrow> bool option" where
  "valid_pow_limit_upgrade params =
     (if \<not> IsMatMulPowLimitUpgradeConfigured params then Some True
      else
        let h = nMatMulPowLimitUpgradeHeight params; strictly_after = (\<lambda>other. IsDisabledHeight other \<or> h > other) in
        if h \<le> nMatMulAsertHeight params then Some False
        else if \<not> list_all strictly_after
            [nMatMulAsertRetuneHeight params, nMatMulAsertRetune2Height params, nMatMulV4Height params,
             nMatMulBMX4CHeight params, nMatMulDRLTHeight params, nMatMulRCHeight params, nMatMulRCCoupledHeight params]
        then Some False
        else
          let historical = UintToArith256 (powLimit params); upgraded = UintToArith256 (powLimitUpgrade params) in
          if uint_EqualTo upgraded 0 \<or> uint_ge upgraded historical then Some False
          else do {
            bits \<leftarrow> GetCompact upgraded False;
            let decoded = SetCompact bits;
            Some (\<not> (cr_negative decoded \<or> cr_overflow decoded \<or> uint_EqualTo (cr_value decoded) 0))
          })"

definition valid_half_life_upgrade :: "Params \<Rightarrow> bool" where
  "valid_half_life_upgrade params \<longleftrightarrow>
     (IsMatMulAsertHalfLifeUpgradeConfigured params \<longrightarrow>
       \<not> nMatMulAsertHalfLifeUpgrade params \<le> 0 \<and>
       (let latest = nMatMulAsertHeight params;
            latest = (if live (nMatMulAsertRetuneHeight params) then max latest (nMatMulAsertRetuneHeight params) else latest);
            latest = (if live (nMatMulAsertRetune2Height params) then max latest (nMatMulAsertRetune2Height params) else latest);
            latest = (if IsMatMulPowLimitUpgradeConfigured params then max latest (nMatMulPowLimitUpgradeHeight params) else latest) in
        \<not> nMatMulAsertHalfLifeUpgradeHeight params \<le> latest))"

definition ValidateMatMulAsertParams :: "Params \<Rightarrow> bool option" where
  "ValidateMatMulAsertParams params =
     (if \<not> valid_scalars params then Some False
      else if \<not> valid_stall_recovery params then Some False
      else if \<not> valid_v4_bmx4c params then Some False
      else if \<not> valid_drlt params then Some False
      else if \<not> valid_rc params then Some False
      else if \<not> valid_coupled params then Some False
      else if \<not> valid_unified_heights params then Some False
      else if \<not> valid_no_shadowing params then Some False
      else if \<not> valid_retunes params then Some False
      else do {
        limit_ok \<leftarrow> valid_pow_limit_upgrade params;
        if \<not> limit_ok then Some False else Some (valid_half_life_upgrade params)
      })"

definition MatMulAsertPowLimitForNextHeight :: "Params \<Rightarrow> int \<Rightarrow> arith_uint256" where
  "MatMulAsertPowLimitForNextHeight params next_height =
     (let historical = UintToArith256 (powLimit params) in
      if next_height < 0 \<or> IsDisabledHeight (nMatMulPowLimitUpgradeHeight params) \<or>
         next_height < nMatMulPowLimitUpgradeHeight params then historical
      else
        let upgraded = UintToArith256 (powLimitUpgrade params) in
        if uint_EqualTo upgraded 0 \<or> uint_ge upgraded historical then historical else upgraded)"

section \<open>The bootstrap target\<close>

function genesis_walk :: "heap \<Rightarrow> ptr \<Rightarrow> int \<Rightarrow> ptr option" where
  "genesis_walk m cursor remaining_steps =
     (if \<not> bi_nHeight (m cursor) > 0 then Some cursor
      else
        case bi_pprev (m cursor) of
          None \<Rightarrow> None
        | Some prev \<Rightarrow>
            if bi_nHeight (m prev) \<ge> bi_nHeight (m cursor) then None
            else if remaining_steps - 1 < 0 then None
            else genesis_walk m prev (remaining_steps - 1))"
  by pat_completeness auto
termination
  by (relation "measure (\<lambda>(m, cursor, n). nat (bi_nHeight (m cursor)))") auto

declare genesis_walk.simps [simp del]

definition FindGenesisBlockIndex :: "heap \<Rightarrow> ptr option \<Rightarrow> ptr option" where
  "FindGenesisBlockIndex m tip =
     (case tip of
        None \<Rightarrow> None
      | Some p \<Rightarrow>
          if bi_nHeight (m p) < 0 then None
          else
            case genesis_walk m p (bi_nHeight (m p)) of
              None \<Rightarrow> None
            | Some cursor \<Rightarrow>
                if bi_nHeight (m cursor) \<noteq> 0 then None
                else if bi_pprev (m cursor) \<noteq> None then None
                else Some cursor)"

definition FastMineBootstrapBits :: "heap \<Rightarrow> ptr \<Rightarrow> Params \<Rightarrow> u32 option" where
  "FastMineBootstrapBits m genesis params =
     (let pow_limit = UintToArith256 (powLimit params);
          bootstrap_target = cr_value (SetCompact (bi_nBits (m genesis)));
          scale = max (nFastMineDifficultyScale params) 1 in do {
        bootstrap_target \<leftarrow>
          (if scale > 1 then do {
             max_without_overflow \<leftarrow> uint_div pow_limit (uint_of_u64 (ucast scale));
             Some (if uint_gt bootstrap_target max_without_overflow then pow_limit else uint_mul32 bootstrap_target scale)
           } else Some bootstrap_target);
        GetCompact (ClampRetargetResult bootstrap_target pow_limit) False
      })"

section \<open>One-time targets\<close>

text \<open>The parent's target clamped to the limit, and the parent's target times a reduced ratio.\<close>

definition parent_bits :: "u32 \<Rightarrow> arith_uint256 \<Rightarrow> u32 option" where
  "parent_bits old_bits pow_limit = GetCompact (ClampRetargetResult (cr_value (SetCompact old_bits)) pow_limit) False"

definition rescale_bits :: "u32 \<Rightarrow> int \<Rightarrow> int \<Rightarrow> arith_uint256 \<Rightarrow> u32 option" where
  "rescale_bits old_bits num den pow_limit =
     (case ReduceRescaleRatioToU32 num den of
        None \<Rightarrow> MatMulAsertFailClosedBits
      | Some (rn, rd) \<Rightarrow> do {
          target \<leftarrow> ScaleTargetByTimespan (cr_value (SetCompact old_bits)) (uint rn) (uint rd);
          GetCompact (ClampRetargetResult target pow_limit) False
        })"

definition rc_bits :: "Params \<Rightarrow> u32 \<Rightarrow> int \<Rightarrow> arith_uint256 \<Rightarrow> u32 option" where
  "rc_bits params old_bits next_height pow_limit =
     (if IsMatMulV47EpochAActivationTuple params then
        case ReduceRescaleRatioToU64 (nMatMulRCAsertRescaleNum params) (nMatMulRCAsertRescaleDen params) of
          None \<Rightarrow> MatMulAsertFailClosedBits
        | Some (rc_an, rc_ad) \<Rightarrow>
            (case DeriveMatMulEpochATransitionTarget (cr_value (SetCompact old_bits))
                    (GetMatMulPreHashEpsilonBitsForHeight params (next_height - 1)) rc_an rc_ad pow_limit of
               None \<Rightarrow> MatMulAsertFailClosedBits
             | Some rc_target \<Rightarrow> GetCompact (ClampRetargetResult rc_target pow_limit) False)
      else rescale_bits old_bits (nMatMulRCAsertRescaleNum params) (nMatMulRCAsertRescaleDen params) pow_limit)"

definition bootstrap_bits :: "Params \<Rightarrow> u32 \<Rightarrow> arith_uint256 \<Rightarrow> u32 option" where
  "bootstrap_bits params old_bits pow_limit =
     (let parent_target = cr_value (SetCompact old_bits); bootstrap_factor = nMatMulAsertBootstrapFactor params in do {
        bootstrap_target \<leftarrow> (if bootstrap_factor > 1 then SaturatingMultiplyByUint32 parent_target bootstrap_factor
                             else Some parent_target);
        GetCompact (ClampRetargetResult bootstrap_target pow_limit) False
      })"

definition retune_bits :: "Params \<Rightarrow> u32 \<Rightarrow> arith_uint256 \<Rightarrow> u32 option" where
  "retune_bits params old_bits pow_limit =
     (let parent_target = cr_value (SetCompact old_bits); retune_hardening_factor = nMatMulAsertRetuneHardeningFactor params in do {
        retune_target \<leftarrow> (if retune_hardening_factor > 1 then uint_div parent_target (uint_of_u64 (ucast retune_hardening_factor))
                          else Some parent_target);
        GetCompact (ClampRetargetResult retune_target pow_limit) False
      })"

definition retune2_bits :: "Params \<Rightarrow> u32 \<Rightarrow> arith_uint256 \<Rightarrow> u32 option" where
  "retune2_bits params old_bits pow_limit = do {
     retune2_target \<leftarrow> ScaleTargetByTimespan (cr_value (SetCompact old_bits))
       (uint (nMatMulAsertRetune2TargetNum params)) (uint (nMatMulAsertRetune2TargetDen params));
     GetCompact (ClampRetargetResult retune2_target pow_limit) False
   }"

text \<open>The cascade of heights with a target of their own, in the order of the code. \<open>None\<close> is a height with no
  branch; the inner option is the bits, or an exception.\<close>

definition one_time_bits :: "Params \<Rightarrow> u32 \<Rightarrow> int \<Rightarrow> arith_uint256 \<Rightarrow> u32 option option" where
  "one_time_bits params old_bits next_height pow_limit =
     (if next_height = nMatMulAsertHeight params then Some (bootstrap_bits params old_bits pow_limit)
      else if next_height = nMatMulAsertRetuneHeight params then Some (retune_bits params old_bits pow_limit)
      else if next_height = nMatMulAsertRetune2Height params then Some (retune2_bits params old_bits pow_limit)
      else if next_height = nMatMulV4Height params \<and> next_height \<noteq> nMatMulBMX4CHeight params \<and>
              next_height \<noteq> nMatMulRCHeight params then
        Some (rescale_bits old_bits (nMatMulV4AsertRescaleNum params) (nMatMulV4AsertRescaleDen params) pow_limit)
      else if next_height = nMatMulBMX4CHeight params \<and> next_height \<noteq> nMatMulRCHeight params then
        Some (rescale_bits old_bits (nMatMulBMX4CAsertRescaleNum params) (nMatMulBMX4CAsertRescaleDen params) pow_limit)
      else if next_height = nMatMulDRLTHeight params \<and> next_height \<noteq> nMatMulBMX4CHeight params \<and>
              next_height \<noteq> nMatMulRCHeight params then
        Some (rescale_bits old_bits (nMatMulDRLTAsertRescaleNum params) (nMatMulDRLTAsertRescaleDen params) pow_limit)
      else if next_height = nMatMulRCHeight params then Some (rc_bits params old_bits next_height pow_limit)
      else if next_height = nMatMulRCCoupledHeight params \<and> next_height \<noteq> nMatMulRCHeight params then
        Some (rescale_bits old_bits (nMatMulRCCoupledAsertRescaleNum params) (nMatMulRCCoupledAsertRescaleDen params) pow_limit)
      else if \<not> IsDisabledHeight (nMatMulPowLimitUpgradeHeight params) \<and>
              next_height = nMatMulPowLimitUpgradeHeight params then Some (parent_bits old_bits pow_limit)
      else if next_height = nMatMulAsertHalfLifeUpgradeHeight params then Some (parent_bits old_bits pow_limit)
      else if \<not> IsDisabledHeight (nMatMulStallRecoveryHeight params) \<and>
              next_height = nMatMulStallRecoveryHeight params then
        Some (rescale_bits old_bits (uint (nMatMulStallRecoveryAsertNum params)) (uint (nMatMulStallRecoveryAsertDen params)) pow_limit)
      else None)"

section \<open>\<open>MatMulAsert\<close>\<close>

text \<open>The tail of the function, which computes the target from the anchor.\<close>

definition anchored_bits :: "heap \<Rightarrow> ptr \<Rightarrow> Params \<Rightarrow> arith_uint256 \<Rightarrow> (u32 \<times> heap) option" where
  "anchored_bits m pindexLast params pow_limit =
     (let half_life_info = ResolveMatMulAsertHalfLifeInfo (Some (m pindexLast)) params;
          anchor_height = current_anchor_height half_life_info in
      if anchor_height < 0 \<or> bi_nHeight (m pindexLast) < anchor_height then do { bits \<leftarrow> GetCompact pow_limit False; Some (bits, m) }
      else
        case GetAncestor m pindexLast anchor_height of
          None \<Rightarrow> do { bits \<leftarrow> MatMulAsertFailClosedBits; Some (bits, m) }
        | Some anchor \<Rightarrow>
            let anchor_target = cr_value (SetCompact (bi_nBits (m anchor))) in
            if uint_EqualTo anchor_target 0 \<or> uint_gt anchor_target pow_limit
            then do { bits \<leftarrow> MatMulAsertFailClosedBits; Some (bits, m) }
            else do {
              let time_diff = GetBlockTime (m pindexLast) - GetBlockTime (m anchor);
              (clamped_credit, m') \<leftarrow> MatMulAsertClampedTimeCredit m (Some pindexLast) (Some anchor) params;
              let asert_time_diff =
                (if clamped_credit > 0 then
                   if time_diff > int64_max - clamped_credit then int64_max else time_diff + clamped_credit
                 else time_diff);
              let height_diff = bi_nHeight (m pindexLast) - bi_nHeight (m anchor);
              next_target \<leftarrow> CalculateMatMulAsertTarget anchor_target asert_time_diff height_diff
                (current_half_life_s half_life_info) params pow_limit;
              bits \<leftarrow> GetCompact next_target False;
              Some (bits, m')
            })"

definition MatMulAsert :: "heap \<Rightarrow> ptr option \<Rightarrow> Params \<Rightarrow> (u32 \<times> heap) option" where
  "MatMulAsert m pindexLast params =
     (case pindexLast of
        None \<Rightarrow> None
      | Some p \<Rightarrow>
          let next_height = bi_nHeight (m p) + 1 in
          if next_height < 0 \<or> next_height > int32_max
          then do { bits \<leftarrow> GetCompact (UintToArith256 (powLimit params)) False; Some (bits, m) }
          else
            let pow_limit = MatMulAsertPowLimitForNextHeight params next_height in
            if next_height < nMatMulAsertHeight params then do {
              bits \<leftarrow> (case FindGenesisBlockIndex m (Some p) of
                        None \<Rightarrow> GetCompact pow_limit False
                      | Some genesis \<Rightarrow> FastMineBootstrapBits m genesis params);
              Some (bits, m)
            }
            else do {
              valid \<leftarrow> ValidateMatMulAsertParams params;
              if \<not> valid then do { bits \<leftarrow> MatMulAsertFailClosedBits; Some (bits, m) }
              else
                case one_time_bits params (bi_nBits (m p)) next_height pow_limit of
                  Some result \<Rightarrow> do { bits \<leftarrow> result; Some (bits, m) }
                | None \<Rightarrow> anchored_bits m p params pow_limit
            })"

section \<open>The cache of time credits\<close>

text \<open>Two heaps that differ in the cache fields only.\<close>

definition cold :: "CBlockIndex \<Rightarrow> CBlockIndex" where
  "cold b = b\<lparr>bi_nMatMulClampedAsertCreditKey := 0, bi_nMatMulClampedAsertCredit := 0\<rparr>"

definition same_index :: "heap \<Rightarrow> heap \<Rightarrow> bool" where
  "same_index m m' \<longleftrightarrow> (\<forall>p. cold (m' p) = cold (m p))"

lemma cold_fields:
  "bi_pprev (cold b) = bi_pprev b" "bi_pskip (cold b) = bi_pskip b" "bi_nHeight (cold b) = bi_nHeight b"
  "bi_nTime (cold b) = bi_nTime b" "bi_nBits (cold b) = bi_nBits b" "key_for params (cold b) = key_for params b"
  by (simp_all add: cold_def key_for_def ClampedAsertCreditCacheKey_def)

lemma same_index_fields:
  assumes "same_index m m'"
  shows "bi_pprev (m' p) = bi_pprev (m p)" "bi_pskip (m' p) = bi_pskip (m p)" "bi_nHeight (m' p) = bi_nHeight (m p)"
    "bi_nTime (m' p) = bi_nTime (m p)" "bi_nBits (m' p) = bi_nBits (m p)" "key_for params (m' p) = key_for params (m p)"
    "GetBlockTime (m' p) = GetBlockTime (m p)"
proof -
  have c: "cold (m' p) = cold (m p)" using assms by (simp add: same_index_def)
  note f = cold_fields[where b = "m' p", unfolded c cold_fields[where b = "m p"], symmetric]
  show "bi_pprev (m' p) = bi_pprev (m p)" "bi_pskip (m' p) = bi_pskip (m p)" "bi_nHeight (m' p) = bi_nHeight (m p)"
    "bi_nTime (m' p) = bi_nTime (m p)" "bi_nBits (m' p) = bi_nBits (m p)" "key_for params (m' p) = key_for params (m p)"
    "GetBlockTime (m' p) = GetBlockTime (m p)"
    by (simp_all only: f GetBlockTime_def)
qed

lemma same_index_refl: "same_index m m"
  by (simp add: same_index_def)

lemma same_index_trans: "same_index m m' \<Longrightarrow> same_index m' m'' \<Longrightarrow> same_index m m''"
  by (simp add: same_index_def)

lemma same_index_store: "same_index m (store_credit m params p c)"
  by (simp add: same_index_def store_credit_def cold_def)

lemma same_index_up: "same_index m m' \<Longrightarrow> up m' k p = up m k p"
  by (induction k arbitrary: p) (auto simp: same_index_fields split: option.splits)

lemma same_index_past: "same_index m m' \<Longrightarrow> past_times m' n q = past_times m n q"
  by (induction m n q rule: past_times.induct) (simp_all add: same_index_fields)

lemma same_index_credit:
  assumes "same_index m m'" shows "credit_after m' params b q c = credit_after m params b q c"
  unfolding credit_after_def GetMedianTimePast_def same_index_fields(3,7)[OF assms] same_index_past[OF assms] ..

lemma same_index_linked:
  assumes "same_index m m'" shows "linked m' S = linked m S"
  unfolding linked_def linked_entry_def same_index_fields(1-3)[OF assms] same_index_up[OF assms] ..

text \<open>The credit of \<open>n\<close> blocks ending in \<open>p\<close>, computed without the cache.\<close>

fun credit_up :: "heap \<Rightarrow> Params \<Rightarrow> nat \<Rightarrow> ptr \<Rightarrow> int" where
  "credit_up m params 0 p = 0"
| "credit_up m params (Suc n) p = (case bi_pprev (m p) of None \<Rightarrow> 0 | Some q \<Rightarrow> credit_after m params p q (credit_up m params n q))"

lemma same_index_credit_up: "same_index m m' \<Longrightarrow> credit_up m' params n p = credit_up m params n p"
  by (induction n arbitrary: p) (auto simp: same_index_fields same_index_credit split: option.splits)

text \<open>The anchor height of a tip depends on its height only, and stays the same from the anchor up to the tip.\<close>

definition anchor_at :: "Params \<Rightarrow> CBlockIndex \<Rightarrow> int" where
  "anchor_at params b = current_anchor_height (ResolveMatMulAsertHalfLifeInfo (Some b) params)"

definition credit_depth :: "Params \<Rightarrow> CBlockIndex \<Rightarrow> nat" where
  "credit_depth params b = nat (bi_nHeight b - max (anchor_at params b) (nMatMulStallRecoveryHeight params - 1))"

lemma later_anchor_stable:
  assumes "later_anchor t h A < b" "b \<le> t" "A < b \<Longrightarrow> A' = A"
  shows "later_anchor b h A' = later_anchor t h A" "A < b"
  using assms by (auto simp: later_anchor_def split: if_splits)

lemma base_anchor_stable:
  fixes t b r2 r a :: int
  defines "base \<equiv> \<lambda>t. if r2 \<ge> a \<and> t \<ge> r2 then r2 else if r \<ge> a \<and> t \<ge> r then r else a"
  assumes "base t < b" "b \<le> t"
  shows "base b = base t"
  using assms by (auto split: if_splits)

lemma anchor_stable:
  assumes "anchor_at params t < bi_nHeight b" "bi_nHeight b \<le> bi_nHeight t"
  shows "anchor_at params b = anchor_at params t"
proof -
  let ?h = "bi_nHeight b" and ?t = "bi_nHeight t"
  define base where "base = (\<lambda>x. if nMatMulAsertRetune2Height params \<ge> nMatMulAsertHeight params \<and> x \<ge> nMatMulAsertRetune2Height params
                 then nMatMulAsertRetune2Height params
                 else if nMatMulAsertRetuneHeight params \<ge> nMatMulAsertHeight params \<and> x \<ge> nMatMulAsertRetuneHeight params
                 then nMatMulAsertRetuneHeight params else nMatMulAsertHeight params)"
  define Hs where "Hs = [nMatMulV4Height params, nMatMulBMX4CHeight params, nMatMulDRLTHeight params, nMatMulRCHeight params,
      nMatMulRCCoupledHeight params, nMatMulPowLimitUpgradeHeight params, nMatMulStallRecoveryHeight params]"
  have pre: "LatestMatMulAsertPreUpgradeAnchorHeight (Some x) params = fold (later_anchor (bi_nHeight x)) Hs (base (bi_nHeight x))" for x
    by (simp add: LatestMatMulAsertPreUpgradeAnchorHeight_def Let_def Hs_def base_def)
  have fold: "fold (later_anchor ?h) hs A' = fold (later_anchor ?t) hs A \<and> A < ?h"
    if "fold (later_anchor ?t) hs A < ?h" "A < ?h \<Longrightarrow> A' = A" for hs A A'
    using that
  proof (induction hs arbitrary: A A')
    case (Cons x hs)
    show ?case using Cons.IH[of "later_anchor ?t x A" "later_anchor ?h x A'"] Cons.prems
        later_anchor_stable[of ?t x A ?h A'] assms(2) by (auto simp: later_anchor_def split: if_splits)
  qed simp
  have latest: "LatestMatMulAsertPreUpgradeAnchorHeight (Some b) params = LatestMatMulAsertPreUpgradeAnchorHeight (Some t) params"
    if "LatestMatMulAsertPreUpgradeAnchorHeight (Some t) params < ?h"
  proof -
    have "base ?h = base ?t" if "base ?t < ?h"
      using that assms(2) unfolding base_def by (rule base_anchor_stable)
    then show ?thesis using fold[of Hs "base ?t" "base ?h"] that unfolding pre by blast
  qed
  show ?thesis
    using assms latest by (auto simp: anchor_at_def ResolveMatMulAsertHalfLifeInfo_def Let_def split: if_splits)
qed

text \<open>What a matching cache key promises.\<close>

definition cache_ok :: "heap \<Rightarrow> Params \<Rightarrow> ptr set \<Rightarrow> bool" where
  "cache_ok m params S \<longleftrightarrow>
     (\<forall>p \<in> S. bi_nMatMulClampedAsertCreditKey (m p) = key_for params (m p) \<longrightarrow>
        bi_nMatMulClampedAsertCredit (m p) = credit_up m params (credit_depth params (m p)) p)"

lemma credit_after_bounds:
  assumes "0 \<le> c" "c \<le> int64_max" shows "0 \<le> credit_after m params b q c" "credit_after m params b q c \<le> int64_max"
  using assms by (auto simp: credit_after_def Let_def split: option.splits)

lemma credit_up_bounds: "0 \<le> credit_up m params n p" "credit_up m params n p \<le> int64_max"
  by (induction n arbitrary: p) (auto split: option.splits intro: credit_after_bounds)

lemma credit_after_saturated: "credit_after m params b q int64_max = int64_max"
  by (auto simp: credit_after_def Let_def split: option.splits)

lemma uncached_walk_unfold:
  "uncached_walk m params a None us = Some (us, 0)"
  "uncached_walk m params a (Some p) us =
     (if p = a \<or> \<not> bi_nHeight (m p) \<ge> nMatMulStallRecoveryHeight params then Some (us, 0)
      else if bi_nMatMulClampedAsertCreditKey (m p) = key_for params (m p) then Some (us, bi_nMatMulClampedAsertCredit (m p))
      else uncached_walk m params a (bi_pprev (m p)) (us @ [p]))"
  by (subst uncached_walk.simps, simp)+

lemma credit_loop_append:
  assumes "\<forall>x \<in> set xs. bi_pprev (m x) \<noteq> None"
  shows "credit_loop m params (xs @ ys) c =
    (case credit_loop m params xs c of (c', m') \<Rightarrow>
       if xs \<noteq> [] \<and> c' = int64_max then (c', m') else credit_loop m' params ys c')"
  using assms
proof (induction xs arbitrary: m c)
  case (Cons x xs)
  then obtain q where q: "bi_pprev (m x) = Some q" by auto
  define c1 m1 where "c1 = credit_after m params x q c" and "m1 = store_credit m params x c1"
  have s: "same_index m m1" by (simp add: m1_def same_index_store)
  have "\<forall>x \<in> set xs. bi_pprev (m1 x) \<noteq> None" using Cons.prems same_index_fields(1)[OF s] by simp
  note IH = Cons.IH[OF this, of c1]
  show ?case
  proof (cases "c1 = int64_max")
    case False
    then show ?thesis using q IH by (cases xs) (simp_all add: c1_def[symmetric] m1_def[symmetric] Let_def split: prod.splits)
  qed (simp add: q c1_def[symmetric] m1_def[symmetric] Let_def)
qed simp

lemma anchor_at_height: "bi_nHeight b = bi_nHeight b' \<Longrightarrow> anchor_at params b = anchor_at params b'"
  by (simp add: anchor_at_def ResolveMatMulAsertHalfLifeInfo_def LatestMatMulAsertPreUpgradeAnchorHeight_def)

lemma credit_depth_height: "bi_nHeight b = bi_nHeight b' \<Longrightarrow> credit_depth params b = credit_depth params b'"
  using anchor_at_height[of b b' params] by (simp add: credit_depth_def)

lemma cache_ok_store:
  assumes ok: "cache_ok m params S" and c: "c = credit_up m params (credit_depth params (m q)) q"
  shows "cache_ok (store_credit m params q c) params S"
proof -
  let ?m = "store_credit m params q c"
  have s: "same_index m ?m" by (rule same_index_store)
  have d: "credit_depth params (?m p) = credit_depth params (m p)" for p
    by (rule credit_depth_height) (rule same_index_fields(3)[OF s])
  have "bi_nMatMulClampedAsertCredit (?m p) = credit_up m params (credit_depth params (m p)) p"
    if p: "p \<in> S" and k: "bi_nMatMulClampedAsertCreditKey (?m p) = key_for params (m p)" for p
  proof (cases "p = q")
    case True
    then show ?thesis using c by (simp add: store_credit_def)
  next
    case False
    then have "?m p = m p" by (simp add: store_credit_def)
    then show ?thesis using ok p k by (simp add: cache_ok_def)
  qed
  then show ?thesis unfolding cache_ok_def d same_index_credit_up[OF s] same_index_fields(6)[OF s] by blast
qed

lemma clamped_credit_walk:
  assumes l: "linked m S" and ok: "cache_ok m params S"
    and H: "\<And>b. b \<in> S \<Longrightarrow> A < bi_nHeight (m b) \<Longrightarrow> bi_nHeight (m b) \<le> T \<Longrightarrow> anchor_at params (m b) = A" and A: "0 \<le> A"
  defines "D \<equiv> \<lambda>q. nat (bi_nHeight (m q) - max A (nMatMulStallRecoveryHeight params - 1))"
  shows "q \<in> S \<Longrightarrow> bi_nHeight (m q) = A + int n \<Longrightarrow> bi_nHeight (m q) \<le> T \<Longrightarrow> up m n q = Some a \<Longrightarrow>
    \<exists>us c m'. uncached_walk m params a (Some q) acc = Some (acc @ us, c) \<and> (\<forall>x \<in> set us. bi_pprev (m x) \<noteq> None) \<and>
      credit_loop m params (rev us) c = (credit_up m params (D q) q, m') \<and> same_index m m' \<and> cache_ok m' params S"
proof (induction n arbitrary: q acc)
  case 0
  then have "q = a" "D q = 0" by (simp_all add: D_def)
  then show ?case using ok by (auto simp: uncached_walk_unfold same_index_refl)
next
  case (Suc n)
  obtain q' where q': "bi_pprev (m q) = Some q'" "up m n q' = Some a" using Suc.prems(4) by (auto split: option.splits)
  have ne: "q \<noteq> a" using up_linked[OF l Suc.prems(1), of "Suc n"] Suc.prems(2,4) A by (auto simp: nat_add_distrib)
  have qS: "q' \<in> S" "hgt m q = Suc (hgt m q')" using linkedD(3)[OF l Suc.prems(1) q'(1)] by simp_all
  then have h': "q' \<in> S" "bi_nHeight (m q') = A + int n" using Suc.prems(2) linkedD(1)[OF l qS(1)] by simp_all
  have above: "anchor_at params (m q) = A" using H[OF Suc.prems(1)] Suc.prems(2,3) by simp
  then have depth: "credit_depth params (m q) = D q" by (simp add: credit_depth_def D_def)
  consider "\<not> bi_nHeight (m q) \<ge> nMatMulStallRecoveryHeight params"
    | "bi_nHeight (m q) \<ge> nMatMulStallRecoveryHeight params" "bi_nMatMulClampedAsertCreditKey (m q) = key_for params (m q)"
    | "bi_nHeight (m q) \<ge> nMatMulStallRecoveryHeight params" "bi_nMatMulClampedAsertCreditKey (m q) \<noteq> key_for params (m q)" by blast
  then show ?case
  proof cases
    case 1
    then have "D q = 0" by (simp add: D_def)
    then show ?thesis using 1 ok by (auto simp: uncached_walk_unfold same_index_refl)
  next
    case 2
    then have "bi_nMatMulClampedAsertCredit (m q) = credit_up m params (D q) q"
      using ok Suc.prems(1) depth by (simp add: cache_ok_def)
    then show ?thesis using 2 ne ok by (auto simp: uncached_walk_unfold same_index_refl)
  next
    case 3
    obtain us c m1 where IH: "uncached_walk m params a (Some q') (acc @ [q]) = Some ((acc @ [q]) @ us, c)"
      "\<forall>x \<in> set us. bi_pprev (m x) \<noteq> None" "credit_loop m params (rev us) c = (credit_up m params (D q') q', m1)"
      "same_index m m1" "cache_ok m1 params S"
      using Suc.IH[OF h' _ q'(2), of "acc @ [q]"] Suc.prems(2,3) h'(2) by auto
    have "D q = Suc (D q')" using 3 Suc.prems(2) h'(2) by (simp add: D_def nat_diff_distrib')
    then have up: "credit_up m params (D q) q = credit_after m params q q' (credit_up m params (D q') q')" by (simp add: q'(1))
    have walk: "uncached_walk m params a (Some q) acc = Some (acc @ q # us, c)"
      using 3 ne IH(1) q'(1) by (simp add: uncached_walk_unfold)
    have loop: "credit_loop m params (rev (q # us)) c =
        (if us \<noteq> [] \<and> credit_up m params (D q') q' = int64_max then (credit_up m params (D q') q', m1)
         else credit_loop m1 params [q] (credit_up m params (D q') q'))"
      using credit_loop_append[of "rev us" m params "[q]" c] IH(2,3) by simp
    show ?thesis
    proof (cases "us \<noteq> [] \<and> credit_up m params (D q') q' = int64_max")
      case True
      then have "credit_up m params (D q) q = int64_max" by (simp add: up credit_after_saturated)
      then show ?thesis using True walk loop IH q'(1) by auto
    next
      case False
      define m2 where "m2 = store_credit m1 params q (credit_up m params (D q) q)"
      have p1: "bi_pprev (m1 q) = Some q'" using same_index_fields(1)[OF IH(4)] q'(1) by simp
      have "credit_loop m1 params [q] (credit_up m params (D q') q') = (credit_up m params (D q) q, m2)"
        by (simp add: p1 same_index_credit[OF IH(4)] up m2_def Let_def)
      moreover have "same_index m m2" unfolding m2_def by (rule same_index_trans[OF IH(4) same_index_store])
      moreover have "cache_ok m2 params S" unfolding m2_def
        by (rule cache_ok_store[OF IH(5)])
          (simp add: same_index_credit_up[OF IH(4)] credit_depth_height[OF same_index_fields(3)[OF IH(4)]] depth)
      ultimately show ?thesis using False walk loop IH(2) q'(1) by auto
    qed
  qed
qed

definition credit_counts :: "Params \<Rightarrow> CBlockIndex \<Rightarrow> bool" where
  "credit_counts params b \<longleftrightarrow> IsMatMulStallRecoveryActive params (bi_nHeight b) \<and> 0 < MatMulAsertClampedMinIntervalSeconds params"

lemma MatMulAsertClampedTimeCredit_value:
  assumes l: "linked m S" and p: "p \<in> S" and ok: "cache_ok m params S"
    and A: "0 \<le> anchor_at params (m p)" "anchor_at params (m p) \<le> bi_nHeight (m p)"
    and a: "GetAncestor m p (anchor_at params (m p)) = Some a"
  shows "\<exists>m'. MatMulAsertClampedTimeCredit m (Some p) (Some a) params =
      Some (if credit_counts params (m p) then credit_up m params (credit_depth params (m p)) p else 0, m') \<and>
    same_index m m' \<and> cache_ok m' params S"
proof (cases "credit_counts params (m p)")
  case True
  let ?A = "anchor_at params (m p)"
  define n where "n = nat (bi_nHeight (m p) - ?A)"
  have up: "up m n p = Some a" using a A GetAncestor_correct[OF l p, of ?A] by (simp add: n_def nat_diff_distrib)
  have h: "bi_nHeight (m p) = ?A + int n" using A by (simp add: n_def)
  obtain us c m' where "uncached_walk m params a (Some p) [] = Some ([] @ us, c)"
    "credit_loop m params (rev us) c = (credit_up m params (credit_depth params (m p)) p, m')"
    "same_index m m'" "cache_ok m' params S"
    using clamped_credit_walk[OF l ok anchor_stable A(1) p h order_refl up, of "[]"] unfolding credit_depth_def by blast
  then show ?thesis using True by (auto simp: MatMulAsertClampedTimeCredit_def credit_counts_def)
next
  case False
  then show ?thesis using ok by (auto simp: MatMulAsertClampedTimeCredit_def credit_counts_def same_index_refl)
qed

section \<open>Bits the header check accepts\<close>

definition DeriveTarget :: "u32 \<Rightarrow> uint256 \<Rightarrow> arith_uint256 option" where
  "DeriveTarget bits pow_limit =
     (let r = SetCompact bits; bnTarget = cr_value r in
      if cr_negative r \<or> uint_EqualTo bnTarget 0 \<or> cr_overflow r \<or> uint_gt bnTarget (UintToArith256 pow_limit) then None
      else Some bnTarget)"

definition acceptable :: "Params \<Rightarrow> u32 \<Rightarrow> bool" where
  "acceptable params bits \<longleftrightarrow> DeriveTarget bits (powLimit params) \<noteq> None"

text \<open>A limit the rule may clamp to: at least 1 and not above the network's limit.\<close>

definition limit_ok :: "Params \<Rightarrow> arith_uint256 \<Rightarrow> bool" where
  "limit_ok params l \<longleftrightarrow> wf256 l \<and> 1 \<le> uval l \<and> uval l \<le> uval (UintToArith256 (powLimit params))"

lemma compact_acceptable:
  assumes t: "wf256 t" "1 \<le> uval t" "uval t \<le> uval (UintToArith256 (powLimit params))"
  shows "\<exists>b. GetCompact t False = Some b \<and> acceptable params b"
proof -
  obtain b e where b: "GetCompact t False = Some b" "\<not> cr_negative (SetCompact b)" "\<not> cr_overflow (SetCompact b)"
    "uval (cr_value (SetCompact b)) = uval t div 256 ^ e * 256 ^ e" "2 ^ 15 * (uval t - uval (cr_value (SetCompact b))) \<le> uval t"
    using GetCompact_SetCompact[OF t(1)] by blast
  define v where "v = uval (cr_value (SetCompact b))"
  have w: "wf256 (cr_value (SetCompact b))" by (rule SetCompact_all)
  have "v \<noteq> 0" using b(5) t(2) by (auto simp: v_def)
  moreover have "v \<le> uval t" using b(4) by (simp add: v_def)
  ultimately have "\<not> uint_EqualTo (cr_value (SetCompact b)) 0" "\<not> uint_gt (cr_value (SetCompact b)) (UintToArith256 (powLimit params))"
    using t(3) by (simp_all add: v_def uint_EqualTo_0[OF w] uint_order(1)[OF w UintToArith256_value(2)])
  then show ?thesis using b(1-3) by (auto simp: acceptable_def DeriveTarget_def Let_def)
qed

lemma clamp_acceptable:
  assumes "wf256 t" "limit_ok params l"
  shows "\<exists>b. GetCompact (ClampRetargetResult t l) False = Some b \<and> acceptable params b"
  using ClampRetargetResult_value[OF assms(1), of l] assms(2)
  by (intro compact_acceptable) (auto simp: limit_ok_def)

lemma limit_acceptable: "limit_ok params l \<Longrightarrow> \<exists>b. GetCompact l False = Some b \<and> acceptable params b"
  by (rule compact_acceptable) (auto simp: limit_ok_def)

lemma fail_closed_acceptable:
  "limit_ok params l \<Longrightarrow> \<exists>b. MatMulAsertFailClosedBits = Some b \<and> acceptable params b"
  unfolding MatMulAsertFailClosedBits_def by (rule compact_acceptable) (auto simp: limit_ok_def uval_u64_1)

lemma wf_decoded: "wf256 (cr_value (SetCompact b))"
  by (rule SetCompact_all)

lemma rescale_acceptable:
  assumes "limit_ok params l" shows "\<exists>b. rescale_bits old num den l = Some b \<and> acceptable params b"
proof (cases "ReduceRescaleRatioToU32 num den")
  case None
  then show ?thesis using fail_closed_acceptable[OF assms] by (simp add: rescale_bits_def)
next
  case (Some r)
  obtain rn rd where r: "r = (rn, rd)" by (cases r)
  obtain t where "ScaleTargetByTimespan (cr_value (SetCompact old)) (uint rn) (uint rd) = Some t" "wf256 t"
    using ScaleTargetByTimespan_value[OF wf_decoded[of old], of "uint rn" "uint rd"] by blast
  then show ?thesis using clamp_acceptable[OF _ assms, of t] Some r by (simp add: rescale_bits_def)
qed

lemma rc_acceptable:
  assumes l: "limit_ok params l" shows "\<exists>b. rc_bits params old h l = Some b \<and> acceptable params b"
proof (cases "IsMatMulV47EpochAActivationTuple params")
  case True
  let ?p = "cr_value (SetCompact old)"
  note fail = fail_closed_acceptable[OF l]
  show ?thesis
  proof (cases "ReduceRescaleRatioToU64 (nMatMulRCAsertRescaleNum params) (nMatMulRCAsertRescaleDen params)")
    case None
    then show ?thesis using True fail by (simp add: rc_bits_def)
  next
    case (Some r)
    obtain n d where r: "r = (n, d)" by (cases r)
    let ?t = "DeriveMatMulEpochATransitionTarget ?p (GetMatMulPreHashEpsilonBitsForHeight params (h - 1)) n d l"
    have "?t = None \<or> (\<exists>t. ?t = Some t \<and> wf256 t)"
      by (auto simp: DeriveMatMulEpochATransitionTarget_def Let_def from_wide_value)
    then show ?thesis using True fail Some r clamp_acceptable[OF _ l] by (auto simp: rc_bits_def)
  qed
qed (use rescale_acceptable[OF l] in \<open>simp add: rc_bits_def\<close>)

lemma retune_acceptable:
  assumes l: "limit_ok params l"
  shows "\<exists>b. bootstrap_bits params old l = Some b \<and> acceptable params b"
    "\<exists>b. retune_bits params old l = Some b \<and> acceptable params b"
    "\<exists>b. retune2_bits params old l = Some b \<and> acceptable params b"
    "\<exists>b. parent_bits old l = Some b \<and> acceptable params b"
proof -
  let ?p = "cr_value (SetCompact old)"
  note w = wf_decoded[of old]
  obtain t where t: "SaturatingMultiplyByUint32 ?p (nMatMulAsertBootstrapFactor params) = Some t" "wf256 t"
    using SaturatingMultiplyByUint32_value[OF w] by blast
  show "\<exists>b. bootstrap_bits params old l = Some b \<and> acceptable params b"
    using t clamp_acceptable[OF _ l, of t] clamp_acceptable[OF w l] by (simp add: bootstrap_bits_def Let_def)
  obtain u where u: "ScaleTargetByTimespan ?p (uint (nMatMulAsertRetune2TargetNum params)) (uint (nMatMulAsertRetune2TargetDen params)) = Some u" "wf256 u"
    using ScaleTargetByTimespan_value[OF w] by blast
  show "\<exists>b. retune2_bits params old l = Some b \<and> acceptable params b"
    using u clamp_acceptable[OF _ l, of u] by (simp add: retune2_bits_def)
  show "\<exists>b. parent_bits old l = Some b \<and> acceptable params b"
    using clamp_acceptable[OF w l] by (simp add: parent_bits_def)
  show "\<exists>b. retune_bits params old l = Some b \<and> acceptable params b"
  proof (cases "nMatMulAsertRetuneHardeningFactor params > 1")
    case True
    then have "0 < unat (nMatMulAsertRetuneHardeningFactor params)" by (simp add: word_less_nat_alt)
    then obtain q where "uint_div ?p (uint_of_u64 (ucast (nMatMulAsertRetuneHardeningFactor params))) = Some q" "wf256 q"
      using uint_div_u32[OF w] by metis
    then show ?thesis using True clamp_acceptable[OF _ l, of q] by (simp add: retune_bits_def Let_def)
  qed (use clamp_acceptable[OF w l] in \<open>simp add: retune_bits_def Let_def\<close>)
qed

lemma one_time_acceptable:
  assumes l: "limit_ok params l" and r: "one_time_bits params old h l = Some r"
  shows "\<exists>b. r = Some b \<and> acceptable params b"
proof -
  have "r \<in> {bootstrap_bits params old l, retune_bits params old l, retune2_bits params old l, parent_bits old l, rc_bits params old h l} \<or>
      (\<exists>num den. r = rescale_bits old num den l)"
    using r unfolding one_time_bits_def by (auto split: if_splits)
  then show ?thesis using retune_acceptable[OF l] rc_acceptable[OF l] rescale_acceptable[OF l] by auto
qed

lemma next_limit_ok:
  assumes "1 \<le> uval (UintToArith256 (powLimit params))"
  shows "limit_ok params (UintToArith256 (powLimit params))" "limit_ok params (MatMulAsertPowLimitForNextHeight params h)"
proof -
  show L: "limit_ok params (UintToArith256 (powLimit params))" using assms by (simp add: limit_ok_def UintToArith256_value)
  show "limit_ok params (MatMulAsertPowLimitForNextHeight params h)"
    using L by (auto simp: MatMulAsertPowLimitForNextHeight_def Let_def limit_ok_def UintToArith256_value uint_EqualTo_0 uint_order Suc_le_eq)
qed

lemma GetCompact_total: "wf256 a \<Longrightarrow> \<exists>c. GetCompact a False = Some c"
  using GetCompact_SetCompact[of a] by blast

lemma Validate_total: "\<exists>v. ValidateMatMulAsertParams params = Some v"
proof -
  obtain c where c: "GetCompact (UintToArith256 (powLimitUpgrade params)) False = Some c"
    using GetCompact_total[OF UintToArith256_value(2)[of "powLimitUpgrade params"]] by (rule exE)
  have "valid_pow_limit_upgrade params \<noteq> None"
    unfolding valid_pow_limit_upgrade_def Let_def c by (simp only: bind.bind_lunit option.distinct simp_thms split: if_split)
  then obtain v where v: "valid_pow_limit_upgrade params = Some v" by blast
  have "ValidateMatMulAsertParams params \<noteq> None"
    unfolding ValidateMatMulAsertParams_def v by (simp only: bind.bind_lunit option.distinct simp_thms split: if_split)
  then show ?thesis by blast
qed

lemma ValidateD:
  assumes "ValidateMatMulAsertParams params = Some True"
  shows "valid_scalars params" "valid_stall_recovery params" "valid_v4_bmx4c params" "valid_drlt params" "valid_rc params"
    "valid_coupled params" "valid_unified_heights params" "valid_no_shadowing params" "valid_retunes params"
    "valid_pow_limit_upgrade params = Some True" "valid_half_life_upgrade params"
proof -
  have "valid_scalars params \<and> valid_stall_recovery params \<and> valid_v4_bmx4c params \<and> valid_drlt params \<and> valid_rc params \<and>
    valid_coupled params \<and> valid_unified_heights params \<and> valid_no_shadowing params \<and> valid_retunes params \<and>
    valid_pow_limit_upgrade params = Some True \<and> valid_half_life_upgrade params"
    using assms unfolding ValidateMatMulAsertParams_def by (auto split: if_splits Option.bind_splits)
  then show "valid_scalars params" "valid_stall_recovery params" "valid_v4_bmx4c params" "valid_drlt params" "valid_rc params"
    "valid_coupled params" "valid_unified_heights params" "valid_no_shadowing params" "valid_retunes params"
    "valid_pow_limit_upgrade params = Some True" "valid_half_life_upgrade params" by blast+
qed

lemma half_life_positive:
  assumes "valid_scalars params" "valid_half_life_upgrade params"
  shows "0 < current_half_life_s (ResolveMatMulAsertHalfLifeInfo b params)"
  using assms by (auto simp: ResolveMatMulAsertHalfLifeInfo_def valid_scalars_def valid_half_life_upgrade_def Let_def split: option.splits)

lemma block_time_bounds: "0 \<le> GetBlockTime b" "GetBlockTime b < 2 ^ 32"
  using uint_lt2p[of "bi_nTime b"] by (simp_all add: GetBlockTime_def)

text \<open>An index the rule runs on: linked, with heights that fit 32 bits and a cache that is right.\<close>

definition asert_index :: "heap \<Rightarrow> Params \<Rightarrow> ptr set \<Rightarrow> bool" where
  "asert_index m params S \<longleftrightarrow> linked m S \<and> cache_ok m params S \<and> (\<forall>p \<in> S. bi_nHeight (m p) \<le> int32_max)"

lemma asert_index_same: "asert_index m params S \<Longrightarrow> same_index m m' \<Longrightarrow> cache_ok m' params S \<Longrightarrow> asert_index m' params S"
  by (simp add: asert_index_def same_index_linked same_index_fields)

lemma clamped_credit_range:
  assumes "linked m S" "p \<in> S" "cache_ok m params S" "0 \<le> anchor_at params (m p)" "anchor_at params (m p) \<le> bi_nHeight (m p)"
    "GetAncestor m p (anchor_at params (m p)) = Some a"
  shows "\<exists>c m'. MatMulAsertClampedTimeCredit m (Some p) (Some a) params = Some (c, m') \<and> same_index m m' \<and>
    cache_ok m' params S \<and> 0 \<le> c \<and> c \<le> int64_max"
proof -
  define c where "c = (if credit_counts params (m p) then credit_up m params (credit_depth params (m p)) p else 0)"
  have "0 \<le> c" "c \<le> int64_max" using credit_up_bounds[of m params "credit_depth params (m p)" p] by (auto simp: c_def)
  then show ?thesis using MatMulAsertClampedTimeCredit_value[OF assms] unfolding c_def[symmetric] by blast
qed

lemma anchored_acceptable:
  assumes ix: "asert_index m params S" and p: "p \<in> S" and l: "limit_ok params l"
    and v: "valid_scalars params" "valid_half_life_upgrade params" "in_i64 (nPowTargetSpacing params)"
  shows "\<exists>b m'. anchored_bits m p params l = Some (b, m') \<and> acceptable params b \<and> same_index m m' \<and> cache_ok m' params S"
proof -
  have lk: "linked m S" and ok: "cache_ok m params S" and hb: "bi_nHeight (m p) \<le> int32_max"
    using ix p by (simp_all add: asert_index_def)
  let ?A = "anchor_at params (m p)"
  note keep = same_index_refl[of m] ok
  show ?thesis
  proof (cases "?A < 0 \<or> bi_nHeight (m p) < ?A")
    case True
    then show ?thesis using limit_acceptable[OF l] keep by (auto simp: anchored_bits_def anchor_at_def Let_def)
  next
    case False
    then have A: "0 \<le> ?A" "?A \<le> bi_nHeight (m p)" by simp_all
    obtain a where a: "GetAncestor m p ?A = Some a" "bi_nHeight (m a) = ?A" using GetAncestor_exists[OF lk p A] by blast
    define t where "t = cr_value (SetCompact (bi_nBits (m a)))"
    have t: "wf256 t" by (simp add: t_def wf_decoded)
    show ?thesis
    proof (cases "uint_EqualTo t 0 \<or> uint_gt t l")
      case True
      obtain b where b: "MatMulAsertFailClosedBits = Some b" "acceptable params b" using fail_closed_acceptable[OF l] by blast
      have "anchored_bits m p params l = Some (b, m)"
        using True a False by (simp add: anchored_bits_def anchor_at_def[symmetric] t_def[symmetric] Let_def b(1))
      then show ?thesis using b(2) keep by blast
    next
      case tl: False
      then have tb: "0 < uval t" "uval t \<le> uval l" using l t by (auto simp: uint_EqualTo_0 uint_order limit_ok_def)
      obtain c m' where c: "MatMulAsertClampedTimeCredit m (Some p) (Some a) params = Some (c, m')" "same_index m m'"
        "cache_ok m' params S" "0 \<le> c" "c \<le> int64_max"
        using clamped_credit_range[OF lk p ok A a(1)] by blast
      define d where "d = GetBlockTime (m p) - GetBlockTime (m a)"
      define d' where "d' = (if c > 0 then if d > int64_max - c then int64_max else d + c else d)"
      have "in_i64 d'" using block_time_bounds[of "m p"] block_time_bounds[of "m a"] c(4,5) by (auto simp: fold_defs d'_def d_def)
      moreover have "0 \<le> bi_nHeight (m p) - ?A" "bi_nHeight (m p) - ?A < 2 ^ 32" using A hb by simp_all
      moreover have "0 < nPowTargetSpacing params" using v(1) by (simp add: valid_scalars_def)
      ultimately obtain r where r: "CalculateMatMulAsertTarget t d' (bi_nHeight (m p) - ?A)
          (current_half_life_s (ResolveMatMulAsertHalfLifeInfo (Some (m p)) params)) params l = Some r" "wf256 r" "1 \<le> uval r" "uval r \<le> uval l"
        using CalculateMatMulAsertTarget_value[OF t tb _ _ _ _ half_life_positive[OF v(1,2)] _ v(3)] l unfolding limit_ok_def by blast
      obtain b where b: "GetCompact r False = Some b" "acceptable params b"
        using compact_acceptable[OF r(2,3), of params] r(4) l by (auto simp: limit_ok_def)
      have "anchored_bits m p params l = Some (b, m')"
        using False a tl c(1) r(1) b(1)
        by (simp add: anchored_bits_def anchor_at_def[symmetric] t_def[symmetric] d_def[symmetric] d'_def[symmetric] Let_def)
      then show ?thesis using b(2) c(2,3) by blast
    qed
  qed
qed

lemma bootstrap_acceptable:
  assumes "limit_ok params (UintToArith256 (powLimit params))"
  shows "\<exists>b. FastMineBootstrapBits m g params = Some b \<and> acceptable params b"
proof -
  let ?l = "UintToArith256 (powLimit params)" and ?t = "cr_value (SetCompact (bi_nBits (m g)))"
  let ?s = "max (nFastMineDifficultyScale params) 1"
  have "1 \<le> ?s" by simp
  then have "0 < unat ?s" by (simp only: word_le_nat_alt unat_1)
  then obtain q where q: "uint_div ?l (uint_of_u64 (ucast ?s)) = Some q"
    using uint_div_u32[OF UintToArith256_value(2)] by metis
  define u where "u = (if ?s > 1 then if uint_gt ?t q then ?l else uint_mul32 ?t ?s else ?t)"
  have "wf256 u" using wf_decoded uint_mul32_correct(2)[OF wf_decoded] UintToArith256_value(2) by (auto simp: u_def)
  moreover have "FastMineBootstrapBits m g params = GetCompact (ClampRetargetResult u ?l) False"
    using q by (simp add: FastMineBootstrapBits_def Let_def u_def)
  ultimately show ?thesis using clamp_acceptable[OF _ assms] by simp
qed

section \<open>One-time rescales are applied\<close>

text \<open>The block at height \<open>h\<close> gets its parent's target times \<open>num / den\<close>, rounded down and clamped, whatever the chain.\<close>

definition rescales_at :: "Params \<Rightarrow> int \<Rightarrow> nat \<Rightarrow> nat \<Rightarrow> bool" where
  "rescales_at params h num den \<longleftrightarrow>
     (\<forall>m p. bi_nHeight (m p) + 1 = h \<longrightarrow>
       (\<exists>t b. wf256 t \<and> GetCompact t False = Some b \<and> MatMulAsert m (Some p) params = Some (b, m) \<and>
         uval t = min (uval (MatMulAsertPowLimitForNextHeight params h))
           (max 1 (min (2 ^ 256 - 1) (uval (cr_value (SetCompact (bi_nBits (m p)))) * num div den)))))"

text \<open>The bits of a branch encode such a target.\<close>

definition scaled_bits :: "u32 option \<Rightarrow> u32 \<Rightarrow> arith_uint256 \<Rightarrow> nat \<Rightarrow> nat \<Rightarrow> bool" where
  "scaled_bits r old l num den \<longleftrightarrow>
     (\<exists>t b. wf256 t \<and> GetCompact t False = Some b \<and> r = Some b \<and>
       uval t = min (uval l) (max 1 (min (2 ^ 256 - 1) (uval (cr_value (SetCompact old)) * num div den))))"

lemma scaled_bitsI:
  assumes "wf256 u" "wf256 l" "uval u = min (2 ^ 256 - 1) (uval (cr_value (SetCompact old)) * num div den)"
    "r = GetCompact (ClampRetargetResult u l) False"
  shows "scaled_bits r old l num den"
  using ClampRetargetResult_value[OF assms(1,2)] GetCompact_total[of "ClampRetargetResult u l"] assms(3,4)
  unfolding scaled_bits_def by auto

lemma rescale_bits_scaled:
  assumes "ReduceRescaleRatioToU32 num den \<noteq> None" "wf256 l"
  shows "scaled_bits (rescale_bits old num den l) old l (nat num) (nat den)"
proof -
  obtain rn rd where r: "ReduceRescaleRatioToU32 num den = Some (rn, rd)" using assms(1) by auto
  obtain u where u: "ScaleTargetByTimespan (cr_value (SetCompact old)) (uint rn) (uint rd) = Some u" "wf256 u"
    "uval u = min (2 ^ 256 - 1) (uval (cr_value (SetCompact old)) * nat num div nat den)"
    using reduced_scale[OF wf_decoded[of old] r] by blast
  show ?thesis by (rule scaled_bitsI[OF u(2) assms(2) u(3)]) (simp add: rescale_bits_def r u(1))
qed

lemma retune_bits_scaled:
  assumes l: "wf256 l"
  shows "scaled_bits (bootstrap_bits params old l) old l (max 1 (unat (nMatMulAsertBootstrapFactor params))) 1"
    "scaled_bits (retune_bits params old l) old l 1 (max 1 (unat (nMatMulAsertRetuneHardeningFactor params)))"
    "nMatMulAsertRetune2TargetNum params \<noteq> 0 \<Longrightarrow> nMatMulAsertRetune2TargetDen params \<noteq> 0 \<Longrightarrow>
      scaled_bits (retune2_bits params old l) old l (unat (nMatMulAsertRetune2TargetNum params)) (unat (nMatMulAsertRetune2TargetDen params))"
proof -
  let ?p = "cr_value (SetCompact old)"
  let ?f = "nMatMulAsertBootstrapFactor params" and ?g = "nMatMulAsertRetuneHardeningFactor params"
  note w = wf_decoded[of old]
  have pM: "min (2 ^ 256 - 1) (uval ?p) = uval ?p" by (rule min_absorb2[OF uval_le_max[OF w]])
  have small: "max 1 (unat f) = 1" if "\<not> f > 1" for f :: u32
    using that by (simp add: word_less_nat_alt max_def)
  have big: "max 1 (unat f) = unat f" if "f > 1" for f :: u32
    using that by (simp add: word_less_nat_alt max_def)
  show "scaled_bits (bootstrap_bits params old l) old l (max 1 (unat ?f)) 1"
  proof (cases "?f > 1")
    case True
    obtain t where t: "SaturatingMultiplyByUint32 ?p ?f = Some t" "wf256 t" "uval t = min (2 ^ 256 - 1) (uval ?p * unat ?f)"
      using SaturatingMultiplyByUint32_value[OF w] by blast
    show ?thesis using True t(1)
      by (intro scaled_bitsI[OF t(2) l]) (simp_all only: t(3) big[OF True] div_by_1 bootstrap_bits_def Let_def if_True bind.bind_lunit)
  next
    case False
    show ?thesis using False
      by (intro scaled_bitsI[OF w l]) (simp_all only: pM small[OF False] div_by_1 mult_1_right bootstrap_bits_def Let_def if_False bind.bind_lunit)
  qed
  show "scaled_bits (retune_bits params old l) old l 1 (max 1 (unat ?g))"
  proof (cases "?g > 1")
    case True
    then have "0 < unat ?g" by (simp add: word_less_nat_alt)
    then obtain q where q: "uint_div ?p (uint_of_u64 (ucast ?g)) = Some q" "wf256 q" "uval q = uval ?p div unat ?g"
      using uint_div_u32[OF w] by metis
    have "min (2 ^ 256 - 1) (uval q) = uval q" by (rule min_absorb2[OF uval_le_max[OF q(2)]])
    then show ?thesis using True
      by (intro scaled_bitsI[OF q(2) l]) (simp_all only: q(3) big[OF True] mult_1_right retune_bits_def Let_def if_True q(1) bind.bind_lunit)
  next
    case False
    show ?thesis using False
      by (intro scaled_bitsI[OF w l]) (simp_all only: pM small[OF False] div_by_1 mult_1_right retune_bits_def Let_def if_False bind.bind_lunit)
  qed
  assume "nMatMulAsertRetune2TargetNum params \<noteq> 0" "nMatMulAsertRetune2TargetDen params \<noteq> 0"
  then have s: "span_nat (uint (nMatMulAsertRetune2TargetNum params)) = unat (nMatMulAsertRetune2TargetNum params)"
    "span_nat (uint (nMatMulAsertRetune2TargetDen params)) = unat (nMatMulAsertRetune2TargetDen params)"
    using span_nat_u32 by (auto simp: unat_gt_0)
  obtain u where u: "ScaleTargetByTimespan ?p (uint (nMatMulAsertRetune2TargetNum params)) (uint (nMatMulAsertRetune2TargetDen params)) = Some u"
    "wf256 u" "uval u = min (2 ^ 256 - 1) (uval ?p * unat (nMatMulAsertRetune2TargetNum params) div unat (nMatMulAsertRetune2TargetDen params))"
    using ScaleTargetByTimespan_value[OF w, of "uint (nMatMulAsertRetune2TargetNum params)" "uint (nMatMulAsertRetune2TargetDen params)"]
    unfolding s by blast
  show "scaled_bits (retune2_bits params old l) old l (unat (nMatMulAsertRetune2TargetNum params)) (unat (nMatMulAsertRetune2TargetDen params))"
    by (rule scaled_bitsI[OF u(2) l u(3)]) (simp add: retune2_bits_def u(1))
qed

lemma wf_next_limit: "wf256 (MatMulAsertPowLimitForNextHeight params h)"
  by (simp add: MatMulAsertPowLimitForNextHeight_def Let_def UintToArith256_value)

lemma rescales_atI:
  assumes v: "ValidateMatMulAsertParams params = Some True" and h: "0 \<le> h" "h \<le> int32_max" "nMatMulAsertHeight params \<le> h"
    and o: "\<And>old l. one_time_bits params old h l = Some (r old l)"
    and s: "\<And>old l. wf256 l \<Longrightarrow> scaled_bits (r old l) old l num den"
  shows "rescales_at params h num den"
  unfolding rescales_at_def
proof (intro allI impI)
  fix m :: heap and p
  assume e: "bi_nHeight (m p) + 1 = h"
  let ?l = "MatMulAsertPowLimitForNextHeight params h"
  obtain t b where t: "wf256 t" "GetCompact t False = Some b" "r (bi_nBits (m p)) ?l = Some b"
    "uval t = min (uval ?l) (max 1 (min (2 ^ 256 - 1) (uval (cr_value (SetCompact (bi_nBits (m p)))) * num div den)))"
    using s[OF wf_next_limit, of "bi_nBits (m p)" params h] unfolding scaled_bits_def by blast
  have "MatMulAsert m (Some p) params = Some (b, m)"
    using h v t(3) o[of "bi_nBits (m p)" ?l] by (simp add: MatMulAsert_def e)
  then show "\<exists>t b. wf256 t \<and> GetCompact t False = Some b \<and> MatMulAsert m (Some p) params = Some (b, m) \<and>
      uval t = min (uval ?l) (max 1 (min (2 ^ 256 - 1) (uval (cr_value (SetCompact (bi_nBits (m p)))) * num div den)))"
    using t(1,2,4) by blast
qed

lemma not_shadowed:
  assumes "live h" "\<not> shadowed_by_earlier params h"
  shows "h \<noteq> nMatMulAsertHeight params" "h \<noteq> nMatMulAsertRetuneHeight params" "h \<noteq> nMatMulAsertRetune2Height params"
  using assms by (auto simp: shadowed_by_earlier_def)

lemma not_shared: "live h \<Longrightarrow> \<not> shares h hs \<Longrightarrow> x \<in> set hs \<Longrightarrow> h \<noteq> x"
  by (auto simp: shares_def list_ex_iff)

text \<open>Which branch of the cascade a validated non-inert rescale reaches.\<close>

lemma profile_branches:
  assumes v: "ValidateMatMulAsertParams params = Some True"
  shows "live (nMatMulV4Height params) \<Longrightarrow> nMatMulV4AsertRescaleNum params \<noteq> nMatMulV4AsertRescaleDen params \<Longrightarrow>
      one_time_bits params old (nMatMulV4Height params) l =
        Some (rescale_bits old (nMatMulV4AsertRescaleNum params) (nMatMulV4AsertRescaleDen params) l)"
    "live (nMatMulBMX4CHeight params) \<Longrightarrow> nMatMulBMX4CAsertRescaleNum params \<noteq> nMatMulBMX4CAsertRescaleDen params \<Longrightarrow>
      one_time_bits params old (nMatMulBMX4CHeight params) l =
        Some (rescale_bits old (nMatMulBMX4CAsertRescaleNum params) (nMatMulBMX4CAsertRescaleDen params) l)"
    "live (nMatMulDRLTHeight params) \<Longrightarrow> nMatMulDRLTAsertRescaleNum params \<noteq> nMatMulDRLTAsertRescaleDen params \<Longrightarrow>
      one_time_bits params old (nMatMulDRLTHeight params) l =
        Some (rescale_bits old (nMatMulDRLTAsertRescaleNum params) (nMatMulDRLTAsertRescaleDen params) l)"
    "live (nMatMulRCHeight params) \<Longrightarrow> nMatMulRCAsertRescaleNum params \<noteq> nMatMulRCAsertRescaleDen params \<Longrightarrow>
      one_time_bits params old (nMatMulRCHeight params) l = Some (rc_bits params old (nMatMulRCHeight params) l)"
    "live (nMatMulRCCoupledHeight params) \<Longrightarrow> nMatMulRCCoupledAsertRescaleNum params \<noteq> nMatMulRCCoupledAsertRescaleDen params \<Longrightarrow>
      one_time_bits params old (nMatMulRCCoupledHeight params) l =
        Some (rescale_bits old (nMatMulRCCoupledAsertRescaleNum params) (nMatMulRCCoupledAsertRescaleDen params) l)"
proof -
  note ns = ValidateD(8)[OF v, unfolded valid_no_shadowing_def] and uni = ValidateD(7)[OF v, unfolded valid_unified_heights_def]
  show "one_time_bits params old (nMatMulV4Height params) l =
      Some (rescale_bits old (nMatMulV4AsertRescaleNum params) (nMatMulV4AsertRescaleDen params) l)"
    if a: "live (nMatMulV4Height params)" "nMatMulV4AsertRescaleNum params \<noteq> nMatMulV4AsertRescaleDen params"
  proof -
    have s: "\<not> shadowed_by_earlier params (nMatMulV4Height params)" "\<not> shares (nMatMulV4Height params) [nMatMulRCHeight params]"
      using ns a by blast+
    have "nMatMulV4Height params \<noteq> nMatMulBMX4CHeight params" using uni a by metis
    then show ?thesis using not_shadowed[OF a(1) s(1)] not_shared[OF a(1) s(2)] by (simp add: one_time_bits_def)
  qed
  show "one_time_bits params old (nMatMulBMX4CHeight params) l =
      Some (rescale_bits old (nMatMulBMX4CAsertRescaleNum params) (nMatMulBMX4CAsertRescaleDen params) l)"
    if a: "live (nMatMulBMX4CHeight params)" "nMatMulBMX4CAsertRescaleNum params \<noteq> nMatMulBMX4CAsertRescaleDen params"
  proof -
    have s: "\<not> shadowed_by_earlier params (nMatMulBMX4CHeight params)" "\<not> shares (nMatMulBMX4CHeight params) [nMatMulRCHeight params]"
      using ns a by blast+
    show ?thesis using not_shadowed[OF a(1) s(1)] not_shared[OF a(1) s(2)] by (simp add: one_time_bits_def)
  qed
  show "one_time_bits params old (nMatMulDRLTHeight params) l =
      Some (rescale_bits old (nMatMulDRLTAsertRescaleNum params) (nMatMulDRLTAsertRescaleDen params) l)"
    if a: "live (nMatMulDRLTHeight params)" "nMatMulDRLTAsertRescaleNum params \<noteq> nMatMulDRLTAsertRescaleDen params"
  proof -
    have s: "\<not> shadowed_by_earlier params (nMatMulDRLTHeight params)"
      "\<not> shares (nMatMulDRLTHeight params) [nMatMulV4Height params, nMatMulBMX4CHeight params, nMatMulRCHeight params]"
      using ns a by blast+
    show ?thesis using not_shadowed[OF a(1) s(1)] not_shared[OF a(1) s(2)] by (simp add: one_time_bits_def)
  qed
  show "one_time_bits params old (nMatMulRCHeight params) l = Some (rc_bits params old (nMatMulRCHeight params) l)"
    if a: "live (nMatMulRCHeight params)" "nMatMulRCAsertRescaleNum params \<noteq> nMatMulRCAsertRescaleDen params"
  proof -
    have "\<not> shadowed_by_earlier params (nMatMulRCHeight params)" using ns a by blast
    then show ?thesis using not_shadowed[OF a(1)] by (simp add: one_time_bits_def)
  qed
  show "one_time_bits params old (nMatMulRCCoupledHeight params) l =
      Some (rescale_bits old (nMatMulRCCoupledAsertRescaleNum params) (nMatMulRCCoupledAsertRescaleDen params) l)"
    if a: "live (nMatMulRCCoupledHeight params)" "nMatMulRCCoupledAsertRescaleNum params \<noteq> nMatMulRCCoupledAsertRescaleDen params"
  proof -
    have s: "\<not> shadowed_by_earlier params (nMatMulRCCoupledHeight params)" "\<not> shares (nMatMulRCCoupledHeight params)
        [nMatMulV4Height params, nMatMulBMX4CHeight params, nMatMulDRLTHeight params, nMatMulRCHeight params]"
      using ns a by blast+
    show ?thesis using not_shadowed[OF a(1) s(1)] not_shared[OF a(1) s(2)] by (simp add: one_time_bits_def)
  qed
qed

lemma other_branches:
  assumes v: "ValidateMatMulAsertParams params = Some True"
  shows "one_time_bits params old (nMatMulAsertHeight params) l = Some (bootstrap_bits params old l)"
    "live (nMatMulAsertRetuneHeight params) \<Longrightarrow> nMatMulAsertRetuneHardeningFactor params > 1 \<Longrightarrow>
      one_time_bits params old (nMatMulAsertRetuneHeight params) l = Some (retune_bits params old l)"
    "live (nMatMulAsertRetune2Height params) \<Longrightarrow> nMatMulAsertRetune2TargetNum params \<noteq> nMatMulAsertRetune2TargetDen params \<Longrightarrow>
      one_time_bits params old (nMatMulAsertRetune2Height params) l = Some (retune2_bits params old l)"
    "live (nMatMulStallRecoveryHeight params) \<Longrightarrow>
      one_time_bits params old (nMatMulStallRecoveryHeight params) l =
        Some (rescale_bits old (uint (nMatMulStallRecoveryAsertNum params)) (uint (nMatMulStallRecoveryAsertDen params)) l)"
proof -
  note rt = ValidateD(9)[OF v, unfolded valid_retunes_def Let_def]
  show "one_time_bits params old (nMatMulAsertHeight params) l = Some (bootstrap_bits params old l)"
    by (simp add: one_time_bits_def)
  show "one_time_bits params old (nMatMulAsertRetuneHeight params) l = Some (retune_bits params old l)"
    if a: "live (nMatMulAsertRetuneHeight params)" "nMatMulAsertRetuneHardeningFactor params > 1"
  proof -
    have "nMatMulAsertRetuneHeight params \<noteq> nMatMulAsertHeight params" using rt a by blast
    then show ?thesis by (simp only: one_time_bits_def simp_thms if_False if_True)
  qed
  show "one_time_bits params old (nMatMulAsertRetune2Height params) l = Some (retune2_bits params old l)"
    if a: "live (nMatMulAsertRetune2Height params)" "nMatMulAsertRetune2TargetNum params \<noteq> nMatMulAsertRetune2TargetDen params"
  proof -
    have "nMatMulAsertRetune2Height params \<noteq> nMatMulAsertHeight params" using rt a by blast
    moreover have "nMatMulAsertRetune2Height params \<noteq> nMatMulAsertRetuneHeight params" using rt a by metis
    ultimately show ?thesis by (simp only: one_time_bits_def simp_thms if_False if_True)
  qed
  show "one_time_bits params old (nMatMulStallRecoveryHeight params) l =
      Some (rescale_bits old (uint (nMatMulStallRecoveryAsertNum params)) (uint (nMatMulStallRecoveryAsertDen params)) l)"
    if a: "live (nMatMulStallRecoveryHeight params)"
  proof -
    let ?s = "nMatMulStallRecoveryHeight params"
    have "\<forall>other \<in> {nMatMulAsertHeight params, nMatMulAsertRetuneHeight params, nMatMulAsertRetune2Height params,
            nMatMulV4Height params, nMatMulBMX4CHeight params, nMatMulDRLTHeight params, nMatMulRCHeight params,
            nMatMulRCCoupledHeight params, nMatMulPowLimitUpgradeHeight params, nMatMulAsertHalfLifeUpgradeHeight params}. ?s \<noteq> other"
      using ValidateD(2)[OF v, unfolded valid_stall_recovery_def] a by blast
    then show ?thesis using a by (simp add: one_time_bits_def live_def)
  qed
qed

lemma applied_at:
  assumes v: "ValidateMatMulAsertParams params = Some True" and h0: "0 \<le> nMatMulAsertHeight params"
    and h: "live h" "\<not> (live h \<and> h < nMatMulAsertHeight params)" "h \<le> int32_max"
    and o: "\<And>old l. one_time_bits params old h l = Some (r old l)" and s: "\<And>old l. wf256 l \<Longrightarrow> scaled_bits (r old l) old l num den"
  shows "rescales_at params h num den"
  by (rule rescales_atI[OF v _ h(3) _ o s]) (use h(1,2) h0 in linarith)+

lemma retunes_applied:
  assumes v: "ValidateMatMulAsertParams params = Some True" and h0: "0 \<le> nMatMulAsertHeight params" "nMatMulAsertHeight params \<le> int32_max"
    and h32: "nMatMulAsertRetuneHeight params \<le> int32_max \<and> nMatMulAsertRetune2Height params \<le> int32_max \<and> nMatMulStallRecoveryHeight params \<le> int32_max"
  shows "rescales_at params (nMatMulAsertHeight params) (unat (nMatMulAsertBootstrapFactor params)) 1"
    "live (nMatMulAsertRetuneHeight params) \<Longrightarrow> nMatMulAsertRetuneHardeningFactor params > 1 \<Longrightarrow> rescales_at params (nMatMulAsertRetuneHeight params) 1 (unat (nMatMulAsertRetuneHardeningFactor params))"
    "live (nMatMulAsertRetune2Height params) \<Longrightarrow> nMatMulAsertRetune2TargetNum params \<noteq> nMatMulAsertRetune2TargetDen params \<Longrightarrow> rescales_at params (nMatMulAsertRetune2Height params)
      (unat (nMatMulAsertRetune2TargetNum params)) (unat (nMatMulAsertRetune2TargetDen params))"
    "live (nMatMulStallRecoveryHeight params) \<Longrightarrow> rescales_at params (nMatMulStallRecoveryHeight params)
      (unat (nMatMulStallRecoveryAsertNum params)) (unat (nMatMulStallRecoveryAsertDen params))"
proof -
  note sc = ValidateD(1)[OF v, unfolded valid_scalars_def] and ge = applied_at[OF v h0(1)]
  have factor: "max 1 (unat f) = unat f" if "f \<noteq> 0" for f :: u32 using that by (simp add: max_def unat_gt_0 Suc_le_eq)
  show "rescales_at params (nMatMulAsertHeight params) (unat (nMatMulAsertBootstrapFactor params)) 1"
    by (rule rescales_atI[OF v h0 order_refl other_branches(1)[OF v]])
      (rule retune_bits_scaled(1)[of _ params, unfolded factor[OF conjunct1[OF conjunct2[OF conjunct2[OF sc]]]]])
  show "rescales_at params (nMatMulAsertRetuneHeight params) 1 (unat (nMatMulAsertRetuneHardeningFactor params))"
    if a: "live (nMatMulAsertRetuneHeight params)" "nMatMulAsertRetuneHardeningFactor params > 1"
  proof -
    have "nMatMulAsertRetuneHardeningFactor params \<noteq> 0" using sc by blast
    note s = retune_bits_scaled(2)[of _ params, unfolded factor[OF this]]
    show ?thesis using ValidateD(9)[OF v, unfolded valid_retunes_def Let_def] h32
      by (intro ge[OF a(1) _ _ other_branches(2)[OF v a] s]) blast+
  qed
  show "rescales_at params (nMatMulAsertRetune2Height params)
      (unat (nMatMulAsertRetune2TargetNum params)) (unat (nMatMulAsertRetune2TargetDen params))"
    if a: "live (nMatMulAsertRetune2Height params)" "nMatMulAsertRetune2TargetNum params \<noteq> nMatMulAsertRetune2TargetDen params"
  proof -
    have "nMatMulAsertRetune2TargetNum params \<noteq> 0" "nMatMulAsertRetune2TargetDen params \<noteq> 0" using sc by blast+
    note s = retune_bits_scaled(3)[OF _ this]
    show ?thesis using ValidateD(9)[OF v, unfolded valid_retunes_def Let_def] h32
      by (intro ge[OF a(1) _ _ other_branches(3)[OF v a] s]) blast+
  qed
  show "rescales_at params (nMatMulStallRecoveryHeight params)
      (unat (nMatMulStallRecoveryAsertNum params)) (unat (nMatMulStallRecoveryAsertDen params))"
    if a: "live (nMatMulStallRecoveryHeight params)"
  proof -
    have s: "scaled_bits (rescale_bits old (uint (nMatMulStallRecoveryAsertNum params)) (uint (nMatMulStallRecoveryAsertDen params)) l) old l
        (unat (nMatMulStallRecoveryAsertNum params)) (unat (nMatMulStallRecoveryAsertDen params))" if "wf256 l" for old l
      using rescale_bits_scaled[OF _ that, of "uint (nMatMulStallRecoveryAsertNum params)" "uint (nMatMulStallRecoveryAsertDen params)" old] sc
      by (simp only: unat_eq_nat_uint) blast
    show ?thesis using ValidateD(2)[OF v, unfolded valid_stall_recovery_def] h32
      by (intro ge[OF a _ _ other_branches(4)[OF v a] s]) (use a in blast)+
  qed
qed

lemma profiles_applied:
  assumes v: "ValidateMatMulAsertParams params = Some True" and h0: "0 \<le> nMatMulAsertHeight params" "nMatMulAsertHeight params \<le> int32_max"
    and h32: "nMatMulV4Height params \<le> int32_max \<and> nMatMulBMX4CHeight params \<le> int32_max \<and> nMatMulDRLTHeight params \<le> int32_max \<and> nMatMulRCHeight params \<le> int32_max \<and> nMatMulRCCoupledHeight params \<le> int32_max"
  shows "live (nMatMulV4Height params) \<Longrightarrow> nMatMulV4AsertRescaleNum params \<noteq> nMatMulV4AsertRescaleDen params \<Longrightarrow> rescales_at params (nMatMulV4Height params) (nat (nMatMulV4AsertRescaleNum params)) (nat (nMatMulV4AsertRescaleDen params))"
    "live (nMatMulBMX4CHeight params) \<Longrightarrow> nMatMulBMX4CAsertRescaleNum params \<noteq> nMatMulBMX4CAsertRescaleDen params \<Longrightarrow> rescales_at params (nMatMulBMX4CHeight params) (nat (nMatMulBMX4CAsertRescaleNum params)) (nat (nMatMulBMX4CAsertRescaleDen params))"
    "live (nMatMulDRLTHeight params) \<Longrightarrow> nMatMulDRLTAsertRescaleNum params \<noteq> nMatMulDRLTAsertRescaleDen params \<Longrightarrow> rescales_at params (nMatMulDRLTHeight params) (nat (nMatMulDRLTAsertRescaleNum params)) (nat (nMatMulDRLTAsertRescaleDen params))"
    "live (nMatMulRCCoupledHeight params) \<Longrightarrow> nMatMulRCCoupledAsertRescaleNum params \<noteq> nMatMulRCCoupledAsertRescaleDen params \<Longrightarrow> rescales_at params (nMatMulRCCoupledHeight params)
      (nat (nMatMulRCCoupledAsertRescaleNum params)) (nat (nMatMulRCCoupledAsertRescaleDen params))"
    "live (nMatMulRCHeight params) \<Longrightarrow> nMatMulRCAsertRescaleNum params \<noteq> nMatMulRCAsertRescaleDen params \<Longrightarrow> \<not> IsMatMulV47EpochAActivationTuple params \<Longrightarrow> rescales_at params (nMatMulRCHeight params) (nat (nMatMulRCAsertRescaleNum params)) (nat (nMatMulRCAsertRescaleDen params))"
proof -
  note ge = applied_at[OF v h0(1)]
  note R4 = ValidateD(3)[OF v, unfolded valid_v4_bmx4c_def] and RD = ValidateD(4)[OF v, unfolded valid_drlt_def]
    and RR = ValidateD(5)[OF v, unfolded valid_rc_def] and RC = ValidateD(6)[OF v, unfolded valid_coupled_def]
  show "rescales_at params (nMatMulV4Height params) (nat (nMatMulV4AsertRescaleNum params)) (nat (nMatMulV4AsertRescaleDen params))"
    if a: "live (nMatMulV4Height params)" "nMatMulV4AsertRescaleNum params \<noteq> nMatMulV4AsertRescaleDen params"
    using R4 h32 by (intro ge[OF a(1) _ _ profile_branches(1)[OF v a] rescale_bits_scaled]) blast+
  show "rescales_at params (nMatMulBMX4CHeight params) (nat (nMatMulBMX4CAsertRescaleNum params)) (nat (nMatMulBMX4CAsertRescaleDen params))"
    if a: "live (nMatMulBMX4CHeight params)" "nMatMulBMX4CAsertRescaleNum params \<noteq> nMatMulBMX4CAsertRescaleDen params"
    using R4 h32 by (intro ge[OF a(1) _ _ profile_branches(2)[OF v a] rescale_bits_scaled]) blast+
  show "rescales_at params (nMatMulDRLTHeight params) (nat (nMatMulDRLTAsertRescaleNum params)) (nat (nMatMulDRLTAsertRescaleDen params))"
    if a: "live (nMatMulDRLTHeight params)" "nMatMulDRLTAsertRescaleNum params \<noteq> nMatMulDRLTAsertRescaleDen params"
    using RD h32 by (intro ge[OF a(1) _ _ profile_branches(3)[OF v a] rescale_bits_scaled]) blast+
  show "rescales_at params (nMatMulRCCoupledHeight params)
      (nat (nMatMulRCCoupledAsertRescaleNum params)) (nat (nMatMulRCCoupledAsertRescaleDen params))"
    if a: "live (nMatMulRCCoupledHeight params)" "nMatMulRCCoupledAsertRescaleNum params \<noteq> nMatMulRCCoupledAsertRescaleDen params"
    using RC h32 by (intro ge[OF a(1) _ _ profile_branches(5)[OF v a] rescale_bits_scaled]) blast+
  show "rescales_at params (nMatMulRCHeight params) (nat (nMatMulRCAsertRescaleNum params)) (nat (nMatMulRCAsertRescaleDen params))"
    if a: "live (nMatMulRCHeight params)" "nMatMulRCAsertRescaleNum params \<noteq> nMatMulRCAsertRescaleDen params"
      and n: "\<not> IsMatMulV47EpochAActivationTuple params"
  proof -
    have b: "rc_bits params old (nMatMulRCHeight params) l =
        rescale_bits old (nMatMulRCAsertRescaleNum params) (nMatMulRCAsertRescaleDen params) l" for old l
      using n by (simp add: rc_bits_def)
    have RR': "\<not> (live (nMatMulRCHeight params) \<and> nMatMulRCHeight params < nMatMulAsertHeight params)"
      "ReduceRescaleRatioToU32 (nMatMulRCAsertRescaleNum params) (nMatMulRCAsertRescaleDen params) \<noteq> None"
      "nMatMulRCHeight params \<le> int32_max"
      using RR h32 unfolding if_not_P[OF n] by blast+
    show ?thesis by (rule ge[OF a(1) RR'(1,3) profile_branches(4)[OF v a, unfolded b] rescale_bits_scaled[OF RR'(2)]])
  qed
qed

section \<open>The Epoch A transition\<close>

text \<open>The target of the transition: the parent's target times the fraction of nonces its pre-hash lets through (the
  parent's target shifted by the pre-hash bits of the parent's height, over \<open>2^256\<close>) times \<open>num / den\<close>, rounded
  down, at most the limit and at least 1.\<close>

definition transition_target :: "Params \<Rightarrow> int \<Rightarrow> nat \<Rightarrow> nat \<Rightarrow> nat \<Rightarrow> nat" where
  "transition_target params h old num den =
     max 1 (min (uval (MatMulAsertPowLimitForNextHeight params h))
       (old * min (2 ^ 256 - 1) (old * 2 ^ unat (GetMatMulPreHashEpsilonBitsForHeight params (h - 1))) * num
         div (den * 2 ^ 256)))"

definition transition_at :: "Params \<Rightarrow> int \<Rightarrow> nat \<Rightarrow> nat \<Rightarrow> bool" where
  "transition_at params h num den \<longleftrightarrow>
     (\<forall>m p. bi_nHeight (m p) + 1 = h \<longrightarrow>
       (\<exists>t b. wf256 t \<and> GetCompact t False = Some b \<and> MatMulAsert m (Some p) params = Some (b, m) \<and>
         uval t = transition_target params h (uval (cr_value (SetCompact (bi_nBits (m p))))) num den))"

lemma reduced_quotient:
  assumes "rn * den = rd * (num :: nat)" "0 < den" "0 < rd"
  shows "x * rn div (rd * k) = x * num div (den * k)"
proof -
  have e: "x * rn * den = x * num * rd" unfolding mult.assoc assms(1) by (simp only: ac_simps)
  have "x * rn div (rd * k) = (x * rn * den) div (rd * k * den)" using assms(2) by simp
  also have "\<dots> = (x * num * rd) div (den * k * rd)" unfolding e by (simp only: ac_simps)
  also have "\<dots> = x * num div (den * k)" using assms(3) by simp
  finally show ?thesis .
qed

lemma rc_bits_transition:
  fixes h :: int
  assumes ep: "IsMatMulV47EpochAActivationTuple params"
    and nd: "0 < nMatMulRCAsertRescaleNum params" "nMatMulRCAsertRescaleNum params \<le> int64_max"
      "0 < nMatMulRCAsertRescaleDen params" "nMatMulRCAsertRescaleDen params \<le> int64_max"
  defines "l \<equiv> MatMulAsertPowLimitForNextHeight params h"
  shows "\<exists>t b. wf256 t \<and> GetCompact t False = Some b \<and> rc_bits params old h l = Some b \<and>
    uval t = transition_target params h (uval (cr_value (SetCompact old)))
      (nat (nMatMulRCAsertRescaleNum params)) (nat (nMatMulRCAsertRescaleDen params))"
proof -
  let ?p = "cr_value (SetCompact old)" and ?eps = "GetMatMulPreHashEpsilonBitsForHeight params (h - 1)"
  let ?num = "nat (nMatMulRCAsertRescaleNum params)" and ?den = "nat (nMatMulRCAsertRescaleDen params)"
  obtain rn rd where r: "ReduceRescaleRatioToU64 (nMatMulRCAsertRescaleNum params) (nMatMulRCAsertRescaleDen params) = Some (rn, rd)"
    "rn \<noteq> 0" "rd \<noteq> 0" "unat rn * ?den = unat rd * ?num" by (rule ReduceRescaleRatioToU64_value[OF nd])
  have pos: "0 < ?den" "0 < unat rd" using nd(3) r(3) by (simp_all add: unat_gt_0)
  have wl: "wf256 l" unfolding l_def by (rule wf_next_limit)
  show ?thesis
  proof (cases "uval ?p = 0 \<or> uval l = 0")
    case True
    then have "DeriveMatMulEpochATransitionTarget ?p ?eps rn rd l = None"
      by (auto simp: DeriveMatMulEpochATransitionTarget_def uint_EqualTo_0[OF wf_decoded] uint_EqualTo_0[OF wl])
    then have rc: "rc_bits params old h l = GetCompact (uint_of_u64 1) False"
      using ep r(1) by (simp add: rc_bits_def MatMulAsertFailClosedBits_def)
    have "transition_target params h (uval ?p) ?num ?den = 1"
      using True unfolding transition_target_def l_def[symmetric] by auto
    then show ?thesis using GetCompact_total[of "uint_of_u64 1"] rc uval_u64_1 by auto
  next
    case False
    then have nz: "uval ?p \<noteq> 0" "uval l \<noteq> 0" by simp_all
    obtain t where t: "DeriveMatMulEpochATransitionTarget ?p ?eps rn rd l = Some t" "wf256 t"
      "uval t = max 1 (min (uval l) (uval ?p * min (2 ^ 256 - 1) (uval ?p * 2 ^ unat ?eps) * unat rn div (unat rd * 2 ^ 256)))"
      using DeriveMatMulEpochATransitionTarget_value[OF wf_decoded wl nz(1) r(2,3) nz(2), of ?eps] by blast
    have u: "uval t = transition_target params h (uval ?p) ?num ?den"
      unfolding t(3) reduced_quotient[OF r(4) pos] transition_target_def l_def[symmetric] by (rule refl)
    have "uval t \<le> uval l" "1 \<le> uval t" unfolding t(3) using nz(2) by simp_all
    then have c: "uval (ClampRetargetResult t l) = uval t" "wf256 (ClampRetargetResult t l)"
      using ClampRetargetResult_value[OF t(2) wl] by simp_all
    have "rc_bits params old h l = GetCompact (ClampRetargetResult t l) False" using ep r(1) t(1) by (simp add: rc_bits_def)
    then show ?thesis using GetCompact_total[OF c(2)] c u by auto
  qed
qed

lemma transition_applied:
  assumes v: "ValidateMatMulAsertParams params = Some True" and h0: "0 \<le> nMatMulAsertHeight params"
    and h: "live (nMatMulRCHeight params)" "nMatMulRCHeight params \<le> int32_max"
    and ratio: "nMatMulRCAsertRescaleNum params \<noteq> nMatMulRCAsertRescaleDen params"
      "nMatMulRCAsertRescaleNum params \<le> int64_max" "nMatMulRCAsertRescaleDen params \<le> int64_max"
    and ep: "IsMatMulV47EpochAActivationTuple params"
  shows "transition_at params (nMatMulRCHeight params)
    (nat (nMatMulRCAsertRescaleNum params)) (nat (nMatMulRCAsertRescaleDen params))"
  unfolding transition_at_def
proof (intro allI impI)
  fix m :: heap and p
  let ?h = "nMatMulRCHeight params" and ?old = "bi_nBits (m p)"
  let ?l = "MatMulAsertPowLimitForNextHeight params ?h"
  assume e: "bi_nHeight (m p) + 1 = ?h"
  note RR = ValidateD(5)[OF v, unfolded valid_rc_def]
  have some: "ReduceRescaleRatioToU64 (nMatMulRCAsertRescaleNum params) (nMatMulRCAsertRescaleDen params) \<noteq> None"
    and ge: "nMatMulAsertHeight params \<le> ?h" using RR ep h(1) by auto
  have pos: "0 < nMatMulRCAsertRescaleNum params" "0 < nMatMulRCAsertRescaleDen params"
    using some by (auto simp: ReduceRescaleRatioToU64_def split: if_splits)
  obtain t b where t: "wf256 t" "GetCompact t False = Some b" "rc_bits params ?old ?h ?l = Some b"
    "uval t = transition_target params ?h (uval (cr_value (SetCompact ?old)))
      (nat (nMatMulRCAsertRescaleNum params)) (nat (nMatMulRCAsertRescaleDen params))"
    using rc_bits_transition[OF ep pos(1) ratio(2) pos(2) ratio(3), of ?old ?h] by blast
  have "MatMulAsert m (Some p) params = Some (b, m)"
    using h(2) h0 ge v t(3) profile_branches(4)[OF v h(1) ratio(1), of ?old ?l] by (simp add: MatMulAsert_def e)
  with t show "\<exists>t b. wf256 t \<and> GetCompact t False = Some b \<and> MatMulAsert m (Some p) params = Some (b, m) \<and>
      uval t = transition_target params ?h (uval (cr_value (SetCompact ?old)))
        (nat (nMatMulRCAsertRescaleNum params)) (nat (nMatMulRCAsertRescaleDen params))" by blast
qed

section \<open>Properties\<close>

text \<open>C38: The required bits are always acceptable. On a linked index with a correct cache, whatever bits, times and
  parameters it holds, \<open>MatMulAsert\<close> returns bits that \<open>DeriveTarget\<close> accepts, a target between 1 and the limit;
  it changes nothing but the cache, and leaves the cache correct.\<close>

theorem matmul_asert_acceptable:
  assumes ix: "asert_index m params S" and p: "p \<in> S" and L: "1 \<le> uval (UintToArith256 (powLimit params))"
    and sp: "in_i64 (nPowTargetSpacing params)"
  shows "\<exists>b m'. MatMulAsert m (Some p) params = Some (b, m') \<and> acceptable params b \<and> same_index m m' \<and> asert_index m' params S"
proof -
  let ?h = "bi_nHeight (m p) + 1"
  let ?l = "MatMulAsertPowLimitForNextHeight params ?h"
  note lim = next_limit_ok[OF L]
  have ok: "cache_ok m params S" using ix by (simp add: asert_index_def)
  have keep: ?thesis if "\<exists>b. r = Some b \<and> acceptable params b" "MatMulAsert m (Some p) params = do { bits \<leftarrow> r; Some (bits, m) }" for r
    using that ix same_index_refl[of m] by auto
  obtain v where v: "ValidateMatMulAsertParams params = Some v" using Validate_total by blast
  consider (range) "?h < 0 \<or> ?h > int32_max" | (boot) "\<not> (?h < 0 \<or> ?h > int32_max)" "?h < nMatMulAsertHeight params"
    | (bad) "\<not> (?h < 0 \<or> ?h > int32_max)" "\<not> ?h < nMatMulAsertHeight params" "\<not> v"
    | (once) r where "\<not> (?h < 0 \<or> ?h > int32_max)" "\<not> ?h < nMatMulAsertHeight params" v "one_time_bits params (bi_nBits (m p)) ?h ?l = Some r"
    | (anchor) "\<not> (?h < 0 \<or> ?h > int32_max)" "\<not> ?h < nMatMulAsertHeight params" v "one_time_bits params (bi_nBits (m p)) ?h ?l = None"
    by blast
  then show ?thesis
  proof cases
    case range
    then show ?thesis by (intro keep[OF limit_acceptable[OF lim(1)]]) (simp add: MatMulAsert_def)
  next
    case boot
    let ?r = "case FindGenesisBlockIndex m (Some p) of None \<Rightarrow> GetCompact ?l False | Some g \<Rightarrow> FastMineBootstrapBits m g params"
    have "\<exists>b. ?r = Some b \<and> acceptable params b"
      using limit_acceptable[OF lim(2)] bootstrap_acceptable[OF lim(1)] by (simp split: option.splits)
    then show ?thesis by (rule keep) (use boot in \<open>simp add: MatMulAsert_def Let_def\<close>)
  next
    case bad
    then show ?thesis by (intro keep[OF fail_closed_acceptable[OF lim(1)]]) (simp add: MatMulAsert_def v Let_def)
  next
    case once
    then show ?thesis by (intro keep[OF one_time_acceptable[OF lim(2) once(4)]]) (simp add: MatMulAsert_def v Let_def)
  next
    case anchor
    have "MatMulAsert m (Some p) params = anchored_bits m p params ?l" using anchor by (simp add: MatMulAsert_def v Let_def)
    moreover have "ValidateMatMulAsertParams params = Some True" using v anchor(3) by simp
    ultimately show ?thesis
      using anchored_acceptable[OF ix p lim(2) ValidateD(1) ValidateD(11) sp] asert_index_same[OF ix] by metis
  qed
qed

text \<open>Example parameters and an index of two entries whose second block sits at its time cap.\<close>

definition example_params :: Params where
  "example_params = (Params_init 210000 (replicate 32 255) False False False 90 1209600)
     \<lparr>fMatMulPOW := True, nMatMulAsertHeight := 0, nMatMulStallRecoveryHeight := 0, nMatMulMaxBlockTimeAdvance := 3\<rparr>"

definition clamp_heap :: heap where
  "clamp_heap = (\<lambda>p. let b = CBlockIndex_init CBlockHeader_SetNull in
     if p = [1] then b\<lparr>bi_pprev := Some [0], bi_nHeight := 1, bi_nTime := 103\<rparr> else b\<lparr>bi_nTime := 100\<rparr>)"

lemmas clamp_defs = clamp_heap_def Let_def CBlockIndex_init_def
lemmas example_defs = example_params_def Params_init_def

lemma key_for_nonzero: "key_for params b \<noteq> 0"
  by (simp add: key_for_def ClampedAsertCreditCacheKey_def Let_def)

lemma cache_ok_fresh: "(\<And>p. p \<in> S \<Longrightarrow> bi_nMatMulClampedAsertCreditKey (m p) = 0) \<Longrightarrow> cache_ok m params S"
  using key_for_nonzero[symmetric] by (simp add: cache_ok_def)

lemma clamp_index: "asert_index clamp_heap params {[0], [1]}"
proof -
  have "linked clamp_heap {[0], [1]}" by (simp add: linked_def linked_entry_def clamp_defs)
  moreover have "cache_ok clamp_heap params {[0], [1]}" by (rule cache_ok_fresh) (auto simp: clamp_defs)
  ultimately show ?thesis by (simp add: asert_index_def clamp_defs)
qed

theorem matmul_asert_acceptable_witness:
  "\<exists>b m'. MatMulAsert clamp_heap (Some [1]) example_params = Some (b, m') \<and> acceptable example_params b"
proof -
  have "uval (UintToArith256 (replicate 32 255)) = le_value (replicate 32 255)" by (rule UintToArith256_value) simp
  moreover have "replicate 32 255 = (255 :: u8) # replicate 31 255" by (simp flip: replicate_Suc)
  then have "1 \<le> le_value (replicate 32 (255 :: u8))" by (simp only: le_value.simps) simp
  ultimately have "1 \<le> uval (UintToArith256 (replicate 32 255))" by (simp only:)
  moreover have "powLimit example_params = replicate 32 255" "nPowTargetSpacing example_params = 90" by (simp_all add: example_defs)
  ultimately show ?thesis
    using matmul_asert_acceptable[OF clamp_index, of "[1]" example_params] by (auto simp: fold_defs)
qed

text \<open>C39: The credit cache is exact. For the anchor of its tip, the cached walk returns exactly the credit recomputed
  block by block from the anchor (or from the recovery height) up to the tip, touches nothing but the cache, and
  leaves every cached credit right for the tip it is stored at; a fresh index has a right cache.\<close>

theorem clamped_credit_cache_exact:
  assumes ix: "asert_index m params S" and p: "p \<in> S"
    and A: "0 \<le> anchor_at params (m p)" "anchor_at params (m p) \<le> bi_nHeight (m p)"
  shows "(\<exists>a m'. GetAncestor m p (anchor_at params (m p)) = Some a \<and>
      MatMulAsertClampedTimeCredit m (Some p) (Some a) params =
        Some (if credit_counts params (m p) then credit_up m params (credit_depth params (m p)) p else 0, m') \<and>
      same_index m m' \<and> asert_index m' params S) \<and>
    ((\<forall>q. bi_nMatMulClampedAsertCreditKey (h q) = 0) \<longrightarrow> cache_ok h params S)"
proof
  have l: "linked m S" and ok: "cache_ok m params S" using ix by (simp_all add: asert_index_def)
  obtain a where a: "GetAncestor m p (anchor_at params (m p)) = Some a" using GetAncestor_exists[OF l p A] by blast
  show "\<exists>a m'. GetAncestor m p (anchor_at params (m p)) = Some a \<and>
      MatMulAsertClampedTimeCredit m (Some p) (Some a) params =
        Some (if credit_counts params (m p) then credit_up m params (credit_depth params (m p)) p else 0, m') \<and>
      same_index m m' \<and> asert_index m' params S"
    using a MatMulAsertClampedTimeCredit_value[OF l p ok A a] asert_index_same[OF ix] by blast
  show "(\<forall>q. bi_nMatMulClampedAsertCreditKey (h q) = 0) \<longrightarrow> cache_ok h params S" by (simp add: cache_ok_fresh)
qed

theorem clamped_credit_cache_exact_witness:
  "\<exists>a m'. MatMulAsertClampedTimeCredit clamp_heap (Some [1]) (Some a) example_params = Some (87, m')"
proof -
  let ?P = example_params and ?m = clamp_heap
  have P: "nMatMulStallRecoveryHeight ?P = 0" "fMatMulPOW ?P" "nMatMulMaxBlockTimeAdvance ?P = 3" "nPowTargetSpacing ?P = 90"
    "nMatMulAsertClampedMinInterval ?P = 0" "nMatMulMaxFutureMtpDriftHeight ?P = int32_max"
    by (simp_all add: example_defs)
  have M: "bi_nHeight (?m [1]) = 1" "bi_pprev (?m [1]) = Some [0]" "bi_pprev (?m [0]) = None"
    "GetBlockTime (?m [0]) = 100" "GetBlockTime (?m [1]) = 103"
    by (simp_all add: GetBlockTime_def clamp_defs)
  have A: "anchor_at example_params (clamp_heap [1]) = 0"
    by (simp add: anchor_at_def ResolveMatMulAsertHalfLifeInfo_def LatestMatMulAsertPreUpgradeAnchorHeight_def later_anchor_def
        IsMatMulAsertHalfLifeUpgradeConfigured_def IsDisabledHeight_def example_defs clamp_defs)
  have "past_times clamp_heap (Suc 10) (Some [0]) = [100]" by (simp only: past_times.simps M)
  then have g: "GetMedianTimePast clamp_heap [0] = 100" by (simp add: GetMedianTimePast_def nMedianTimeSpan_def)
  have "credit_depth example_params (clamp_heap [1]) = 1" by (simp add: credit_depth_def A P M)
  moreover have "credit_up clamp_heap example_params 1 [1] = 87"
    using g by (simp add: credit_after_def MaxMatMulAllowedBlockTime_def MaxMatMulFutureBlockTime_def MaxMatMulParentTimeAdvance_def
        IsMatMulMaxFutureMtpDriftActive_def IsMatMulStallRecoveryActive_def MatMulAsertClampedMinIntervalSeconds_def P M)
  moreover have "credit_counts example_params (clamp_heap [1])"
    by (simp add: credit_counts_def IsMatMulStallRecoveryActive_def MatMulAsertClampedMinIntervalSeconds_def P M)
  ultimately show ?thesis using clamped_credit_cache_exact[OF clamp_index, of "[1]" example_params clamp_heap] A M(1) by auto
qed

text \<open>C40: No configured rescale is lost. When the parameters pass validation, every one-time rescale that would change
  the target (the bootstrap, both retunes, the v4, BMX4C, DRLT, RC and coupled profiles, and stall recovery) is the
  one applied at its height: the block there gets exactly its parent's target times its own ratio, rounded down and
  clamped, although several heights may coincide and the cascade takes the first branch that matches. Under the
  Epoch A tuple the RC ratio is applied at the RC height through the Epoch A transition instead, which also multiplies
  by the pass fraction of the parent's pre-hash; the block gets exactly that target.\<close>

theorem validated_rescales_applied:
  assumes v: "ValidateMatMulAsertParams params = Some True" and h0: "0 \<le> nMatMulAsertHeight params" "nMatMulAsertHeight params \<le> int32_max"
    and h32: "\<forall>h \<in> {nMatMulAsertRetuneHeight params, nMatMulAsertRetune2Height params, nMatMulV4Height params, nMatMulBMX4CHeight params,
      nMatMulDRLTHeight params, nMatMulRCHeight params, nMatMulRCCoupledHeight params, nMatMulStallRecoveryHeight params}. h \<le> int32_max"
  shows "rescales_at params (nMatMulAsertHeight params) (unat (nMatMulAsertBootstrapFactor params)) 1 \<and>
    (live (nMatMulAsertRetuneHeight params) \<and> nMatMulAsertRetuneHardeningFactor params > 1 \<longrightarrow>
      rescales_at params (nMatMulAsertRetuneHeight params) 1 (unat (nMatMulAsertRetuneHardeningFactor params))) \<and>
    (live (nMatMulAsertRetune2Height params) \<and> nMatMulAsertRetune2TargetNum params \<noteq> nMatMulAsertRetune2TargetDen params \<longrightarrow>
      rescales_at params (nMatMulAsertRetune2Height params)
        (unat (nMatMulAsertRetune2TargetNum params)) (unat (nMatMulAsertRetune2TargetDen params))) \<and>
    (live (nMatMulV4Height params) \<and> nMatMulV4AsertRescaleNum params \<noteq> nMatMulV4AsertRescaleDen params \<longrightarrow>
      rescales_at params (nMatMulV4Height params) (nat (nMatMulV4AsertRescaleNum params)) (nat (nMatMulV4AsertRescaleDen params))) \<and>
    (live (nMatMulBMX4CHeight params) \<and> nMatMulBMX4CAsertRescaleNum params \<noteq> nMatMulBMX4CAsertRescaleDen params \<longrightarrow>
      rescales_at params (nMatMulBMX4CHeight params) (nat (nMatMulBMX4CAsertRescaleNum params)) (nat (nMatMulBMX4CAsertRescaleDen params))) \<and>
    (live (nMatMulDRLTHeight params) \<and> nMatMulDRLTAsertRescaleNum params \<noteq> nMatMulDRLTAsertRescaleDen params \<longrightarrow>
      rescales_at params (nMatMulDRLTHeight params) (nat (nMatMulDRLTAsertRescaleNum params)) (nat (nMatMulDRLTAsertRescaleDen params))) \<and>
    (live (nMatMulRCHeight params) \<and> nMatMulRCAsertRescaleNum params \<noteq> nMatMulRCAsertRescaleDen params \<and>
      \<not> IsMatMulV47EpochAActivationTuple params \<longrightarrow>
      rescales_at params (nMatMulRCHeight params) (nat (nMatMulRCAsertRescaleNum params)) (nat (nMatMulRCAsertRescaleDen params))) \<and>
    (live (nMatMulRCHeight params) \<and> nMatMulRCAsertRescaleNum params \<noteq> nMatMulRCAsertRescaleDen params \<and>
      nMatMulRCAsertRescaleNum params \<le> int64_max \<and> nMatMulRCAsertRescaleDen params \<le> int64_max \<and>
      IsMatMulV47EpochAActivationTuple params \<longrightarrow>
      transition_at params (nMatMulRCHeight params) (nat (nMatMulRCAsertRescaleNum params)) (nat (nMatMulRCAsertRescaleDen params))) \<and>
    (live (nMatMulRCCoupledHeight params) \<and> nMatMulRCCoupledAsertRescaleNum params \<noteq> nMatMulRCCoupledAsertRescaleDen params \<longrightarrow>
      rescales_at params (nMatMulRCCoupledHeight params)
        (nat (nMatMulRCCoupledAsertRescaleNum params)) (nat (nMatMulRCCoupledAsertRescaleDen params))) \<and>
    (live (nMatMulStallRecoveryHeight params) \<longrightarrow>
      rescales_at params (nMatMulStallRecoveryHeight params)
        (unat (nMatMulStallRecoveryAsertNum params)) (unat (nMatMulStallRecoveryAsertDen params)))"
proof -
  have r: "nMatMulAsertRetuneHeight params \<le> int32_max \<and> nMatMulAsertRetune2Height params \<le> int32_max \<and> nMatMulStallRecoveryHeight params \<le> int32_max"
    and b: "nMatMulV4Height params \<le> int32_max \<and> nMatMulBMX4CHeight params \<le> int32_max \<and> nMatMulDRLTHeight params \<le> int32_max \<and>
      nMatMulRCHeight params \<le> int32_max \<and> nMatMulRCCoupledHeight params \<le> int32_max" using h32 by simp_all
  show ?thesis
    by (intro conjI impI retunes_applied[OF v h0 r] profiles_applied[OF v h0 b] transition_applied[OF v h0(1)])
      (use b in blast)+
qed

text \<open>Parameters with a v4 rescale of 3/2 at height 100, above ASERT activation at 50.\<close>

definition staged_params :: Params where
  "staged_params = (Params_init 210000 (replicate 32 255) False False False 90 1209600)
     \<lparr>fMatMulPOW := True, nMatMulAsertHeight := 50, nMatMulV4Height := 100, nMatMulV4AsertRescaleNum := 3,
      nMatMulV4AsertRescaleDen := 2\<rparr>"

lemma ReduceRescale_coprime:
  "coprime num den \<Longrightarrow> 0 < num \<Longrightarrow> 0 < den \<Longrightarrow> num \<le> uint32_max \<Longrightarrow> den \<le> uint32_max \<Longrightarrow> ReduceRescaleRatioToU32 num den \<noteq> None"
  by (simp add: ReduceRescaleRatioToU32_def coprime_iff_gcd_eq_1)

lemma staged_fields:
  shows "nMatMulAsertHalfLife staged_params = 14400" "nPowTargetSpacing staged_params = 90" "nMatMulAsertBootstrapFactor staged_params = 1" "nMatMulAsertRetuneHardeningFactor staged_params = 1"
    "nMatMulAsertRetune2TargetNum staged_params = 1" "nMatMulAsertRetune2TargetDen staged_params = 1" "nMatMulStallRecoveryAsertNum staged_params = 1" "nMatMulStallRecoveryAsertDen staged_params = 1"
    "nMatMulMaxBlockTimeAdvance staged_params = 1080" "nMatMulAsertClampedMinInterval staged_params = 0" "nMatMulAsertHeight staged_params = 50" "nMatMulV4Height staged_params = 100"
    "nMatMulV4AsertRescaleNum staged_params = 3" "nMatMulV4AsertRescaleDen staged_params = 2" "nMatMulStallRecoveryHeight staged_params = int32_max" "nMatMulAsertRetuneHeight staged_params = int32_max"
    "nMatMulAsertRetune2Height staged_params = int32_max" "nMatMulBMX4CHeight staged_params = int32_max" "nMatMulDRLTHeight staged_params = int32_max" "nMatMulRCHeight staged_params = int32_max"
    "nMatMulRCCoupledHeight staged_params = int32_max" "nMatMulPowLimitUpgradeHeight staged_params = int32_max" "nMatMulAsertHalfLifeUpgradeHeight staged_params = int32_max" "nMatMulBMX4CAsertRescaleNum staged_params = 1"
    "nMatMulBMX4CAsertRescaleDen staged_params = 1" "nMatMulDRLTAsertRescaleNum staged_params = 1" "nMatMulDRLTAsertRescaleDen staged_params = 1" "nMatMulRCAsertRescaleNum staged_params = 1"
    "nMatMulRCAsertRescaleDen staged_params = 1" "nMatMulRCCoupledAsertRescaleNum staged_params = 1" "nMatMulRCCoupledAsertRescaleDen staged_params = 1"
  by (simp_all add: staged_params_def Params_init_def)

lemma staged_valid: "ValidateMatMulAsertParams staged_params = Some True"
proof -
  let ?p = staged_params
  note F = staged_fields live_def IsDisabledHeight_def
  have r: "ReduceRescaleRatioToU32 1 1 \<noteq> None" "ReduceRescaleRatioToU32 3 2 \<noteq> None" by (simp_all add: ReduceRescale_coprime)
  have "\<not> IsMatMulV47EpochAActivationTuple ?p" by (simp add: IsMatMulV47EpochAActivationTuple_def F)
  then have "valid_scalars ?p" "valid_v4_bmx4c ?p" "valid_drlt ?p" "valid_rc ?p" "valid_coupled ?p"
    using r by (simp_all add: valid_scalars_def valid_v4_bmx4c_def valid_drlt_def valid_rc_def valid_coupled_def F del: not_None_eq)
  moreover have "valid_stall_recovery ?p" "valid_unified_heights ?p" "valid_retunes ?p" "valid_half_life_upgrade ?p" "valid_pow_limit_upgrade ?p = Some True"
    by (simp_all add: valid_stall_recovery_def valid_unified_heights_def valid_retunes_def valid_half_life_upgrade_def
        valid_pow_limit_upgrade_def IsMatMulPowLimitUpgradeConfigured_def IsMatMulAsertHalfLifeUpgradeConfigured_def F)
  moreover have "valid_no_shadowing ?p" by (simp add: valid_no_shadowing_def shadowed_by_earlier_def shares_def F)
  ultimately show ?thesis by (simp add: ValidateMatMulAsertParams_def)
qed

text \<open>Parameters with the Epoch A tuple at height 100 and an attempt-rate ratio of 3/2.\<close>

definition epoch_params :: Params where
  "epoch_params = (Params_init 210000 (replicate 32 255) False False False 90 1209600)
     \<lparr>fMatMulPOW := True, nMatMulAsertHeight := 50, nMatMulV4Height := 100, nMatMulBMX4CHeight := 100,
      nMatMulRCHeight := 100, nMatMulRCProfile := 1, nMatMulHeaderPoWDiscountBits := 0xffffffff,
      fMatMulRCUseToyDims := False, fMatMulRCCoupledUseToyDims := False, fMatMulLTSealAsPoW := False,
      nMatMulRCAsertRescaleNum := 3, nMatMulRCAsertRescaleDen := 2\<rparr>"

lemma epoch_fields:
  shows "nMatMulAsertHalfLife epoch_params = 14400" "nPowTargetSpacing epoch_params = 90" "nMatMulAsertBootstrapFactor epoch_params = 1" "nMatMulAsertRetuneHardeningFactor epoch_params = 1"
    "nMatMulAsertRetune2TargetNum epoch_params = 1" "nMatMulAsertRetune2TargetDen epoch_params = 1" "nMatMulStallRecoveryAsertNum epoch_params = 1" "nMatMulStallRecoveryAsertDen epoch_params = 1"
    "nMatMulMaxBlockTimeAdvance epoch_params = 1080" "nMatMulAsertClampedMinInterval epoch_params = 0" "nMatMulAsertHeight epoch_params = 50" "nMatMulV4Height epoch_params = 100"
    "nMatMulV4AsertRescaleNum epoch_params = 1" "nMatMulV4AsertRescaleDen epoch_params = 1" "nMatMulStallRecoveryHeight epoch_params = int32_max" "nMatMulAsertRetuneHeight epoch_params = int32_max"
    "nMatMulAsertRetune2Height epoch_params = int32_max" "nMatMulBMX4CHeight epoch_params = 100" "nMatMulDRLTHeight epoch_params = int32_max" "nMatMulRCHeight epoch_params = 100"
    "nMatMulRCCoupledHeight epoch_params = int32_max" "nMatMulPowLimitUpgradeHeight epoch_params = int32_max" "nMatMulAsertHalfLifeUpgradeHeight epoch_params = int32_max" "nMatMulBMX4CAsertRescaleNum epoch_params = 1"
    "nMatMulBMX4CAsertRescaleDen epoch_params = 1" "nMatMulDRLTAsertRescaleNum epoch_params = 1" "nMatMulDRLTAsertRescaleDen epoch_params = 1" "nMatMulRCAsertRescaleNum epoch_params = 3"
    "nMatMulRCAsertRescaleDen epoch_params = 2" "nMatMulRCCoupledAsertRescaleNum epoch_params = 1" "nMatMulRCCoupledAsertRescaleDen epoch_params = 1"
  by (simp_all add: epoch_params_def Params_init_def)

lemma epoch_tuple: "IsMatMulV47EpochAActivationTuple epoch_params"
proof -
  have "nMatMulRCProfile epoch_params = 1" "\<not> fMatMulRCUseToyDims epoch_params" "\<not> fMatMulRCCoupledUseToyDims epoch_params"
    "\<not> fMatMulLTSealAsPoW epoch_params" "\<not> IsMatMulHeaderPoWEnabled epoch_params"
    by (simp_all add: epoch_params_def IsMatMulHeaderPoWEnabled_def)
  then show ?thesis by (simp add: IsMatMulV47EpochAActivationTuple_def epoch_fields)
qed

lemma epoch_valid: "ValidateMatMulAsertParams epoch_params = Some True"
proof -
  let ?p = epoch_params
  note F = epoch_fields live_def IsDisabledHeight_def
  have r: "ReduceRescaleRatioToU32 1 1 \<noteq> None" by (simp_all add: ReduceRescale_coprime)
  have r64: "ReduceRescaleRatioToU64 3 2 \<noteq> None" by (simp add: ReduceRescaleRatioToU64_def Let_def)
  have "valid_scalars ?p" "valid_v4_bmx4c ?p" "valid_drlt ?p" "valid_rc ?p" "valid_coupled ?p"
    using r r64 epoch_tuple
    by (simp_all add: valid_scalars_def valid_v4_bmx4c_def valid_drlt_def valid_rc_def valid_coupled_def F del: not_None_eq)
  moreover have "valid_stall_recovery ?p" "valid_unified_heights ?p" "valid_retunes ?p" "valid_half_life_upgrade ?p" "valid_pow_limit_upgrade ?p = Some True"
    by (simp_all add: valid_stall_recovery_def valid_unified_heights_def valid_retunes_def valid_half_life_upgrade_def
        valid_pow_limit_upgrade_def IsMatMulPowLimitUpgradeConfigured_def IsMatMulAsertHalfLifeUpgradeConfigured_def F)
  moreover have "valid_no_shadowing ?p" by (simp add: valid_no_shadowing_def shadowed_by_earlier_def shares_def F)
  ultimately show ?thesis by (simp add: ValidateMatMulAsertParams_def)
qed

theorem validated_rescales_applied_witness: "rescales_at staged_params 100 3 2 \<and> transition_at epoch_params 100 3 2"
  using validated_rescales_applied[OF staged_valid] validated_rescales_applied[OF epoch_valid] epoch_tuple
  by (simp add: staged_fields epoch_fields live_def IsDisabledHeight_def)

end
