(* ===== verification/Spec2Isabelle.thy ===== *)
theory Spec2Isabelle
  imports Prelude Money Std_Map Shielded_Pool Bytes Sha256 Hash Field31 Matrix Freivalds Noise Transcript Arith256 Params Block Chain Chain_Walks Chain_Work Retarget Asert
begin

text \<open>
  A verification development for the BTX node (the C++ sources under \<open>src/src\<close>).

  \<^bold>\<open>The program.\<close> BTX is a full node of the Bitcoin family. A block header carries a proof of work made of a
  product of two matrices over the field modulo \<open>2^31 - 1\<close> (\<open>matmul/\<close>); headers enter a block index, a tree of
  linked entries with the work they claim and the work that has been authenticated (\<open>chain.cpp\<close>,
  \<open>node/blockstorage.cpp\<close>); targets are 256-bit numbers in a compact encoding (\<open>arith_uint256.cpp\<close>), gated by
  the consensus parameters (\<open>consensus/params.h\<close>); and connecting a block moves value through a shielded pool
  whose balance and outflow are limited (\<open>shielded/\<close>, \<open>validation.cpp\<close>). Everything is bound together by
  SHA-256 (\<open>crypto/sha256.cpp\<close>, \<open>hash.cpp\<close>).

  \<^bold>\<open>Conventions\<close> (\<open>Prelude\<close>). Unsigned integers are words of their width, or naturals with the wrap-around
  written out; signed integers are integers with range checks where the code relies on them. A failing
  assertion, an exception and undefined behaviour are \<open>None\<close>; a refusal the code reports is a value of its
  result. Counted loops are \<open>for_opt\<close> (and \<open>for_step\<close>), with one induction rule; walks along pointers that need
  not end on a damaged index are \<open>partial_function (option)\<close>, and that they end is proved. A \<open>uint256\<close> is its 32
  bytes in memory order.

  \<^bold>\<open>Theories.\<close>
  \<^item> \<open>Money\<close>, \<open>Std_Map\<close>, \<open>Shielded_Pool\<close>: amounts and checked addition (\<open>consensus/amount.h\<close>,
    \<open>util/overflow.h\<close>), the ordered map of the C++ library behind the interface \<open>ordered_map\<close>, and the shielded
    pool: the turnstile (\<open>shielded/turnstile.cpp\<close>), the outflow window (\<open>shielded/unshield_velocity.cpp\<close>) and
    their steps in \<open>ConnectBlock\<close> and \<open>DisconnectBlock\<close>. The lemmas show the balance stays in range, exactly
    when the window check accepts, and what disconnecting restores: the pool, also in the order \<open>DisconnectBlock\<close>
    uses when a block's unshields are covered by the balance before it, and the totals of every window.
  \<^item> \<open>Bytes\<close>, \<open>Sha256\<close>, \<open>Hash\<close>: byte order, the portable SHA-256 with its buffering, the constant-folded
    64-byte double hash, and the hasher classes behind the interface \<open>stream_hash\<close>; all compute FIPS 180-4.
    The replaceable function pointers of \<open>sha256.cpp\<close> have their initial, portable values: \<open>Transform\<close> and
    \<open>TransformD64\<close> are the portable functions, and the properties are about a build with no multi-way kernel.
  \<^item> \<open>Prime31\<close>, \<open>Field31\<close>, \<open>Matrix\<close>, \<open>Freivalds\<close>, \<open>Noise\<close>, \<open>Transcript\<close>: the files of the same names under
    \<open>matmul/\<close>. The field operations are exact; the vector kernels, worker splits and cached variants give the
    results of the plain ones on every host (on NEON for dot products shorter than \<open>2^32 - 4\<close>: beyond that the
    32-bit counter of \<open>NeonDot\<close> wraps and its loop does not end, \<open>dot_fits\<close>); the Freivalds check accepts true products and bounds the share of
    challenges a wrong one passes; the transcript replay equals the canonical one.
  \<^item> \<open>Arith256\<close>: \<open>base_uint\<close> and \<open>arith_uint256\<close>. The digit loops refine arithmetic modulo \<open>2^256\<close>, division
    is total, and the compact encoding has exact flags and normal forms.
  \<^item> \<open>Params\<close>, \<open>Block\<close>: the fields and height gates of \<open>Consensus::Params\<close>, and the header with its wire image
    and hash (\<open>primitives/block.h\<close>).
  \<^item> \<open>Chain\<close>, \<open>Chain_Walks\<close>, \<open>Chain_Work\<close>: the block index. A pointer is the hash of its entry and a heap maps
    pointers to entries. Entries have the fields
    the modelled functions read; file positions, the transaction count of the chain and the sequence number of received
    blocks, which no modelled function reads, are left out. The walks are compared with the k-fold predecessor, the active chain with the branch of
    its tip, and every index reachable by \<open>AddToBlockIndex\<close> is shown linked with consistent work.
  \<^item> \<open>Retarget\<close>, \<open>Asert\<close>: the difficulty rule of MatMul networks (\<open>pow.cpp\<close>). \<open>Retarget\<close> has the target arithmetic:
    scaling is the exact saturated floor, and the ASERT target follows the schedule, exactly for anchors below
    \<open>2^239\<close> and within \<open>2^17\<close> for all others. \<open>Asert\<close> has the parameter
    validation, the anchor, the time credit with the cache it keeps on the index entries, and \<open>MatMulAsert\<close>: its bits
    are always acceptable, the cache never changes a result, and validated rescales are never shadowed, the Epoch A
    transition included.

  \<^bold>\<open>Bounds.\<close> Hypotheses that bound inputs are those of the code: matrix dimensions that fit the \<open>uint32\<close> products
  the code forms, heights up to \<open>2^31 - 1\<close> (below \<open>2^30\<close> for locators, where the doubling step is 32 bits wide),
  and claimed work below \<open>2^256\<close>. No function uses fuel.

  \<^bold>\<open>Parameters.\<close> The multi-way kernels of SHA-256, the presence of NEON and the number of hardware threads are arguments
  of the definitions that use them; the properties hold for every value of the latter two and for no kernels. The unbounded \<open>cpp_int\<close> of the Epoch A
  transition target is a natural number, its documented meaning.

  \<^bold>\<open>Not modelled.\<close> Networking, the wallet, the graphical interface, RPC, databases and files are input and output
  around external libraries. The script interpreter, the transaction checks, the shielded proof systems, the
  later MatMul profiles (integer and resident-curriculum kernels, their recursive proof systems) and accelerator
  back ends are not modelled; of \<open>validation.cpp\<close> only the shielded pool steps are, and of \<open>pow.cpp\<close> neither
  the older retargeting rules (Dark Gravity Wave and the two-week interval) nor the header and payload checks and the
  mining loops. Vendored libraries are not
  part of the program's own sources.
\<close>

end
